(* ===== verification/Prelude.thy ===== *)
theory Prelude
  imports Main "HOL-Library.Char_ord" "HOL-Library.List_Lexorder"
    "HOL-Library.Product_Lexorder" "HOL-Library.Sublist"
begin

text \<open>
  Shared vocabulary of the development: Rust's \<open>Result\<close> and the early return \<open>?\<close>,
  computations that change a state and may fail, the machine-integer bounds the code relies on,
  and UTF-8 strings as byte lists with the standard library's string operations.
\<close>

section \<open>Results and early return\<close>

datatype ('a, 'e) result = Ok 'a | Err 'e

type_synonym ('s, 'a, 'e) action = "'s \<Rightarrow> ('a, 'e) result \<times> 's"

named_theorems result_simps \<open>unfolding of results and actions\<close>
named_theorems evals \<open>equations that evaluate the model on a concrete input\<close>

primrec is_ok :: "('a, 'e) result \<Rightarrow> bool" where
  "is_ok (Ok x) = True"
| "is_ok (Err e) = False"

text \<open>\<open>rbind r f\<close> is \<open>f(r?)\<close>; \<open>map_err\<close> is \<open>Result::map_err\<close>; \<open>ok_or\<close> is
  \<open>Option::ok_or\<close>.\<close>

definition rbind :: "('a, 'e) result \<Rightarrow> ('a \<Rightarrow> ('b, 'e) result) \<Rightarrow> ('b, 'e) result" where
  "rbind r f = (case r of Ok x \<Rightarrow> f x | Err e \<Rightarrow> Err e)"

definition map_err :: "('e \<Rightarrow> 'f) \<Rightarrow> ('a, 'e) result \<Rightarrow> ('a, 'f) result" where
  "map_err f r = (case r of Ok x \<Rightarrow> Ok x | Err e \<Rightarrow> Err (f e))"

definition ok_or :: "'e \<Rightarrow> 'a option \<Rightarrow> ('a, 'e) result" where
  "ok_or e x = (case x of Some y \<Rightarrow> Ok y | None \<Rightarrow> Err e)"

text \<open>\<open>checks [c1, c2, \<dots>]\<close> is the statement sequence \<open>c1?; c2?; \<dots> Ok(())\<close>;
  \<open>require b e\<close> is \<open>if !b { return Err(e) }\<close>.\<close>

fun checks :: "(unit, 'e) result list \<Rightarrow> (unit, 'e) result" where
  "checks [] = Ok ()"
| "checks (c # cs) = (case c of Ok _ \<Rightarrow> checks cs | Err e \<Rightarrow> Err e)"

definition require :: "bool \<Rightarrow> 'e \<Rightarrow> (unit, 'e) result" where
  "require b e = (if b then Ok () else Err e)"

text \<open>Computations over a state: \<open>abind\<close> sequences, an error skips the rest but keeps the
  state reached, as a \<open>&mut\<close> argument does after an early return.\<close>

definition areturn :: "'a \<Rightarrow> ('s, 'a, 'e) action" where
  "areturn x = (\<lambda>s. (Ok x, s))"

definition araise :: "'e \<Rightarrow> ('s, 'a, 'e) action" where
  "araise e = (\<lambda>s. (Err e, s))"

definition abind :: "('s, 'a, 'e) action \<Rightarrow> ('a \<Rightarrow> ('s, 'b, 'e) action) \<Rightarrow> ('s, 'b, 'e) action" where
  "abind m f = (\<lambda>s. case m s of (Ok x, s') \<Rightarrow> f x s' | (Err e, s') \<Rightarrow> (Err e, s'))"

definition alift :: "('a, 'e) result \<Rightarrow> ('s, 'a, 'e) action" where
  "alift r = (\<lambda>s. (r, s))"

definition arequire :: "bool \<Rightarrow> 'e \<Rightarrow> ('s, unit, 'e) action" where
  "arequire b e = (if b then areturn () else araise e)"

lemmas action_defs = areturn_def araise_def abind_def alift_def arequire_def

lemma abind_cong [fundef_cong]:
  "s = t \<Longrightarrow> m t = m' t \<Longrightarrow> (\<And>x s'. m' t = (Ok x, s') \<Longrightarrow> f x s' = f' x s') \<Longrightarrow>
   abind m f s = abind m' f' t"
  by (auto simp: abind_def split: prod.splits result.splits)

lemma rbind_cong [fundef_cong]:
  "r = r' \<Longrightarrow> (\<And>x. r' = Ok x \<Longrightarrow> f x = f' x) \<Longrightarrow> rbind r f = rbind r' f'"
  by (auto simp: rbind_def split: result.splits)

lemma rbind_simps [simp, result_simps]:
  "rbind (Ok x) f = f x"
  "rbind (Err e) f = Err e"
  by (simp_all add: rbind_def)

lemma rbind_Ok_iff: "rbind r f = Ok y \<longleftrightarrow> (\<exists>x. r = Ok x \<and> f x = Ok y)"
  by (cases r) simp_all

text \<open>\<open>iter().map(f).collect::<Result<Vec<_>, _>>()\<close>\<close>

fun rmap :: "('a \<Rightarrow> ('b, 'e) result) \<Rightarrow> 'a list \<Rightarrow> ('b list, 'e) result" where
  "rmap f [] = Ok []"
| "rmap f (x # xs) = rbind (f x) (\<lambda>y. rbind (rmap f xs) (\<lambda>ys. Ok (y # ys)))"

lemma rmap_Ok_iff: "rmap f xs = Ok ys \<longleftrightarrow> list_all2 (\<lambda>x y. f x = Ok y) xs ys"
  by (induction xs arbitrary: ys) (auto simp: rbind_Ok_iff list_all2_Cons1)

lemma map_err_simps [simp, result_simps]:
  "map_err f (Ok x) = Ok x"
  "map_err f (Err e) = Err (f e)"
  by (simp_all add: map_err_def)

lemma map_err_Ok_iff [simp]: "map_err f r = Ok x \<longleftrightarrow> r = Ok x"
  by (cases r) simp_all

lemma ok_or_simps [simp, result_simps]:
  "ok_or e (Some x) = Ok x"
  "ok_or e None = Err e"
  by (simp_all add: ok_or_def)

lemma ok_or_Ok_iff [simp]: "ok_or e o' = Ok x \<longleftrightarrow> o' = Some x"
  by (cases o') simp_all

lemma is_ok_iff: "is_ok r \<longleftrightarrow> (\<exists>x. r = Ok x)"
  by (cases r) simp_all

lemma require_Ok_iff [simp]: "require b e = Ok u \<longleftrightarrow> b"
  by (simp add: require_def)

lemma require_Err_iff [simp]: "require b e = Err e' \<longleftrightarrow> \<not> b \<and> e' = e"
  by (auto simp: require_def)

lemma checks_Ok_iff: "checks cs = Ok u \<longleftrightarrow> (\<forall>c \<in> set cs. c = Ok ())"
  by (induction cs) (auto split: result.splits)

declare checks.simps(2) [simp del]

lemma checks_Cons_Ok [simp]: "checks (c # cs) = Ok u \<longleftrightarrow> c = Ok () \<and> checks cs = Ok ()"
  by (cases c) (auto simp: checks.simps(2))

lemma abind_Ok:
  assumes "abind m f s = (Ok y, t)"
  obtains x s' where "m s = (Ok x, s')" "f x s' = (Ok y, t)"
  using assms by (auto simp: abind_def split: prod.splits result.splits)

lemma abind_Err:
  assumes "abind m f s = (Err e, t)"
  obtains "m s = (Err e, t)" | x s' where "m s = (Ok x, s')" "f x s' = (Err e, t)"
  using assms by (auto simp: abind_def split: prod.splits result.splits)

text \<open>A frame: a reflexive and transitive relation between the states before and after. An action
  that keeps it does so whether it succeeds or fails, and sequencing keeps it.\<close>

locale frame =
  fixes R :: "'s \<Rightarrow> 's \<Rightarrow> bool"
  assumes frame_refl: "R s s"
    and frame_trans: "R s t \<Longrightarrow> R t u \<Longrightarrow> R s u"
begin

definition keeps :: "('s, 'a, 'e) action \<Rightarrow> bool" where
  "keeps m \<longleftrightarrow> (\<forall>s. R s (snd (m s)))"

lemma keepsD: "keeps m \<Longrightarrow> m s = (r, t) \<Longrightarrow> R s t"
  by (metis keeps_def snd_conv)

lemma keeps_basic [intro, simp]: "keeps (areturn x)" "keeps (araise e)" "keeps (alift r)"
  by (simp_all add: keeps_def action_defs frame_refl)

lemma keeps_abind [intro]:
  assumes "keeps m" and "\<And>x. keeps (f x)" shows "keeps (abind m f)"
  unfolding keeps_def
proof
  fix s
  obtain r t where m: "m s = (r, t)" by (cases "m s")
  then have t: "R s t" using assms(1) keepsD by blast
  show "R s (snd (abind m f s))"
  proof (cases r)
    case (Ok x)
    have "R t (snd (f x t))" using assms(2) by (simp add: keeps_def)
    with t m Ok frame_trans show ?thesis by (auto simp: abind_def)
  next
    case (Err e)
    with t m show ?thesis by (simp add: abind_def)
  qed
qed

end

section \<open>Machine integers\<close>

text \<open>Lengths and counters are \<open>nat\<close>; the places where \<open>u64\<close>, \<open>i64\<close> or \<open>u32\<close> saturate or are
  checked write the bound out.\<close>

definition u64_max :: nat where "u64_max = 2 ^ 64 - 1"
definition i64_max :: int where "i64_max = 2 ^ 63 - 1"
definition i64_min :: int where "i64_min = - (2 ^ 63)"
definition i32_max :: nat where "i32_max = 2 ^ 31 - 1"

definition is_i64 :: "int \<Rightarrow> bool" where
  "is_i64 x \<longleftrightarrow> i64_min \<le> x \<and> x \<le> i64_max"

definition clamp_i64 :: "int \<Rightarrow> int" where
  "clamp_i64 x = max i64_min (min i64_max x)"

definition i64_saturating_sub :: "int \<Rightarrow> int \<Rightarrow> int" where
  "i64_saturating_sub a b = clamp_i64 (a - b)"

definition i64_checked_neg :: "int \<Rightarrow> int option" where
  "i64_checked_neg x = (if x = i64_min then None else Some (- x))"

definition u64_saturating_add :: "nat \<Rightarrow> nat \<Rightarrow> nat" where
  "u64_saturating_add a b = min u64_max (a + b)"

lemmas i64_defs = i64_max_def i64_min_def is_i64_def clamp_i64_def

lemma is_i64_clamp [simp]: "is_i64 (clamp_i64 x)"
  by (simp add: i64_defs)

lemma clamp_i64_id: "is_i64 x \<Longrightarrow> clamp_i64 x = x"
  by (simp add: i64_defs)

lemma i64_checked_neg_is_i64: "is_i64 x \<Longrightarrow> i64_checked_neg x = Some y \<Longrightarrow> is_i64 y"
  by (auto simp: i64_checked_neg_def i64_defs split: if_splits)

section \<open>Strings\<close>

text \<open>A Rust \<open>str\<close> is the list of its UTF-8 bytes; \<open>length\<close> is \<open>str::len\<close> and the order of
  \<open>List_Lexorder\<close> over \<open>Char_ord\<close> is Rust's byte order on strings.\<close>

abbreviation byte :: "char \<Rightarrow> nat" where
  "byte c \<equiv> of_char c"

abbreviation NUL :: char where
  "NUL \<equiv> CHR 0x00"

definition is_ascii_digit :: "char \<Rightarrow> bool" where
  "is_ascii_digit c \<longleftrightarrow> 48 \<le> byte c \<and> byte c \<le> 57"

definition is_ascii_uppercase :: "char \<Rightarrow> bool" where
  "is_ascii_uppercase c \<longleftrightarrow> 65 \<le> byte c \<and> byte c \<le> 90"

definition is_ascii_lowercase :: "char \<Rightarrow> bool" where
  "is_ascii_lowercase c \<longleftrightarrow> 97 \<le> byte c \<and> byte c \<le> 122"

definition is_ascii_alphabetic :: "char \<Rightarrow> bool" where
  "is_ascii_alphabetic c \<longleftrightarrow> is_ascii_uppercase c \<or> is_ascii_lowercase c"

definition is_ascii_alphanumeric :: "char \<Rightarrow> bool" where
  "is_ascii_alphanumeric c \<longleftrightarrow> is_ascii_alphabetic c \<or> is_ascii_digit c"

definition is_ascii_whitespace :: "char \<Rightarrow> bool" where
  "is_ascii_whitespace c \<longleftrightarrow> byte c \<in> {9, 10, 12, 13, 32}"

lemmas ascii_defs = is_ascii_digit_def is_ascii_uppercase_def is_ascii_lowercase_def
  is_ascii_alphabetic_def is_ascii_alphanumeric_def is_ascii_whitespace_def

definition to_ascii_lower :: "char \<Rightarrow> char" where
  "to_ascii_lower c = (if is_ascii_uppercase c then char_of (byte c + 32) else c)"

definition to_ascii_upper :: "char \<Rightarrow> char" where
  "to_ascii_upper c = (if is_ascii_lowercase c then char_of (byte c - 32) else c)"

definition to_ascii_lowercase :: "string \<Rightarrow> string" where
  "to_ascii_lowercase s = map to_ascii_lower s"

definition to_ascii_uppercase :: "string \<Rightarrow> string" where
  "to_ascii_uppercase s = map to_ascii_upper s"

lemma length_to_ascii_lowercase [simp]: "length (to_ascii_lowercase s) = length s"
  by (simp add: to_ascii_lowercase_def)

lemma length_to_ascii_uppercase [simp]: "length (to_ascii_uppercase s) = length s"
  by (simp add: to_ascii_uppercase_def)

definition starts_with :: "string \<Rightarrow> string \<Rightarrow> bool" where
  "starts_with s p \<longleftrightarrow> take (length p) s = p"

definition ends_with :: "string \<Rightarrow> string \<Rightarrow> bool" where
  "ends_with s p \<longleftrightarrow> length p \<le> length s \<and> drop (length s - length p) s = p"

fun str_contains :: "string \<Rightarrow> string \<Rightarrow> bool" where
  "str_contains [] p \<longleftrightarrow> p = []"
| "str_contains (c # s) p \<longleftrightarrow> starts_with (c # s) p \<or> str_contains s p"

definition strip_prefix :: "string \<Rightarrow> string \<Rightarrow> string option" where
  "strip_prefix p s = (if starts_with s p then Some (drop (length p) s) else None)"

text \<open>\<open>find_byte\<close> and \<open>rfind_byte\<close> are \<open>find\<close>, \<open>position\<close>, \<open>rfind\<close> and \<open>rposition\<close> with a
  predicate on bytes.\<close>

fun find_byte :: "(char \<Rightarrow> bool) \<Rightarrow> string \<Rightarrow> nat option" where
  "find_byte p [] = None"
| "find_byte p (c # s) = (if p c then Some 0 else map_option Suc (find_byte p s))"

fun rfind_byte :: "(char \<Rightarrow> bool) \<Rightarrow> string \<Rightarrow> nat option" where
  "rfind_byte p [] = None"
| "rfind_byte p (c # s) =
     (case rfind_byte p s of Some i \<Rightarrow> Some (Suc i) | None \<Rightarrow> if p c then Some 0 else None)"

text \<open>\<open>path.rsplit('/').next()\<close>: what follows the last slash.\<close>

definition basename :: "string \<Rightarrow> string" where
  "basename p = (case rfind_byte (\<lambda>c. c = CHR ''/'') p of Some i \<Rightarrow> drop (Suc i) p | None \<Rightarrow> p)"

lemma starts_with_iff_prefix: "starts_with s p \<longleftrightarrow> prefix p s"
  by (metis append_eq_conv_conj prefix_def starts_with_def append_take_drop_id)

lemma ends_with_iff_suffix: "ends_with s p \<longleftrightarrow> suffix p s"
proof
  assume "ends_with s p"
  then show "suffix p s"
    by (metis ends_with_def suffix_drop)
next
  assume "suffix p s"
  then show "ends_with s p"
    by (auto simp: ends_with_def suffix_def)
qed

lemma str_contains_iff_sublist: "str_contains s p \<longleftrightarrow> sublist p s"
proof (induction s)
  case Nil
  then show ?case by simp
next
  case (Cons c s)
  then show ?case
    by (simp add: starts_with_iff_prefix sublist_Cons_right)
qed

lemma find_byte_Some:
  "find_byte p s = Some i \<Longrightarrow> i < length s \<and> p (s ! i) \<and> (\<forall>j < i. \<not> p (s ! j))"
proof (induction s arbitrary: i)
  case Nil
  then show ?case by simp
next
  case (Cons c s)
  show ?case
  proof (cases "p c")
    case True
    with Cons.prems show ?thesis by simp
  next
    case False
    with Cons.prems obtain k where k: "find_byte p s = Some k" "i = Suc k" by auto
    with Cons.IH False show ?thesis
      by (metis length_Cons less_Suc_eq_0_disj not_less_eq nth_Cons_0 nth_Cons_Suc)
  qed
qed

lemma find_byte_None: "find_byte p s = None \<longleftrightarrow> (\<forall>c \<in> set s. \<not> p c)"
  by (induction s) auto

lemma rfind_byte_Some:
  "rfind_byte p s = Some i \<Longrightarrow> i < length s \<and> p (s ! i)"
  by (induction s arbitrary: i) (auto split: option.splits if_splits)

subsection \<open>UTF-8\<close>

definition is_continuation :: "char \<Rightarrow> bool" where
  "is_continuation c \<longleftrightarrow> 128 \<le> byte c \<and> byte c < 192"

definition byte_between :: "nat \<Rightarrow> nat \<Rightarrow> char \<Rightarrow> bool" where
  "byte_between lo hi c \<longleftrightarrow> lo \<le> byte c \<and> byte c \<le> hi"

text \<open>The well-formed byte sequences of the Unicode standard; every Rust \<open>str\<close> is one.\<close>

fun valid_utf8 :: "string \<Rightarrow> bool" where
  "valid_utf8 [] \<longleftrightarrow> True"
| "valid_utf8 (a # s) \<longleftrightarrow>
     (if byte a < 128 then valid_utf8 s
      else if byte_between 194 223 a then
        (case s of b # s' \<Rightarrow> is_continuation b \<and> valid_utf8 s' | [] \<Rightarrow> False)
      else if byte_between 224 239 a then
        (case s of b # c # s' \<Rightarrow>
           byte_between (if byte a = 224 then 160 else 128) (if byte a = 237 then 159 else 191) b
           \<and> is_continuation c \<and> valid_utf8 s'
         | _ \<Rightarrow> False)
      else if byte_between 240 244 a then
        (case s of b # c # d # s' \<Rightarrow>
           byte_between (if byte a = 240 then 144 else 128) (if byte a = 244 then 143 else 191) b
           \<and> is_continuation c \<and> is_continuation d \<and> valid_utf8 s'
         | _ \<Rightarrow> False)
      else False)"

text \<open>\<open>str::is_char_boundary\<close>, and slicing, which panics (\<open>None\<close>) outside the string or off a
  character boundary.\<close>

definition is_char_boundary :: "string \<Rightarrow> nat \<Rightarrow> bool" where
  "is_char_boundary s i \<longleftrightarrow>
     i = 0 \<or> i = length s \<or> (i < length s \<and> \<not> is_continuation (s ! i))"

definition str_slice :: "string \<Rightarrow> nat \<Rightarrow> nat \<Rightarrow> string option" where
  "str_slice s a b =
     (if a \<le> b \<and> b \<le> length s \<and> is_char_boundary s a \<and> is_char_boundary s b
      then Some (take (b - a) (drop a s)) else None)"

text \<open>The loop \<open>while !s.is_char_boundary(end) { end -= 1 }\<close>.\<close>

fun floor_boundary :: "string \<Rightarrow> nat \<Rightarrow> nat" where
  "floor_boundary s 0 = 0"
| "floor_boundary s (Suc i) = (if is_char_boundary s (Suc i) then Suc i else floor_boundary s i)"

lemma floor_boundary_le: "floor_boundary s i \<le> i"
  by (induction i) auto

lemma floor_boundary_boundary: "is_char_boundary s (floor_boundary s i)"
  by (induction i) (auto simp: is_char_boundary_def)

lemma is_char_boundary_simps [simp]:
  "is_char_boundary s 0"
  "is_char_boundary s (length s)"
  by (simp_all add: is_char_boundary_def)

lemma floor_boundary_id: "is_char_boundary s i \<Longrightarrow> floor_boundary s i = i"
  by (cases i) simp_all

text \<open>A maximal boundary: no boundary lies strictly between the result and the start.\<close>

lemma floor_boundary_greatest:
  "is_char_boundary s j \<Longrightarrow> j \<le> i \<Longrightarrow> j \<le> floor_boundary s i"
  by (induction i) (auto simp: le_Suc_eq)

section \<open>Decimal numbers\<close>

text \<open>\<open>to_string\<close> of the integer types.\<close>

fun nat_to_string :: "nat \<Rightarrow> string" where
  "nat_to_string n =
     (if n < 10 then [char_of (48 + n)] else nat_to_string (n div 10) @ [char_of (48 + n mod 10)])"

definition int_to_string :: "int \<Rightarrow> string" where
  "int_to_string i = (if i < 0 then CHR ''-'' # nat_to_string (nat (- i)) else nat_to_string (nat i))"

declare nat_to_string.simps [simp del]

lemma byte_char_of_digit: "n < 10 \<Longrightarrow> byte (char_of (48 + n) :: char) = 48 + n"
  by simp

lemma nat_to_string_digits: "c \<in> set (nat_to_string n) \<Longrightarrow> is_ascii_digit c"
proof (induction n rule: nat_to_string.induct)
  case (1 n)
  show ?case
  proof (cases "n < 10")
    case True
    with "1.prems" show ?thesis
      by (auto simp: nat_to_string.simps [of n] is_ascii_digit_def)
  next
    case False
    with 1 show ?thesis
      by (auto simp: nat_to_string.simps [of n] is_ascii_digit_def)
  qed
qed

lemma nat_to_string_nonempty [simp]: "nat_to_string n \<noteq> []"
  by (subst nat_to_string.simps) simp

lemma length_nat_to_string: "n < 10 ^ Suc k \<Longrightarrow> length (nat_to_string n) \<le> Suc k"
proof (induction k arbitrary: n)
  case 0
  then show ?case by (simp add: nat_to_string.simps [of n])
next
  case (Suc k)
  show ?case
  proof (cases "n < 10")
    case True
    then show ?thesis by (simp add: nat_to_string.simps [of n])
  next
    case False
    have "n div 10 < 10 ^ Suc k" using Suc.prems by (simp add: less_mult_imp_div_less)
    with Suc.IH [OF this] False show ?thesis by (simp add: nat_to_string.simps [of n])
  qed
qed

section \<open>Big-endian bytes\<close>

text \<open>\<open>to_be_bytes\<close> of an unsigned integer of \<open>k\<close> bytes, and of an \<open>i64\<close> in two's complement.\<close>

fun be_bytes :: "nat \<Rightarrow> nat \<Rightarrow> string" where
  "be_bytes 0 n = []"
| "be_bytes (Suc k) n = be_bytes k (n div 256) @ [char_of (n mod 256)]"

definition i64_be_bytes :: "int \<Rightarrow> string" where
  "i64_be_bytes i = be_bytes 8 (nat (i mod 2 ^ 64))"

lemma length_be_bytes [simp]: "length (be_bytes k n) = k"
  by (induction k arbitrary: n) simp_all

lemma length_i64_be_bytes [simp]: "length (i64_be_bytes i) = 8"
  by (simp add: i64_be_bytes_def)

lemma be_bytes_inject:
  "n < 256 ^ k \<Longrightarrow> m < 256 ^ k \<Longrightarrow> be_bytes k n = be_bytes k m \<longleftrightarrow> n = m"
proof (induction k arbitrary: n m)
  case 0
  then show ?case by simp
next
  case (Suc k)
  have "char_of (n mod 256) = (char_of (m mod 256) :: char) \<longleftrightarrow> n mod 256 = m mod 256"
    by (metis char_of_mod_256 mod_mod_trivial of_char_of)
  moreover have "be_bytes k (n div 256) = be_bytes k (m div 256) \<longleftrightarrow> n div 256 = m div 256"
    using Suc.prems by (intro Suc.IH) (simp_all add: less_mult_imp_div_less mult.commute)
  ultimately show ?case
    by simp (metis div_mod_decomp)
qed

lemma i64_be_bytes_inject:
  assumes "is_i64 a" and "is_i64 b" and "i64_be_bytes a = i64_be_bytes b"
  shows "a = b"
proof -
  have "nat (a mod 2 ^ 64) = nat (b mod 2 ^ 64)"
    using assms(3) be_bytes_inject [of "nat (a mod 2 ^ 64)" 8 "nat (b mod 2 ^ 64)"]
    by (simp add: i64_be_bytes_def nat_less_iff)
  then have "a mod 2 ^ 64 = b mod 2 ^ 64" by (simp add: eq_nat_nat_iff)
  then have "(2 ^ 64 :: int) dvd a - b" by (simp add: mod_eq_dvd_iff)
  moreover have "\<bar>a - b\<bar> < 2 ^ 64" using assms(1,2) by (auto simp: i64_defs)
  ultimately show ?thesis by (metis dvd_imp_le_int eq_iff_diff_eq_0 linorder_not_less abs_numeral power_abs)
qed

text \<open>A field behind its length can be read back, whatever follows it.\<close>

lemma length_prefixed_inject:
  assumes "length x < 256 ^ k" and "length y < 256 ^ k"
    and "be_bytes k (length x) @ x @ s = be_bytes k (length y) @ y @ t"
  shows "x = y \<and> s = t"
proof -
  from assms(3) have "be_bytes k (length x) = be_bytes k (length y)" and "x @ s = y @ t"
    by (simp_all add: append_eq_append_conv)
  with assms(1,2) be_bytes_inject show ?thesis by (simp add: append_eq_append_conv)
qed

lemmas prelude_evals [evals] =
  rbind_def map_err_def ok_or_def require_def areturn_def araise_def abind_def alift_def
  arequire_def u64_max_def i64_max_def i64_min_def i32_max_def is_i64_def clamp_i64_def
  i64_saturating_sub_def i64_checked_neg_def u64_saturating_add_def is_ascii_digit_def
  is_ascii_uppercase_def is_ascii_lowercase_def is_ascii_alphabetic_def
  is_ascii_alphanumeric_def is_ascii_whitespace_def to_ascii_lower_def to_ascii_upper_def
  to_ascii_lowercase_def to_ascii_uppercase_def starts_with_def ends_with_def strip_prefix_def
  basename_def is_continuation_def byte_between_def is_char_boundary_def str_slice_def
  int_to_string_def i64_be_bytes_def checks.simps(2) nat_to_string.simps Let_def

end
