(* ===== verification/Limits.thy ===== *)
theory Limits
  imports Prelude
begin

text \<open>
  The central resource limits (\<open>openvibes-core/src/limits.rs\<close>) and the hexadecimal digests of
  \<open>openvibes-core/src/inventory.rs\<close>, with the round trip between a digest and its text.
\<close>

section \<open>ResourceLimits\<close>

record resource_limits =
  document_bytes :: nat
  document_nesting_depth :: nat
  document_nodes :: nat
  string_bytes :: nat
  identifier_bytes :: nat
  facts_per_scan :: nat
  rules_per_set :: nat
  yaml_alias_replay_events :: nat
  yaml_alias_replay_depth :: nat
  yaml_alias_expansions_per_anchor :: nat
  expression_bytes :: nat
  evidence_per_finding :: nat
  list_items :: nat
  fact_list_items :: nat
  inventory_items :: nat
  inventory_document_bytes :: nat
  evaluation_operations :: nat
  expression_depth :: nat
  expression_nodes :: nat
  fact_input_bytes :: nat
  evaluation_milliseconds :: nat
  scan_seconds :: nat
  queue_bytes :: nat
  retention_days :: nat
  delivery_batch_items :: nat
  retry_initial_seconds :: nat
  retry_max_seconds :: nat
  network_connect_seconds :: nat
  network_request_seconds :: nat

definition V1 :: resource_limits where
  "V1 = \<lparr>
     document_bytes = 1048576,
     document_nesting_depth = 32,
     document_nodes = 20000,
     string_bytes = 4096,
     identifier_bytes = 128,
     facts_per_scan = 10000,
     rules_per_set = 512,
     yaml_alias_replay_events = 10000,
     yaml_alias_replay_depth = 16,
     yaml_alias_expansions_per_anchor = 64,
     expression_bytes = 16384,
     evidence_per_finding = 128,
     list_items = 1024,
     fact_list_items = 10000,
     inventory_items = 50000,
     inventory_document_bytes = 8388608,
     evaluation_operations = 50000,
     expression_depth = 32,
     expression_nodes = 256,
     fact_input_bytes = 16777216,
     evaluation_milliseconds = 100,
     scan_seconds = 300,
     queue_bytes = 268435456,
     retention_days = 30,
     delivery_batch_items = 500,
     retry_initial_seconds = 15,
     retry_max_seconds = 3600,
     network_connect_seconds = 10,
     network_request_seconds = 60\<rparr>"

definition PACKAGE_NAMES :: string where
  "PACKAGE_NAMES = ''package.names''"

definition fact_list_limit :: "resource_limits \<Rightarrow> string \<Rightarrow> nat" where
  "fact_list_limit l key = (if key = PACKAGE_NAMES then inventory_items l else fact_list_items l)"

section \<open>Digests as lowercase hexadecimal\<close>

text \<open>A 32-byte digest is a byte list; \<open>hex\<close> writes two lowercase digits per byte.\<close>

definition hex_digit :: "nat \<Rightarrow> char" where
  "hex_digit n = char_of (if n < 10 then 48 + n else 87 + n)"

definition hex_byte :: "char \<Rightarrow> string" where
  "hex_byte c = [hex_digit (byte c div 16), hex_digit (byte c mod 16)]"

definition hex :: "string \<Rightarrow> string" where
  "hex digest = concat (map hex_byte digest)"

definition is_lower_hex :: "char \<Rightarrow> bool" where
  "is_lower_hex c \<longleftrightarrow> is_ascii_digit c \<or> (97 \<le> byte c \<and> byte c \<le> 102)"

definition hex_value :: "char \<Rightarrow> nat option" where
  "hex_value c =
     (if is_ascii_digit c then Some (byte c - 48)
      else if 97 \<le> byte c \<and> byte c \<le> 102 then Some (byte c - 87)
      else if 65 \<le> byte c \<and> byte c \<le> 70 then Some (byte c - 55)
      else None)"

text \<open>\<open>u8::from_str_radix(_, 16)\<close> on a two-byte string; a leading plus sign is accepted.\<close>

definition u8_from_hex :: "char \<Rightarrow> char \<Rightarrow> char option" where
  "u8_from_hex a b =
     (case hex_value b of
        None \<Rightarrow> None
      | Some y \<Rightarrow>
          if a = CHR ''+'' then Some (char_of y)
          else map_option (\<lambda>x. char_of (16 * x + y)) (hex_value a))"

fun hex_pairs :: "string \<Rightarrow> string option" where
  "hex_pairs [] = Some []"
| "hex_pairs [a] = None"
| "hex_pairs (a # b # t) =
     (case u8_from_hex a b of
        None \<Rightarrow> None
      | Some c \<Rightarrow> map_option (\<lambda>d. c # d) (hex_pairs t))"

definition digest_from_hex :: "string \<Rightarrow> string option" where
  "digest_from_hex text =
     (if length text \<noteq> 64 \<or> \<not> list_all is_lower_hex text then None else hex_pairs text)"

section \<open>Lemmas\<close>

lemma V1_sel [simp]:
  "document_bytes V1 = 1048576" "document_nesting_depth V1 = 32" "document_nodes V1 = 20000"
  "string_bytes V1 = 4096" "identifier_bytes V1 = 128" "facts_per_scan V1 = 10000"
  "rules_per_set V1 = 512" "yaml_alias_replay_events V1 = 10000" "yaml_alias_replay_depth V1 = 16"
  "yaml_alias_expansions_per_anchor V1 = 64" "expression_bytes V1 = 16384"
  "evidence_per_finding V1 = 128" "list_items V1 = 1024" "fact_list_items V1 = 10000"
  "inventory_items V1 = 50000" "inventory_document_bytes V1 = 8388608"
  "evaluation_operations V1 = 50000" "expression_depth V1 = 32" "expression_nodes V1 = 256"
  "fact_input_bytes V1 = 16777216" "evaluation_milliseconds V1 = 100" "scan_seconds V1 = 300"
  "queue_bytes V1 = 268435456" "retention_days V1 = 30" "delivery_batch_items V1 = 500"
  "retry_initial_seconds V1 = 15" "retry_max_seconds V1 = 3600"
  "network_connect_seconds V1 = 10" "network_request_seconds V1 = 60"
  by (simp_all add: V1_def)

lemma byte_lt [simp]: "byte c < 256"
  by (cases c) (simp add: of_char_Char)

lemma byte_hex_digit: "n < 16 \<Longrightarrow> byte (hex_digit n) = (if n < 10 then 48 + n else 87 + n)"
  by (simp add: hex_digit_def)

lemma is_lower_hex_digit: "n < 16 \<Longrightarrow> is_lower_hex (hex_digit n)"
  by (auto simp: is_lower_hex_def is_ascii_digit_def byte_hex_digit)

lemma hex_value_digit: "n < 16 \<Longrightarrow> hex_value (hex_digit n) = Some n"
  by (auto simp: hex_value_def is_ascii_digit_def byte_hex_digit)

lemma hex_digit_not_plus: "n < 16 \<Longrightarrow> hex_digit n \<noteq> CHR ''+''"
proof
  assume "n < 16" "hex_digit n = CHR ''+''"
  then have "byte (hex_digit n) = 43" by simp
  with \<open>n < 16\<close> show False by (simp add: byte_hex_digit split: if_splits)
qed

lemma div_16_lt: "byte c div 16 < (16::nat)"
  using byte_lt [of c] by linarith

lemma hex_pairs_hex: "hex_pairs (hex d) = Some d"
proof (induction d)
  case Nil
  then show ?case by (simp add: hex_def)
next
  case (Cons c d)
  have "u8_from_hex (hex_digit (byte c div 16)) (hex_digit (byte c mod 16)) = Some c"
    by (simp add: u8_from_hex_def hex_value_digit hex_digit_not_plus div_16_lt)
  with Cons show ?case by (simp add: hex_def hex_byte_def)
qed

lemma length_hex: "length (hex d) = 2 * length d"
  by (induction d) (simp_all add: hex_def hex_byte_def)

lemma hex_lower: "list_all is_lower_hex (hex d)"
  by (induction d) (simp_all add: hex_def hex_byte_def is_lower_hex_digit div_16_lt)

lemma hex_inject [simp]: "hex a = hex b \<longleftrightarrow> a = b"
  by (metis hex_pairs_hex option.inject)

lemma digest_from_hex_hex: "length d = 32 \<Longrightarrow> digest_from_hex (hex d) = Some d"
  by (simp add: digest_from_hex_def length_hex hex_lower hex_pairs_hex)

lemma lower_hex_value:
  "is_lower_hex c \<Longrightarrow> \<exists>x < 16. hex_value c = Some x \<and> hex_digit x = c"
proof -
  assume "is_lower_hex c"
  then consider "is_ascii_digit c" | "\<not> is_ascii_digit c" "97 \<le> byte c" "byte c \<le> 102"
    by (auto simp: is_lower_hex_def)
  then show ?thesis
  proof cases
    case 1
    then have "hex_digit (byte c - 48) = c"
      by (auto simp: hex_digit_def is_ascii_digit_def)
    with 1 show ?thesis
      by (intro exI [of _ "byte c - 48"]) (auto simp: hex_value_def is_ascii_digit_def)
  next
    case 2
    then have "hex_digit (byte c - 87) = c"
      by (auto simp: hex_digit_def)
    with 2 show ?thesis
      by (intro exI [of _ "byte c - 87"]) (auto simp: hex_value_def)
  qed
qed

lemma hex_of_pairs: "list_all is_lower_hex t \<Longrightarrow> hex_pairs t = Some d \<Longrightarrow> hex d = t"
proof (induction t arbitrary: d rule: hex_pairs.induct)
  case 1
  then show ?case by (simp add: hex_def)
next
  case (2 a)
  then show ?case by simp
next
  case (3 a b t)
  from "3.prems" obtain x where x: "x < 16" "hex_value a = Some x" "hex_digit x = a"
    using lower_hex_value by fastforce
  from "3.prems" obtain y where y: "y < 16" "hex_value b = Some y" "hex_digit y = b"
    using lower_hex_value by fastforce
  have "u8_from_hex a b = Some (char_of (16 * x + y))"
    using x y hex_digit_not_plus [OF x(1)] by (simp add: u8_from_hex_def)
  with "3.prems" obtain d' where d': "hex_pairs t = Some d'" "d = char_of (16 * x + y) # d'"
    by auto
  have "hex d' = t" using "3.IH" "3.prems" d' \<open>u8_from_hex a b = _\<close> by simp
  moreover have "byte (char_of (16 * x + y)) = 16 * x + y" using x y by simp
  ultimately show ?case using d' x y by (simp add: hex_def hex_byte_def)
qed

lemma digest_from_hex_Some: "digest_from_hex t = Some d \<Longrightarrow> hex d = t \<and> length d = 32"
proof -
  assume a: "digest_from_hex t = Some d"
  then have "hex d = t" by (auto simp: digest_from_hex_def hex_of_pairs split: if_splits)
  moreover have "length t = 64" using a by (auto simp: digest_from_hex_def split: if_splits)
  ultimately show ?thesis using length_hex [of d] by simp
qed

text \<open>Reading a digest's text gives the digest back exactly for the texts \<open>hex\<close> writes: a
  string is accepted if and only if it is the lowercase hexadecimal form of 32 bytes, and then
  the digest returned is the one whose form it is.\<close>

theorem digest_from_hex_iff:
  "digest_from_hex t = Some d \<longleftrightarrow> length d = 32 \<and> hex d = t"
  using digest_from_hex_Some digest_from_hex_hex by metis

lemmas limits_evals [evals] =
  PACKAGE_NAMES_def fact_list_limit_def hex_digit_def hex_byte_def is_lower_hex_def
  hex_value_def u8_from_hex_def digest_from_hex_def

end
