(* ===== verification/Ordered_Map.thy ===== *)
theory Ordered_Map
  imports Prelude
begin

text \<open>
  Rust's \<open>BTreeMap\<close> as an association list sorted by key: \<open>bt_insert\<close> replaces, \<open>bt_remove\<close>
  deletes, \<open>bt_get\<close> reads, \<open>bt_keys\<close> and \<open>bt_values\<close> iterate in key order, and \<open>bt_collect\<close>
  is \<open>collect()\<close> from an iterator of pairs (a later pair replaces an earlier one). The locale
  \<open>ordered_map\<close> states the contract the components rely on; the lists satisfy it, and the
  facts clients use are proved once from the contract.
\<close>

section \<open>Operations\<close>

type_synonym ('k, 'v) btree_map = "('k \<times> 'v) list"

fun bt_insert :: "'k::linorder \<Rightarrow> 'v \<Rightarrow> ('k, 'v) btree_map \<Rightarrow> ('k, 'v) btree_map" where
  "bt_insert k v [] = [(k, v)]"
| "bt_insert k v ((k', v') # m) =
     (if k < k' then (k, v) # (k', v') # m
      else if k = k' then (k, v) # m
      else (k', v') # bt_insert k v m)"

definition bt_remove :: "'k::linorder \<Rightarrow> ('k, 'v) btree_map \<Rightarrow> ('k, 'v) btree_map" where
  "bt_remove k m = filter (\<lambda>(k', _). k' \<noteq> k) m"

definition bt_get :: "('k::linorder, 'v) btree_map \<Rightarrow> 'k \<Rightarrow> 'v option" where
  "bt_get m k = map_of m k"

definition bt_contains_key :: "('k::linorder, 'v) btree_map \<Rightarrow> 'k \<Rightarrow> bool" where
  "bt_contains_key m k \<longleftrightarrow> bt_get m k \<noteq> None"

definition bt_keys :: "('k, 'v) btree_map \<Rightarrow> 'k list" where
  "bt_keys m = map fst m"

definition bt_values :: "('k, 'v) btree_map \<Rightarrow> 'v list" where
  "bt_values m = map snd m"

definition bt_invar :: "('k::linorder, 'v) btree_map \<Rightarrow> bool" where
  "bt_invar m \<longleftrightarrow> sorted_wrt (<) (bt_keys m)"

definition bt_collect :: "('k::linorder \<times> 'v) list \<Rightarrow> ('k, 'v) btree_map" where
  "bt_collect ps = fold (\<lambda>(k, v) m. bt_insert k v m) ps []"

section \<open>The contract\<close>

locale ordered_map =
  fixes empty :: "'m"
    and update :: "'k::linorder \<Rightarrow> 'v \<Rightarrow> 'm \<Rightarrow> 'm"
    and delete :: "'k \<Rightarrow> 'm \<Rightarrow> 'm"
    and lookup :: "'m \<Rightarrow> 'k \<Rightarrow> 'v option"
    and keys :: "'m \<Rightarrow> 'k list"
    and invar :: "'m \<Rightarrow> bool"
  assumes lookup_empty: "lookup empty k = None"
    and lookup_update: "invar m \<Longrightarrow> lookup (update k v m) k' = (if k' = k then Some v else lookup m k')"
    and lookup_delete: "invar m \<Longrightarrow> lookup (delete k m) k' = (if k' = k then None else lookup m k')"
    and set_keys: "invar m \<Longrightarrow> k \<in> set (keys m) \<longleftrightarrow> lookup m k \<noteq> None"
    and sorted_keys: "invar m \<Longrightarrow> sorted_wrt (<) (keys m)"
    and invar_empty: "invar empty"
    and invar_update: "invar m \<Longrightarrow> invar (update k v m)"
    and invar_delete: "invar m \<Longrightarrow> invar (delete k m)"
begin

lemma distinct_keys: "invar m \<Longrightarrow> distinct (keys m)"
  using sorted_keys strict_sorted_iff by blast

lemma length_keys: "invar m \<Longrightarrow> length (keys m) = card {k. lookup m k \<noteq> None}"
proof -
  assume m: "invar m"
  then have "set (keys m) = {k. lookup m k \<noteq> None}"
    by (auto simp: set_keys)
  with distinct_keys [OF m] show ?thesis
    by (metis distinct_card)
qed

lemma lookup_same_keys:
  "invar m \<Longrightarrow> invar m' \<Longrightarrow> (\<And>k. lookup m k = lookup m' k) \<Longrightarrow> keys m = keys m'"
  by (metis sorted_keys set_keys set_eq_iff strict_sorted_equal)

lemma fold_update:
  "invar m \<Longrightarrow>
   invar (fold (\<lambda>(k, v) m. update k v m) ps m) \<and>
   lookup (fold (\<lambda>(k, v) m. update k v m) ps m) k =
     (case map_of (rev ps) k of Some v \<Rightarrow> Some v | None \<Rightarrow> lookup m k)"
proof (induction ps arbitrary: m)
  case Nil
  then show ?case by simp
next
  case (Cons p ps)
  obtain a b where p: "p = (a, b)" by (cases p)
  have "invar (update a b m)" using Cons.prems by (rule invar_update)
  from Cons.IH [OF this] Cons.prems p show ?case
    by (auto simp: lookup_update map_add_def split: option.splits)
qed

lemma finite_dom: "invar m \<Longrightarrow> finite {k. lookup m k \<noteq> None}"
  by (metis (mono_tags, lifting) Collect_cong List.finite_set mem_Collect_eq set_keys subsetI finite_subset)

lemma length_keys_update:
  "invar m \<Longrightarrow> length (keys (update k v m)) =
     (if lookup m k = None then Suc (length (keys m)) else length (keys m))"
proof -
  assume m: "invar m"
  have "{k'. lookup (update k v m) k' \<noteq> None} = insert k {k'. lookup m k' \<noteq> None}"
    using m by (auto simp: lookup_update)
  then show ?thesis
    using m finite_dom [OF m] by (simp add: length_keys invar_update card_insert_if)
qed

lemma length_keys_delete: "invar m \<Longrightarrow> length (keys (delete k m)) \<le> length (keys m)"
proof -
  assume m: "invar m"
  have "{k'. lookup (delete k m) k' \<noteq> None} \<subseteq> {k'. lookup m k' \<noteq> None}"
    using m by (auto simp: lookup_delete)
  then show ?thesis
    using m finite_dom [OF m] by (simp add: length_keys invar_delete card_mono)
qed

end

section \<open>Sorted association lists satisfy it\<close>

lemma set_keys_bt_insert: "set (bt_keys (bt_insert k v m)) = insert k (set (bt_keys m))"
  by (induction k v m rule: bt_insert.induct) (auto simp: bt_keys_def)

lemma bt_invar_insert: "bt_invar m \<Longrightarrow> bt_invar (bt_insert k v m)"
proof (induction k v m rule: bt_insert.induct)
  case (1 k v)
  then show ?case by (simp add: bt_invar_def bt_keys_def)
next
  case (2 k v k' v' m)
  from "2.prems" have m: "bt_invar m" and lt: "\<forall>x \<in> set (bt_keys m). k' < x"
    by (simp_all add: bt_invar_def bt_keys_def)
  show ?case
  proof (cases "k < k' \<or> k = k'")
    case True
    with m lt show ?thesis by (auto simp: bt_invar_def bt_keys_def)
  next
    case False
    then have k: "k' < k" by auto
    from False have "bt_invar (bt_insert k v m)" using "2.IH" m by blast
    moreover have "\<forall>x \<in> set (bt_keys (bt_insert k v m)). k' < x"
      using lt k by (simp add: set_keys_bt_insert)
    ultimately show ?thesis using False by (simp add: bt_invar_def bt_keys_def)
  qed
qed

lemma bt_get_insert: "bt_invar m \<Longrightarrow> bt_get (bt_insert k v m) k' = (if k' = k then Some v else bt_get m k')"
  by (induction k v m rule: bt_insert.induct) (auto simp: bt_get_def bt_invar_def bt_keys_def)

lemma bt_get_remove: "bt_get (bt_remove k m) k' = (if k' = k then None else bt_get m k')"
  by (induction m) (auto simp: bt_get_def bt_remove_def)

lemma bt_keys_remove: "bt_keys (bt_remove k m) = filter (\<lambda>k'. k' \<noteq> k) (bt_keys m)"
  by (induction m) (auto simp: bt_keys_def bt_remove_def)

lemma bt_invar_remove: "bt_invar m \<Longrightarrow> bt_invar (bt_remove k m)"
  unfolding bt_invar_def bt_keys_remove by (rule sorted_wrt_filter)

lemma set_bt_insert: "set (bt_insert k v m) \<subseteq> insert (k, v) (set m)"
  by (induction k v m rule: bt_insert.induct) auto

interpretation bt: ordered_map "[]" bt_insert bt_remove bt_get bt_keys bt_invar
proof unfold_locales
  show "bt_get [] k = None" for k by (simp add: bt_get_def)
  show "bt_invar []" by (simp add: bt_invar_def bt_keys_def)
  show "bt_invar m \<Longrightarrow> sorted_wrt (<) (bt_keys m)" for m by (simp add: bt_invar_def)
  show "k \<in> set (bt_keys m) \<longleftrightarrow> bt_get m k \<noteq> None" for k m
    by (force simp: bt_keys_def bt_get_def map_of_eq_None_iff)
qed (simp_all add: bt_get_insert bt_get_remove bt_invar_insert bt_invar_remove)

lemma bt_collect_invar [simp]: "bt_invar (bt_collect ps)"
  using bt.fold_update [OF bt.invar_empty, of ps] by (simp add: bt_collect_def)

lemma bt_get_collect: "bt_get (bt_collect ps) k = map_of (rev ps) k"
  using bt.fold_update [OF bt.invar_empty, of ps k]
  by (simp add: bt_collect_def bt.lookup_empty split: option.splits)

text \<open>Collecting a map's own entries gives the map back, and two maps with the same lookups are
  the same list.\<close>

lemma bt_map_eq:
  assumes m: "bt_invar m" and n: "bt_invar n" and same: "\<And>k. bt_get m k = bt_get n k"
  shows "m = n"
proof -
  have keys: "map fst m = map fst n"
    using bt.lookup_same_keys [OF m n same] by (simp add: bt_keys_def)
  have dist: "distinct (map fst m)" "distinct (map fst n)"
    using bt.distinct_keys [OF m] bt.distinct_keys [OF n] by (simp_all add: bt_keys_def)
  show ?thesis
  proof (rule nth_equalityI)
    show len: "length m = length n" using keys by (metis length_map)
    fix i assume i: "i < length m"
    then have "fst (m ! i) = fst (n ! i)" using keys len by (metis nth_map)
    moreover have "bt_get m (fst (m ! i)) = Some (snd (m ! i))"
      using i dist by (simp add: bt_get_def)
    moreover have "bt_get n (fst (n ! i)) = Some (snd (n ! i))"
      using i len dist by (simp add: bt_get_def)
    ultimately show "m ! i = n ! i" using same by (metis option.inject prod_eqI)
  qed
qed

lemma bt_collect_id: "bt_invar m \<Longrightarrow> bt_collect m = m"
proof -
  assume m: "bt_invar m"
  have "distinct (map fst m)" using bt.distinct_keys [OF m] by (simp add: bt_keys_def)
  then have "map_of (rev m) = map_of m"
    by (metis map_of_inject_set distinct_rev rev_map set_rev)
  then show ?thesis
    by (intro bt_map_eq) (simp_all add: m bt_get_collect bt_get_def [of m])
qed

lemma bt_get_in_set: "bt_get m k = Some v \<Longrightarrow> (k, v) \<in> set m"
  by (simp add: bt_get_def map_of_SomeD)

lemma bt_in_set_get: "bt_invar m \<Longrightarrow> (k, v) \<in> set m \<Longrightarrow> bt_get m k = Some v"
  using bt.distinct_keys [of m] by (simp add: bt_get_def bt_keys_def)

lemma bt_filter_invar: "bt_invar m \<Longrightarrow> bt_invar (filter P m)"
  by (induction m) (auto simp: bt_invar_def bt_keys_def)

lemma bt_get_filter:
  "bt_invar m \<Longrightarrow> bt_get (filter P m) k =
     (case bt_get m k of Some v \<Rightarrow> if P (k, v) then Some v else None | None \<Rightarrow> None)"
proof (induction m)
  case Nil
  then show ?case by (simp add: bt_get_def)
next
  case (Cons p m)
  then have "bt_invar m" and notin: "fst p \<notin> set (bt_keys m)"
    by (auto simp: bt_invar_def bt_keys_def)
  moreover have "map_of (filter P m) (fst p) = None"
    using notin by (auto simp: bt_keys_def map_of_eq_None_iff)
  ultimately show ?case
    using Cons.IH by (cases p) (auto simp: bt_get_def bt_keys_def map_of_eq_None_iff)
qed

lemma bt_keys_collect: "bt_keys (bt_collect ps) = sorted_list_of_set (fst ` set ps)"
proof -
  let ?m = "bt_collect ps"
  have inv: "sorted_wrt (<) (bt_keys ?m)" using bt_collect_invar [of ps] by (simp add: bt_invar_def)
  have "k \<in> set (bt_keys ?m) \<longleftrightarrow> k \<in> fst ` set ps" for k
    using bt.set_keys [of ?m k] bt_get_collect [of ps k] by (auto simp: map_of_eq_None_iff)
  then have "set (bt_keys ?m) = fst ` set ps" by blast
  with inv show ?thesis
    by (metis sorted_list_of_set.idem_if_sorted_distinct strict_sorted_iff)
qed

lemma bt_values_collect_fun:
  "bt_values (bt_collect (map (\<lambda>k. (k, f k)) ks)) = map f (sorted_list_of_set (set ks))"
proof -
  let ?m = "bt_collect (map (\<lambda>k. (k, f k)) ks)"
  have "snd p = f (fst p)" if "p \<in> set ?m" for p
  proof -
    obtain k v where p: "p = (k, v)" by (cases p)
    with that have "bt_get ?m k = Some v" by (simp add: bt_in_set_get)
    then have "map_of (rev (map (\<lambda>k. (k, f k)) ks)) k = Some v" by (simp add: bt_get_collect)
    then show ?thesis using p by (auto dest!: map_of_SomeD)
  qed
  then have "bt_values ?m = map f (bt_keys ?m)"
    by (simp add: bt_values_def bt_keys_def comp_def)
  then show ?thesis by (simp add: bt_keys_collect image_image)
qed

lemmas ordered_map_evals [evals] =
  bt_remove_def bt_get_def bt_contains_key_def bt_keys_def bt_values_def bt_collect_def

end
