(* ===== verification/Contracts.thy ===== *)
theory Contracts
  imports Limits Ordered_Map
begin

text \<open>
  The wire contracts and their validation: \<open>openvibes-core/src/contracts.rs\<close>, \<open>detection.rs\<close> and
  \<open>distribution.rs\<close>. Every \<open>Validate\<close> implementation is one function returning the first
  violated check in the order of the source. The size of a serialized explanation is decided by
  \<open>serde_json\<close>, so the functions that need it take \<open>jlen\<close>, the length of the compact JSON of a
  \<open>Detection\<close> (\<open>None\<close> when it does not serialize).
\<close>

section \<open>Identifiers, versions and errors\<close>

datatype schema_version = SchemaVersion (version_value: nat)

definition schema_V1 :: schema_version where
  "schema_V1 = SchemaVersion 1"

datatype ident = Identifier (as_str: string)

datatype validation_error = ValidationError (ve_field: string) (ve_message: string)

type_synonym validation = "(unit, validation_error) result"

instantiation ident :: linorder
begin

definition less_eq_ident :: "ident \<Rightarrow> ident \<Rightarrow> bool" where
  "less_eq_ident a b \<longleftrightarrow> as_str a \<le> as_str b"

definition less_ident :: "ident \<Rightarrow> ident \<Rightarrow> bool" where
  "less_ident a b \<longleftrightarrow> as_str a < as_str b"

instance
  by standard (auto simp: less_eq_ident_def less_ident_def ident.expand)

end

definition validate_version :: "schema_version \<Rightarrow> validation" where
  "validate_version v =
     require (v = schema_V1) (ValidationError ''schema_version'' ''unsupported schema version'')"

definition identifier_char :: "char \<Rightarrow> bool" where
  "identifier_char c \<longleftrightarrow> is_ascii_alphanumeric c \<or> c \<in> set ''._:-''"

definition validate_identifier :: "string \<Rightarrow> string \<Rightarrow> resource_limits \<Rightarrow> validation" where
  "validate_identifier field v l =
     (if v = [] \<or> length v > identifier_bytes l \<or> \<not> list_all identifier_char v
      then Err (ValidationError field
        ''must use 1-128 ASCII letters, digits, dots, underscores, colons, or hyphens'')
      else Ok ())"

definition identifier_new :: "string \<Rightarrow> (ident, validation_error) result" where
  "identifier_new v = rbind (validate_identifier ''identifier'' v V1) (\<lambda>_. Ok (Identifier v))"

definition validate_string :: "string \<Rightarrow> string \<Rightarrow> resource_limits \<Rightarrow> validation" where
  "validate_string field v l =
     (if v = [] \<or> length v > string_bytes l \<or> NUL \<in> set v
      then Err (ValidationError field
        ''must be non-empty, within the string limit, and free of U+0000'')
      else Ok ())"

definition validate_unix_ms :: "string \<Rightarrow> int \<Rightarrow> validation" where
  "validate_unix_ms field v =
     (if v < 0 then Err (ValidationError field ''must be a non-negative Unix timestamp in milliseconds'')
      else Ok ())"

definition validate_list_length :: "string \<Rightarrow> nat \<Rightarrow> resource_limits \<Rightarrow> validation" where
  "validate_list_length field n l =
     (if n > list_items l then Err (ValidationError field ''contains too many items'') else Ok ())"

definition validate_document_size :: "string \<Rightarrow> resource_limits \<Rightarrow> validation" where
  "validate_document_size doc l =
     (if length doc > document_bytes l
      then Err (ValidationError ''document'' ''exceeds the serialized document byte limit'')
      else Ok ())"

definition validate_sha256 :: "string \<Rightarrow> string \<Rightarrow> validation" where
  "validate_sha256 field v =
     (if digest_from_hex v \<noteq> None then Ok ()
      else Err (ValidationError field ''must be 64 lowercase hex digits''))"

datatype confidence = Confidence (confidence_value: nat)

definition confidence_new :: "nat \<Rightarrow> (confidence, validation_error) result" where
  "confidence_new v =
     (if v \<le> 100 then Ok (Confidence v)
      else Err (ValidationError ''confidence'' ''must be between 0 and 100''))"

datatype enrollment_token = EnrollmentToken (expose_secret: string)

definition enrollment_token_new :: "string \<Rightarrow> (enrollment_token, validation_error) result" where
  "enrollment_token_new v =
     (if v = [] \<or> length v > string_bytes V1
      then Err (ValidationError ''enrollment_token'' ''must be non-empty and within the string limit'')
      else Ok (EnrollmentToken v))"

section \<open>Facts\<close>

datatype fact_value =
    FBoolean bool
  | FInteger int
  | FString string
  | FStringList "string list"

record fact =
  fact_key :: ident
  fact_source :: ident
  fact_val :: fact_value

datatype collector_error_code =
  PermissionDenied | NotFound | TimedOut | InvalidData | Unsupported | Internal

record collector_error =
  ce_collector :: ident
  ce_code :: collector_error_code
  ce_message :: string
  ce_retryable :: bool

record fact_set =
  fs_schema_version :: schema_version
  fs_scan_id :: ident
  fs_collected_at_unix_ms :: int
  fs_facts :: "fact list"
  fs_errors :: "collector_error list"

text \<open>\<open>values.windows(2).any(|pair| pair[0] >= pair[1])\<close>\<close>

fun unsorted_pair :: "'a::linorder list \<Rightarrow> bool" where
  "unsorted_pair (x # y # r) \<longleftrightarrow> x \<ge> y \<or> unsorted_pair (y # r)"
| "unsorted_pair _ \<longleftrightarrow> False"

fun validate_strings :: "string \<Rightarrow> string list \<Rightarrow> resource_limits \<Rightarrow> validation" where
  "validate_strings field [] l = Ok ()"
| "validate_strings field (v # vs) l =
     rbind (validate_string field v l) (\<lambda>_. validate_strings field vs l)"

definition validate_fact :: "fact \<Rightarrow> resource_limits \<Rightarrow> validation" where
  "validate_fact f l =
     (case fact_val f of
        FString v \<Rightarrow>
          if length v > string_bytes l \<or> NUL \<in> set v
          then Err (ValidationError ''facts.value'' ''must be within the string limit and contain no NUL'')
          else Ok ()
      | FStringList vs \<Rightarrow>
          if length vs > fact_list_limit l (as_str (fact_key f))
          then Err (ValidationError ''facts.value'' ''contains too many values'')
          else if unsorted_pair vs
          then Err (ValidationError ''facts.value'' ''must be sorted by byte order without duplicates'')
          else validate_strings ''facts.value'' vs l
      | FBoolean _ \<Rightarrow> Ok ()
      | FInteger _ \<Rightarrow> Ok ())"

fun validate_facts :: "ident set \<Rightarrow> fact list \<Rightarrow> resource_limits \<Rightarrow> validation" where
  "validate_facts seen [] l = Ok ()"
| "validate_facts seen (f # fs) l =
     (if fact_key f \<in> seen
      then Err (ValidationError ''facts.key'' ''contains a duplicate fact key'')
      else rbind (validate_fact f l) (\<lambda>_. validate_facts (insert (fact_key f) seen) fs l))"

definition fact_set_validate :: "fact_set \<Rightarrow> resource_limits \<Rightarrow> validation" where
  "fact_set_validate s l = checks
     [validate_version (fs_schema_version s),
      validate_unix_ms ''collected_at_unix_ms'' (fs_collected_at_unix_ms s),
      require (length (fs_facts s) \<le> facts_per_scan l)
        (ValidationError ''facts'' ''contains too many facts''),
      validate_list_length ''errors'' (length (fs_errors s)) l,
      validate_facts {} (fs_facts s) l,
      validate_strings ''errors.message'' (map ce_message (fs_errors s)) l]"

section \<open>Rules\<close>

datatype severity = Info | Low | Medium | High | Critical

datatype rule_kind = Snapshot | ProcessEventKind

record attack_ref =
  ar_tactic :: string
  ar_technique :: "string option"

definition digits :: "string \<Rightarrow> nat \<Rightarrow> bool" where
  "digits s n \<longleftrightarrow> length s = n \<and> list_all is_ascii_digit s"

text \<open>\<open>split_once('.')\<close>: the parts around the first dot.\<close>

definition split_once :: "char \<Rightarrow> string \<Rightarrow> (string \<times> string) option" where
  "split_once c s = map_option (\<lambda>i. (take i s, drop (Suc i) s)) (find_byte (\<lambda>x. x = c) s)"

definition attack_ref_is_valid :: "attack_ref \<Rightarrow> bool" where
  "attack_ref_is_valid r \<longleftrightarrow>
     (case strip_prefix ''TA'' (ar_tactic r) of None \<Rightarrow> False | Some d \<Rightarrow> digits d 4) \<and>
     (case ar_technique r of
        None \<Rightarrow> True
      | Some t \<Rightarrow>
          (case strip_prefix ''T'' t of
             None \<Rightarrow> False
           | Some rest \<Rightarrow>
               (case split_once CHR ''.'' rest of
                  Some (base, sub) \<Rightarrow> digits base 4 \<and> digits sub 3
                | None \<Rightarrow> digits rest 4)))"

record rule =
  rule_id :: ident
  rule_version :: nat
  rule_title :: string
  rule_severity :: severity
  rule_confidence :: confidence
  rule_expression :: string
  rule_finding_message :: string
  rule_kind_of :: rule_kind
  rule_programs :: "string list option"
  rule_attack :: "attack_ref list option"

record rule_set =
  rs_schema_version :: schema_version
  rs_rules :: "rule list"

fun attack_pairs_ok :: "attack_ref set \<Rightarrow> attack_ref list \<Rightarrow> bool" where
  "attack_pairs_ok seen [] \<longleftrightarrow> True"
| "attack_pairs_ok seen (p # ps) \<longleftrightarrow>
     attack_ref_is_valid p \<and> p \<notin> seen \<and> attack_pairs_ok (insert p seen) ps"

definition validate_rule_programs :: "rule \<Rightarrow> resource_limits \<Rightarrow> validation" where
  "validate_rule_programs r l =
     (case (rule_kind_of r, rule_programs r) of
        (Snapshot, Some _) \<Rightarrow>
          Err (ValidationError ''rules.programs'' ''only process_event rules may name programs'')
      | (ProcessEventKind, Some programs) \<Rightarrow>
          if programs = [] \<or> length programs > 64
          then Err (ValidationError ''rules.programs'' ''must hold 1 to 64 entries'')
          else validate_strings ''rules.programs'' programs l
      | (_, None) \<Rightarrow> Ok ())"

definition validate_rule_attack :: "rule \<Rightarrow> validation" where
  "validate_rule_attack r =
     (case rule_attack r of
        None \<Rightarrow> Ok ()
      | Some attack \<Rightarrow>
          if attack = [] \<or> length attack > 16 \<or> \<not> attack_pairs_ok {} attack
          then Err (ValidationError ''rules.attack'' ''must hold 1 to 16 distinct, well-formed ATT&CK pairs'')
          else Ok ())"

fun validate_rules :: "ident set \<Rightarrow> rule list \<Rightarrow> resource_limits \<Rightarrow> validation" where
  "validate_rules seen [] l = Ok ()"
| "validate_rules seen (r # rs) l =
     rbind (checks
       [validate_identifier ''rules.id'' (as_str (rule_id r)) l,
        require (rule_id r \<notin> seen)
          (ValidationError ''rules.id'' ''contains a duplicate rule identifier''),
        require (rule_version r \<noteq> 0) (ValidationError ''rules.version'' ''must be positive''),
        validate_string ''rules.title'' (rule_title r) l,
        validate_string ''rules.finding_message'' (rule_finding_message r) l,
        require (rule_expression r \<noteq> [] \<and> length (rule_expression r) \<le> expression_bytes l)
          (ValidationError ''rules.expression'' ''must be non-empty and within the expression limit''),
        validate_rule_programs r l,
        validate_rule_attack r])
     (\<lambda>_. validate_rules (insert (rule_id r) seen) rs l)"

definition rule_set_validate :: "rule_set \<Rightarrow> resource_limits \<Rightarrow> validation" where
  "rule_set_validate s l = checks
     [validate_version (rs_schema_version s),
      require (rs_rules s \<noteq> [] \<and> length (rs_rules s) \<le> rules_per_set l)
        (ValidationError ''rules'' ''must contain a bounded, non-empty rule list''),
      validate_rules {} (rs_rules s) l]"

section \<open>Signed envelopes\<close>

datatype payload_encoding = Json | Yaml

record signed_rule_envelope =
  env_schema_version :: schema_version
  env_rule_set_id :: ident
  env_rule_set_version :: nat
  env_issuer_key_id :: ident
  env_created_at_unix_ms :: int
  env_expires_at_unix_ms :: int
  env_payload_encoding :: payload_encoding
  env_payload :: string
  env_payload_sha256_hex :: string
  env_signature_base64url :: string

definition envelope_validate_unsigned :: "signed_rule_envelope \<Rightarrow> resource_limits \<Rightarrow> validation" where
  "envelope_validate_unsigned e l = checks
     [validate_version (env_schema_version e),
      validate_identifier ''rule_set_id'' (as_str (env_rule_set_id e)) l,
      validate_identifier ''issuer_key_id'' (as_str (env_issuer_key_id e)) l,
      require (env_rule_set_version e \<noteq> 0) (ValidationError ''rule_set_version'' ''must be positive''),
      require (\<not> (env_created_at_unix_ms e < 0 \<or>
                  env_expires_at_unix_ms e \<le> env_created_at_unix_ms e))
        (ValidationError ''expires_at_unix_ms'' ''must be later than created_at_unix_ms''),
      require (env_payload e \<noteq> [] \<and> length (env_payload e) \<le> document_bytes l)
        (ValidationError ''payload'' ''must be non-empty and within the document limit''),
      require (length (env_payload_sha256_hex e) = 64 \<and>
               list_all is_lower_hex (env_payload_sha256_hex e))
        (ValidationError ''payload_sha256_hex'' ''must be 64 lowercase hexadecimal characters'')]"

definition base64url_char :: "char \<Rightarrow> bool" where
  "base64url_char c \<longleftrightarrow> is_ascii_alphanumeric c \<or> c = CHR ''-'' \<or> c = CHR ''_''"

definition envelope_validate :: "signed_rule_envelope \<Rightarrow> resource_limits \<Rightarrow> validation" where
  "envelope_validate e l = checks
     [envelope_validate_unsigned e l,
      require (length (env_signature_base64url e) = 86 \<and>
               list_all base64url_char (env_signature_base64url e))
        (ValidationError ''signature_base64url''
           ''must encode a 64-byte Ed25519 signature as unpadded base64url'')]"

section \<open>Explanations and findings\<close>

definition DETECTION_BYTES :: nat where "DETECTION_BYTES = 8192"

datatype detection_value = DBoolean bool | DInteger int | DString string

datatype detection_status = Complete | Masked | Summarized | Truncated

record detection_input =
  di_key :: ident
  di_status :: detection_status
  di_value :: "detection_value option"
  di_item_count :: "nat option"

record detection_step =
  ds_expression :: string
  ds_result :: bool

record detection =
  det_observed_at_unix_ms :: int
  det_rule_set_version :: nat
  det_preimage_sha256 :: string
  det_inputs :: "detection_input list"
  det_steps :: "detection_step list"
  det_truncated :: bool

definition detection_invalid :: validation_error where
  "detection_invalid = ValidationError ''detection'' ''invalid or over limit''"

definition detection_text_ok :: "detection_input \<Rightarrow> bool" where
  "detection_text_ok i \<longleftrightarrow>
     (case di_value i of
        Some (DString v) \<Rightarrow> length v \<le> 256 \<and> NUL \<notin> set v
      | _ \<Rightarrow> True)"

definition detection_shape_ok :: "detection_input \<Rightarrow> bool" where
  "detection_shape_ok i \<longleftrightarrow>
     (case di_status i of
        Complete \<Rightarrow> di_value i \<noteq> None \<and> di_item_count i = None
      | Truncated \<Rightarrow> (case di_value i of Some (DString _) \<Rightarrow> True | _ \<Rightarrow> False) \<and> di_item_count i = None
      | Masked \<Rightarrow> di_value i = None \<and> di_item_count i = None
      | Summarized \<Rightarrow> di_value i = None \<and>
          (case di_item_count i of Some n \<Rightarrow> n \<le> 50000 | None \<Rightarrow> False))"

fun validate_detection_inputs :: "string set \<Rightarrow> detection_input list \<Rightarrow> validation" where
  "validate_detection_inputs keys [] = Ok ()"
| "validate_detection_inputs keys (i # is) =
     (if as_str (di_key i) \<in> keys then Err detection_invalid
      else if \<not> detection_text_ok i \<or> \<not> detection_shape_ok i then Err detection_invalid
      else validate_detection_inputs (insert (as_str (di_key i)) keys) is)"

definition detection_step_ok :: "detection_step \<Rightarrow> bool" where
  "detection_step_ok s \<longleftrightarrow>
     ds_expression s \<noteq> [] \<and> length (ds_expression s) \<le> 512 \<and> NUL \<notin> set (ds_expression s)"

definition detection_validate :: "(detection \<Rightarrow> nat option) \<Rightarrow> detection \<Rightarrow> validation" where
  "detection_validate jlen d = checks
     [require (\<not> (det_observed_at_unix_ms d < 0 \<or> det_rule_set_version d = 0 \<or>
                  digest_from_hex (det_preimage_sha256 d) = None \<or>
                  length (det_inputs d) > 32 \<or> length (det_steps d) > 32)) detection_invalid,
      validate_detection_inputs {} (det_inputs d),
      require (list_all detection_step_ok (det_steps d)) detection_invalid,
      (case jlen d of
         None \<Rightarrow> Err detection_invalid
       | Some n \<Rightarrow> require (n \<le> DETECTION_BYTES) detection_invalid)]"

record finding =
  fd_detection :: "detection option"
  fd_schema_version :: schema_version
  fd_finding_id :: ident
  fd_scan_id :: ident
  fd_rule_set_id :: "ident option"
  fd_rule_id :: ident
  fd_rule_version :: nat
  fd_observed_at_unix_ms :: int
  fd_severity :: severity
  fd_confidence :: confidence
  fd_message :: string
  fd_evidence :: "ident list"

definition finding_validate ::
  "(detection \<Rightarrow> nat option) \<Rightarrow> finding \<Rightarrow> resource_limits \<Rightarrow> validation" where
  "finding_validate jlen f l = checks
     [(case fd_detection f of None \<Rightarrow> Ok () | Some d \<Rightarrow> detection_validate jlen d),
      validate_version (fd_schema_version f),
      require (fd_rule_version f \<noteq> 0) (ValidationError ''rule_version'' ''must be positive''),
      validate_unix_ms ''observed_at_unix_ms'' (fd_observed_at_unix_ms f),
      validate_string ''message'' (fd_message f) l,
      require (length (fd_evidence f) \<le> evidence_per_finding l)
        (ValidationError ''evidence'' ''contains too many evidence references'')]"

section \<open>Delivery and enrollment documents\<close>

record finding_batch =
  fb_schema_version :: schema_version
  fb_findings :: "finding list"

definition finding_batch_validate ::
  "(detection \<Rightarrow> nat option) \<Rightarrow> finding_batch \<Rightarrow> resource_limits \<Rightarrow> validation" where
  "finding_batch_validate jlen b l = checks
     ([validate_version (fb_schema_version b),
       require (fb_findings b \<noteq> [] \<and> length (fb_findings b) \<le> delivery_batch_items l)
         (ValidationError ''findings'' ''must contain between one and one delivery batch of findings'')]
      @ map (\<lambda>f. finding_validate jlen f l) (fb_findings b))"

record rejected_finding =
  rj_finding_id :: ident
  rj_reason :: ident

record delivery_acknowledgement =
  ack_schema_version :: schema_version
  ack_accepted_finding_ids :: "ident list"
  ack_rejected_findings :: "rejected_finding list"
  ack_acknowledged_at_unix_ms :: int

definition acknowledgement_validate :: "delivery_acknowledgement \<Rightarrow> resource_limits \<Rightarrow> validation" where
  "acknowledgement_validate a l = checks
     [validate_version (ack_schema_version a),
      validate_unix_ms ''acknowledged_at_unix_ms'' (ack_acknowledged_at_unix_ms a),
      require (\<not> (length (ack_accepted_finding_ids a) > delivery_batch_items l \<or>
                  length (ack_rejected_findings a) > delivery_batch_items l))
        (ValidationError ''accepted_finding_ids'' ''contains more identifiers than one delivery batch''),
      require (list_all (\<lambda>r. rj_finding_id r \<in> set (ack_accepted_finding_ids a))
                 (ack_rejected_findings a))
        (ValidationError ''rejected_findings'' ''names a finding that is not acknowledged'')]"

record enrollment_request =
  er_schema_version :: schema_version
  er_token :: enrollment_token
  er_csr_pem :: string

record renewal_request =
  rr_schema_version :: schema_version
  rr_csr_pem :: string

record enrollment_response =
  eres_schema_version :: schema_version
  eres_agent_id :: ident
  eres_certificate_chain_pem :: "string list"
  eres_expires_at_unix_ms :: int

datatype platform_error_code = IdentityRevoked | InventoryResync | FindingsResync

record platform_error =
  pe_schema_version :: schema_version
  pe_code :: platform_error_code

definition enrollment_request_validate :: "enrollment_request \<Rightarrow> resource_limits \<Rightarrow> validation" where
  "enrollment_request_validate r l = checks
     [validate_version (er_schema_version r), validate_string ''csr_pem'' (er_csr_pem r) l]"

definition renewal_request_validate :: "renewal_request \<Rightarrow> resource_limits \<Rightarrow> validation" where
  "renewal_request_validate r l = checks
     [validate_version (rr_schema_version r), validate_string ''csr_pem'' (rr_csr_pem r) l]"

definition platform_error_validate :: "platform_error \<Rightarrow> resource_limits \<Rightarrow> validation" where
  "platform_error_validate e _ = validate_version (pe_schema_version e)"

definition enrollment_response_validate :: "enrollment_response \<Rightarrow> resource_limits \<Rightarrow> validation" where
  "enrollment_response_validate r l = checks
     [validate_version (eres_schema_version r),
      validate_unix_ms ''expires_at_unix_ms'' (eres_expires_at_unix_ms r),
      validate_list_length ''certificate_chain_pem'' (length (eres_certificate_chain_pem r)) l,
      require (eres_certificate_chain_pem r \<noteq> [])
        (ValidationError ''certificate_chain_pem'' ''must contain at least the leaf certificate''),
      validate_strings ''certificate_chain_pem'' (eres_certificate_chain_pem r) l]"

record rule_bundle_request =
  rbr_schema_version :: schema_version
  rbr_rule_set_id :: ident
  rbr_current_version :: "nat option"

definition rule_bundle_request_validate :: "rule_bundle_request \<Rightarrow> validation" where
  "rule_bundle_request_validate r = checks
     [validate_version (rbr_schema_version r),
      require (rbr_current_version r \<noteq> Some 0)
        (ValidationError ''current_version'' ''must be a positive version'')]"

section \<open>Loops over keyed lists\<close>

text \<open>Several validators walk a list with a set of the keys seen so far and refuse a repeated key.
  The locale holds what such a loop promises: the list is accepted exactly when its keys are
  distinct and new and every item passes its own check.\<close>

locale keyed_validation =
  fixes loop :: "'k set \<Rightarrow> 'a list \<Rightarrow> bool"
    and key :: "'a \<Rightarrow> 'k"
    and item_ok :: "'a \<Rightarrow> bool"
  assumes loop_Nil: "loop seen []"
    and loop_Cons: "loop seen (x # xs) \<longleftrightarrow> key x \<notin> seen \<and> item_ok x \<and> loop (insert (key x) seen) xs"
begin

lemma accepts_iff:
  "loop seen xs \<longleftrightarrow>
   distinct (map key xs) \<and> key ` set xs \<inter> seen = {} \<and> (\<forall>x \<in> set xs. item_ok x)"
  by (induction xs arbitrary: seen) (auto simp: loop_Nil loop_Cons)

lemma accepts_empty_iff:
  "loop {} xs \<longleftrightarrow> distinct (map key xs) \<and> (\<forall>x \<in> set xs. item_ok x)"
  by (simp add: accepts_iff)

end

interpretation facts_loop: keyed_validation
  "\<lambda>seen fs. validate_facts seen fs l = Ok ()" fact_key "\<lambda>f. validate_fact f l = Ok ()" for l
  by unfold_locales (auto simp: rbind_Ok_iff)

interpretation attack_loop: keyed_validation attack_pairs_ok "\<lambda>p. p" attack_ref_is_valid
  by unfold_locales auto

interpretation detection_loop: keyed_validation
  "\<lambda>keys is. validate_detection_inputs keys is = Ok ()" "\<lambda>i. as_str (di_key i)"
  "\<lambda>i. detection_text_ok i \<and> detection_shape_ok i"
  by unfold_locales auto

definition rule_ok :: "resource_limits \<Rightarrow> rule \<Rightarrow> bool" where
  "rule_ok l r \<longleftrightarrow>
     validate_identifier ''rules.id'' (as_str (rule_id r)) l = Ok () \<and>
     rule_version r \<noteq> 0 \<and>
     validate_string ''rules.title'' (rule_title r) l = Ok () \<and>
     validate_string ''rules.finding_message'' (rule_finding_message r) l = Ok () \<and>
     rule_expression r \<noteq> [] \<and> length (rule_expression r) \<le> expression_bytes l \<and>
     validate_rule_programs r l = Ok () \<and> validate_rule_attack r = Ok ()"

interpretation rules_loop: keyed_validation
  "\<lambda>seen rs. validate_rules seen rs l = Ok ()" rule_id "rule_ok l" for l
  by unfold_locales (auto simp: rbind_Ok_iff rule_ok_def)

section \<open>What a validated document satisfies\<close>

lemma unsorted_pair_iff: "unsorted_pair xs \<longleftrightarrow> \<not> sorted_wrt (<) xs"
proof (induction xs rule: unsorted_pair.induct)
  case (1 x y r)
  then show ?case by (auto simp: not_le dest: less_trans) (meson leD order_less_trans)
qed auto

lemma validate_strings_Ok_iff:
  "validate_strings field vs l = Ok () \<longleftrightarrow> (\<forall>v \<in> set vs. validate_string field v l = Ok ())"
  by (induction vs) (auto simp: rbind_Ok_iff)

lemma validate_string_Ok_iff:
  "validate_string field v l = Ok () \<longleftrightarrow> v \<noteq> [] \<and> length v \<le> string_bytes l \<and> NUL \<notin> set v"
  by (auto simp: validate_string_def)

lemma validate_identifier_Ok_iff:
  "validate_identifier field v l = Ok () \<longleftrightarrow>
   v \<noteq> [] \<and> length v \<le> identifier_bytes l \<and> list_all identifier_char v"
  by (auto simp: validate_identifier_def)

lemma validate_unix_ms_Ok_iff: "validate_unix_ms field t = Ok () \<longleftrightarrow> 0 \<le> t"
  by (auto simp: validate_unix_ms_def)

lemma identifier_new_Ok_iff:
  "identifier_new v = Ok i \<longleftrightarrow>
   i = Identifier v \<and> v \<noteq> [] \<and> length v \<le> 128 \<and> list_all identifier_char v"
  by (auto simp: identifier_new_def rbind_Ok_iff validate_identifier_Ok_iff)

lemma fact_set_validate_Ok_iff:
  "fact_set_validate s l = Ok () \<longleftrightarrow>
   fs_schema_version s = schema_V1 \<and> 0 \<le> fs_collected_at_unix_ms s \<and>
   length (fs_facts s) \<le> facts_per_scan l \<and> length (fs_errors s) \<le> list_items l \<and>
   distinct (map fact_key (fs_facts s)) \<and> (\<forall>f \<in> set (fs_facts s). validate_fact f l = Ok ()) \<and>
   (\<forall>e \<in> set (fs_errors s). validate_string ''errors.message'' (ce_message e) l = Ok ())"
  by (auto simp: fact_set_validate_def facts_loop.accepts_empty_iff validate_version_def
      validate_unix_ms_Ok_iff validate_list_length_def validate_strings_Ok_iff)

text \<open>A valid string-list fact is strictly sorted, which the binary search of the rules relies on.\<close>

lemma validate_fact_sorted:
  "validate_fact f l = Ok () \<Longrightarrow> fact_val f = FStringList vs \<Longrightarrow> sorted_wrt (<) vs"
  by (auto simp: validate_fact_def unsorted_pair_iff split: if_splits)

lemma rule_set_validate_Ok_iff:
  "rule_set_validate s l = Ok () \<longleftrightarrow>
   rs_schema_version s = schema_V1 \<and> rs_rules s \<noteq> [] \<and> length (rs_rules s) \<le> rules_per_set l \<and>
   distinct (map rule_id (rs_rules s)) \<and> (\<forall>r \<in> set (rs_rules s). rule_ok l r)"
  by (auto simp: rule_set_validate_def rules_loop.accepts_empty_iff validate_version_def)

lemma validate_rule_programs_Ok_iff:
  "validate_rule_programs r l = Ok () \<longleftrightarrow>
   (case rule_programs r of
      None \<Rightarrow> True
    | Some ps \<Rightarrow> rule_kind_of r = ProcessEventKind \<and> ps \<noteq> [] \<and> length ps \<le> 64 \<and>
        (\<forall>p \<in> set ps. p \<noteq> [] \<and> length p \<le> string_bytes l \<and> NUL \<notin> set p))"
  by (auto simp: validate_rule_programs_def validate_strings_Ok_iff validate_string_Ok_iff
      split: rule_kind.splits option.splits)

lemma envelope_validate_unsigned_Ok_iff:
  "envelope_validate_unsigned e l = Ok () \<longleftrightarrow>
   env_schema_version e = schema_V1 \<and>
   validate_identifier ''rule_set_id'' (as_str (env_rule_set_id e)) l = Ok () \<and>
   validate_identifier ''issuer_key_id'' (as_str (env_issuer_key_id e)) l = Ok () \<and>
   env_rule_set_version e \<noteq> 0 \<and> 0 \<le> env_created_at_unix_ms e \<and>
   env_created_at_unix_ms e < env_expires_at_unix_ms e \<and>
   env_payload e \<noteq> [] \<and> length (env_payload e) \<le> document_bytes l \<and>
   length (env_payload_sha256_hex e) = 64 \<and> list_all is_lower_hex (env_payload_sha256_hex e)"
  by (auto simp: envelope_validate_unsigned_def validate_version_def)

lemma detection_validate_Ok_iff:
  "detection_validate jlen d = Ok () \<longleftrightarrow>
   0 \<le> det_observed_at_unix_ms d \<and> det_rule_set_version d \<noteq> 0 \<and>
   digest_from_hex (det_preimage_sha256 d) \<noteq> None \<and>
   length (det_inputs d) \<le> 32 \<and> length (det_steps d) \<le> 32 \<and>
   distinct (map (\<lambda>i. as_str (di_key i)) (det_inputs d)) \<and>
   (\<forall>i \<in> set (det_inputs d). detection_text_ok i \<and> detection_shape_ok i) \<and>
   list_all detection_step_ok (det_steps d) \<and>
   (\<exists>n. jlen d = Some n \<and> n \<le> DETECTION_BYTES)"
  by (auto simp: detection_validate_def detection_loop.accepts_empty_iff split: option.splits)

text \<open>The rule-set validator accepts exactly the rule sets of the contract: version 1, one to
  \<open>rules_per_set\<close> rules with distinct identifiers, every rule with a positive version, bounded
  texts without NUL, a bounded non-empty expression, a program list only on process-event rules
  (1 to 64 non-empty names), and 1 to 16 distinct well-formed ATT\<^verbatim>\<open>&\<close>CK pairs when it has any.\<close>

theorem rule_set_validate_spec:
  "rule_set_validate s l = Ok () \<longleftrightarrow>
   rs_schema_version s = SchemaVersion 1 \<and>
   1 \<le> length (rs_rules s) \<and> length (rs_rules s) \<le> rules_per_set l \<and>
   distinct (map rule_id (rs_rules s)) \<and>
   (\<forall>r \<in> set (rs_rules s).
      as_str (rule_id r) \<noteq> [] \<and> length (as_str (rule_id r)) \<le> identifier_bytes l \<and>
      list_all identifier_char (as_str (rule_id r)) \<and> 0 < rule_version r \<and>
      rule_title r \<noteq> [] \<and> length (rule_title r) \<le> string_bytes l \<and> NUL \<notin> set (rule_title r) \<and>
      rule_finding_message r \<noteq> [] \<and> length (rule_finding_message r) \<le> string_bytes l \<and>
      NUL \<notin> set (rule_finding_message r) \<and>
      rule_expression r \<noteq> [] \<and> length (rule_expression r) \<le> expression_bytes l \<and>
      (case rule_programs r of
         None \<Rightarrow> True
       | Some ps \<Rightarrow> rule_kind_of r = ProcessEventKind \<and> ps \<noteq> [] \<and> length ps \<le> 64 \<and>
           (\<forall>p \<in> set ps. p \<noteq> [] \<and> length p \<le> string_bytes l \<and> NUL \<notin> set p)) \<and>
      (case rule_attack r of
         None \<Rightarrow> True
       | Some ps \<Rightarrow> ps \<noteq> [] \<and> length ps \<le> 16 \<and> distinct ps \<and> (\<forall>p \<in> set ps. attack_ref_is_valid p)))"
proof -
  have attack: "validate_rule_attack r = Ok () \<longleftrightarrow>
      (case rule_attack r of
         None \<Rightarrow> True
       | Some ps \<Rightarrow> ps \<noteq> [] \<and> length ps \<le> 16 \<and> distinct ps \<and> (\<forall>p \<in> set ps. attack_ref_is_valid p))"
    for r
    by (auto simp: validate_rule_attack_def attack_loop.accepts_empty_iff split: option.splits)
  have "rule_ok l r \<longleftrightarrow> as_str (rule_id r) \<noteq> [] \<and> length (as_str (rule_id r)) \<le> identifier_bytes l \<and>
      list_all identifier_char (as_str (rule_id r)) \<and> 0 < rule_version r \<and>
      rule_title r \<noteq> [] \<and> length (rule_title r) \<le> string_bytes l \<and> NUL \<notin> set (rule_title r) \<and>
      rule_finding_message r \<noteq> [] \<and> length (rule_finding_message r) \<le> string_bytes l \<and>
      NUL \<notin> set (rule_finding_message r) \<and>
      rule_expression r \<noteq> [] \<and> length (rule_expression r) \<le> expression_bytes l \<and>
      validate_rule_programs r l = Ok () \<and> validate_rule_attack r = Ok ()" for r
    by (auto simp: rule_ok_def validate_identifier_Ok_iff validate_string_Ok_iff)
  then show ?thesis
    by (simp add: rule_set_validate_Ok_iff schema_V1_def attack validate_rule_programs_Ok_iff
        Suc_le_eq)
qed

lemmas contracts_evals [evals] =
  schema_V1_def less_eq_ident_def less_ident_def validate_version_def identifier_char_def
  validate_identifier_def identifier_new_def validate_string_def validate_unix_ms_def
  validate_list_length_def validate_document_size_def validate_sha256_def confidence_new_def
  enrollment_token_new_def validate_fact_def fact_set_validate_def digits_def split_once_def
  attack_ref_is_valid_def validate_rule_programs_def validate_rule_attack_def
  rule_set_validate_def envelope_validate_unsigned_def base64url_char_def envelope_validate_def
  DETECTION_BYTES_def detection_invalid_def detection_text_ok_def detection_shape_ok_def
  detection_step_ok_def detection_validate_def finding_validate_def finding_batch_validate_def
  acknowledgement_validate_def enrollment_request_validate_def renewal_request_validate_def
  platform_error_validate_def enrollment_response_validate_def rule_bundle_request_validate_def

end
