(* ===== verification/Rule_Syntax.thy ===== *)
theory Rule_Syntax
  imports Contracts
begin

text \<open>
  The vocabulary of the rules crate: evaluation errors (\<open>evaluation.rs\<close>), the CEL syntax tree as
  far as the source matches on it, value types and values (\<open>subset.rs\<close>), the method-call shape
  check, the \<open>Bindings\<close> trait as a record of functions, verified bundles (\<open>loader.rs\<close>) and the
  operation meter (\<open>evaluation.rs\<close>, \<open>Meter\<close>).

  The tree comes from the \<open>cel\<close> crate. The constructors the source names are kept; every other
  kind of expression or literal is \<open>EOther\<close> or \<open>LOther\<close>, and a function name is one of the
  operator constants the source compares with or any other name.
\<close>

section \<open>Errors\<close>

datatype evaluation_error =
    InvalidLimits | InvalidFacts | FactBudgetExceeded | InvalidClock | BundleNotValid
  | InvalidExpression | UnsupportedExpression | ExpressionLimit | DepthLimit | OperationLimit
  | DeadlineExceeded | TypeMismatch | NonBoolean | UnavailableFact | EvidenceLimit | Restricted

section \<open>Expressions, types and values\<close>

datatype func =
    OpIndex | OpNot | OpNegate | OpAnd | OpOr | OpEquals | OpNotEquals
  | OpLess | OpLessEquals | OpGreater | OpGreaterEquals | OpIn
  | Named string

datatype literal = LBool bool | LInt int | LString string | LOther

datatype expr =
    EIdent string
  | ELiteral literal
  | ECall "expr option" func "expr list"
  | EOther

datatype ty = TBool | TInt | TString | TStrings

datatype val = VBool bool | VInt int | VString string | VStrings "string list"

definition METHODS :: "string list" where
  "METHODS = [''startsWith'', ''endsWith'', ''contains'']"

definition LITERAL_BYTES :: nat where
  "LITERAL_BYTES = 256"

text \<open>One operation per started 64 bytes of the receiver, at least one.\<close>

definition method_cost :: "nat \<Rightarrow> nat" where
  "method_cost n = max ((n + 63) div 64) 1"

definition is_method :: "func \<Rightarrow> bool" where
  "is_method f \<longleftrightarrow> (case f of Named n \<Rightarrow> n \<in> set METHODS | _ \<Rightarrow> False)"

definition method_call ::
  "expr option \<Rightarrow> func \<Rightarrow> expr list \<Rightarrow> (expr \<times> string, evaluation_error) result" where
  "method_call target f args =
     (case (target, args) of
        (Some t, [ELiteral (LString lit)]) \<Rightarrow>
          if is_method f \<and> length lit \<le> LITERAL_BYTES then Ok (t, lit)
          else Err UnsupportedExpression
      | _ \<Rightarrow> Err UnsupportedExpression)"

fun check_method_shapes :: "expr \<Rightarrow> (unit, evaluation_error) result"
  and check_method_shapes_all :: "expr list \<Rightarrow> (unit, evaluation_error) result" where
  "check_method_shapes (ECall target f args) =
     rbind (if target \<noteq> None then rbind (method_call target f args) (\<lambda>_. Ok ()) else Ok ())
       (\<lambda>_. rbind (case target of Some t \<Rightarrow> check_method_shapes t | None \<Rightarrow> Ok ())
         (\<lambda>_. check_method_shapes_all args))"
| "check_method_shapes (EIdent _) = Ok ()"
| "check_method_shapes (ELiteral _) = Ok ()"
| "check_method_shapes EOther = Ok ()"
| "check_method_shapes_all [] = Ok ()"
| "check_method_shapes_all (a # as) =
     rbind (check_method_shapes a) (\<lambda>_. check_method_shapes_all as)"

text \<open>\<open>NAME['literal key']\<close> gives the key.\<close>

definition binding_key :: "expr \<Rightarrow> string \<Rightarrow> string option" where
  "binding_key e binding =
     (case e of
        ECall None OpIndex [EIdent name, ELiteral (LString key)] \<Rightarrow>
          if name = binding then Some key else None
      | _ \<Rightarrow> None)"

text \<open>The \<open>Bindings\<close> trait: what an expression may index.\<close>

record bindings =
  b_name :: string
  b_type_of :: "string \<Rightarrow> (ty, evaluation_error) result"
  b_value :: "string \<Rightarrow> (val, evaluation_error) result"
  b_evidence :: "string \<Rightarrow> ident option"

section \<open>Verified bundles\<close>

record accepted_version =
  av_rule_set_id :: ident
  av_version :: nat
  av_preimage_sha256 :: string

record verified_rule_set =
  vr_rules :: rule_set
  vr_accepted :: accepted_version
  vr_issuer_key_id :: ident
  vr_created_at_unix_ms :: int
  vr_expires_at_unix_ms :: int

definition check_validity :: "verified_rule_set \<Rightarrow> int \<Rightarrow> (unit, evaluation_error) result" where
  "check_validity b now =
     (if now < 0 then Err InvalidClock
      else if now < vr_created_at_unix_ms b \<or> now \<ge> vr_expires_at_unix_ms b then Err BundleNotValid
      else Ok ())"

section \<open>The meter\<close>

text \<open>A host clock is the sequence of its readings: reading \<open>i\<close> is the monotonic time in
  nanoseconds and the Unix time in milliseconds the code sees when it asks for the \<open>i\<close>-th time.\<close>

type_synonym clock = "nat \<Rightarrow> nat \<times> int"

record meter =
  m_clock :: clock
  m_tick :: nat
  m_bundle :: "verified_rule_set option"
  m_start :: nat
  m_last :: nat
  m_last_unix_ms :: int
  m_limits :: resource_limits
  m_used :: nat

definition meter_unbound :: "clock \<Rightarrow> nat \<Rightarrow> resource_limits \<Rightarrow> meter" where
  "meter_unbound clk i l =
     \<lparr>m_clock = clk, m_tick = Suc i, m_bundle = None, m_start = fst (clk i), m_last = fst (clk i),
      m_last_unix_ms = snd (clk i), m_limits = l, m_used = 0\<rparr>"

definition meter_new :: "clock \<Rightarrow> nat \<Rightarrow> verified_rule_set \<Rightarrow> resource_limits \<Rightarrow> meter" where
  "meter_new clk i b l =
     \<lparr>m_clock = clk, m_tick = Suc i, m_bundle = Some b, m_start = fst (clk i), m_last = fst (clk i),
      m_last_unix_ms = snd (clk i), m_limits = l, m_used = 0\<rparr>"

definition meter_remaining :: "meter \<Rightarrow> nat" where
  "meter_remaining m = evaluation_operations (m_limits m) - m_used m"

text \<open>The subtraction of \<open>used\<close> is a plain \<open>u64\<close> one in the source; \<open>meter_inv\<close> below is why it
  never underflows.\<close>

definition charge :: "nat \<Rightarrow> (meter, unit, evaluation_error) action" where
  "charge operations m =
     (let elapsed = fst (m_clock m (m_tick m));
          unix_ms = snd (m_clock m (m_tick m));
          m1 = m\<lparr>m_tick := Suc (m_tick m)\<rparr> in
      if elapsed < m_last m \<or> unix_ms < m_last_unix_ms m then (Err InvalidClock, m1)
      else
        (let m2 = m1\<lparr>m_last := elapsed, m_last_unix_ms := unix_ms\<rparr> in
         case (case m_bundle m of Some b \<Rightarrow> check_validity b unix_ms | None \<Rightarrow> Ok ()) of
           Err e \<Rightarrow> (Err e, m2)
         | Ok _ \<Rightarrow>
             if elapsed - m_start m \<ge> evaluation_milliseconds (m_limits m) * 1000000
             then (Err DeadlineExceeded, m2)
             else if operations > evaluation_operations (m_limits m) - m_used m
             then (Err OperationLimit, m2)
             else (Ok (), m2\<lparr>m_used := m_used m + operations\<rparr>)))"

section \<open>Meter lemmas\<close>

definition meter_inv :: "meter \<Rightarrow> bool" where
  "meter_inv m \<longleftrightarrow> m_used m \<le> evaluation_operations (m_limits m)"

text \<open>What a charge leaves alone, and how far it moves \<open>used\<close>.\<close>

definition meter_le :: "nat \<Rightarrow> meter \<Rightarrow> meter \<Rightarrow> bool" where
  "meter_le n m m' \<longleftrightarrow>
     m_clock m' = m_clock m \<and> m_bundle m' = m_bundle m \<and> m_start m' = m_start m \<and>
     m_limits m' = m_limits m \<and> m_used m \<le> m_used m' \<and> m_used m' \<le> m_used m + n"

definition meter_errors :: "evaluation_error set" where
  "meter_errors = {InvalidClock, BundleNotValid, DeadlineExceeded, OperationLimit}"

lemma meter_le_refl [simp]: "meter_le n m m"
  by (simp add: meter_le_def)

lemma meter_le_trans: "meter_le a m1 m2 \<Longrightarrow> meter_le b m2 m3 \<Longrightarrow> meter_le (a + b) m1 m3"
  by (auto simp: meter_le_def)

lemma meter_le_mono: "meter_le a m1 m2 \<Longrightarrow> a \<le> b \<Longrightarrow> meter_le b m1 m2"
  by (auto simp: meter_le_def)

lemma meter_new_sel [simp]:
  "m_bundle (meter_new clk i b l) = Some b" "m_limits (meter_new clk i b l) = l"
  "m_used (meter_new clk i b l) = 0" "m_clock (meter_new clk i b l) = clk"
  by (simp_all add: meter_new_def)

lemma meter_unbound_sel [simp]:
  "m_bundle (meter_unbound clk i l) = None" "m_limits (meter_unbound clk i l) = l"
  "m_used (meter_unbound clk i l) = 0" "m_clock (meter_unbound clk i l) = clk"
  by (simp_all add: meter_unbound_def)

lemma meter_inv_new [simp]: "meter_inv (meter_new clk i b l)" "meter_inv (meter_unbound clk i l)"
  by (simp_all add: meter_inv_def)

lemma check_validity_errors: "check_validity b now = Err e \<Longrightarrow> e \<in> {InvalidClock, BundleNotValid}"
  by (auto simp: check_validity_def split: if_splits)

lemmas charge_splits = if_splits result.splits option.splits

lemma charge_meter_le: "charge n m = (r, m') \<Longrightarrow> meter_le n m m'"
  by (auto simp: charge_def meter_le_def Let_def split: charge_splits)

lemma charge_Ok_used: "charge n m = (Ok u, m') \<Longrightarrow> m_used m' = m_used m + n"
  by (auto simp: charge_def Let_def split: charge_splits)

lemma charge_inv: "charge n m = (r, m') \<Longrightarrow> meter_inv m \<Longrightarrow> meter_inv m'"
  by (auto simp: charge_def meter_inv_def Let_def split: charge_splits)

lemma charge_errors: "charge n m = (Err e, m') \<Longrightarrow> e \<in> meter_errors"
  by (auto simp: charge_def meter_errors_def Let_def dest: check_validity_errors
      split: charge_splits)

lemma charge_operation_limit:
  "charge n m = (Err OperationLimit, m') \<Longrightarrow> evaluation_operations (m_limits m) < m_used m + n"
  by (auto simp: charge_def Let_def dest: check_validity_errors split: charge_splits)

text \<open>The frame of everything that charges a meter.\<close>

definition meter_step :: "meter \<Rightarrow> meter \<Rightarrow> bool" where
  "meter_step m m' \<longleftrightarrow>
     m_clock m' = m_clock m \<and> m_bundle m' = m_bundle m \<and> m_start m' = m_start m \<and>
     m_limits m' = m_limits m \<and> m_used m \<le> m_used m' \<and> m_tick m \<le> m_tick m' \<and>
     (meter_inv m \<longrightarrow> meter_inv m')"

interpretation metered: frame meter_step
  by unfold_locales (auto simp: meter_step_def)

lemma charge_tick: "charge n m = (r, m') \<Longrightarrow> m_tick m \<le> m_tick m'"
  by (auto simp: charge_def Let_def split: charge_splits)

lemma keeps_charge [intro, simp]: "metered.keeps (charge n)"
proof -
  have "meter_step m m'" if "charge n m = (r, m')" for m m' r
    using charge_meter_le [OF that] charge_inv [OF that] charge_tick [OF that]
    by (simp add: meter_step_def meter_le_def)
  then show ?thesis by (metis metered.keeps_def prod.collapse)
qed

section \<open>Induction over the shapes the source distinguishes\<close>

lemma expr_shape_induct [case_names Ident Literal Method Unary Binary Nary Other]:
  assumes "\<And>n. P (EIdent n)" and "\<And>lit. P (ELiteral lit)"
    and "\<And>t f args. P t \<Longrightarrow> P (ECall (Some t) f args)"
    and "\<And>f v. P v \<Longrightarrow> P (ECall None f [v])"
    and "\<And>f l r. P l \<Longrightarrow> P r \<Longrightarrow> P (ECall None f [l, r])"
    and "\<And>f args. length args \<noteq> 1 \<Longrightarrow> length args \<noteq> 2 \<Longrightarrow> P (ECall None f args)"
    and "P EOther"
  shows "P e"
proof (induction e rule: measure_induct_rule [of size])
  case (less e)
  show ?case
  proof (cases e)
    case (ECall target f args)
    show ?thesis
    proof (cases target)
      case (Some t)
      then show ?thesis using ECall less.IH [of t] assms(3) by simp
    next
      case None
      consider v where "args = [v]" | l r where "args = [l, r]" | "length args \<noteq> 1" "length args \<noteq> 2"
        by (cases args rule: list.exhaust; cases "tl args") (auto simp: length_Suc_conv numeral_2_eq_2)
      then show ?thesis
        using ECall None less.IH assms(4-6) by cases simp_all
    qed
  qed (use assms in simp_all)
qed

lemma binding_key_shapes [simp]:
  "binding_key (EIdent n) b = None" "binding_key (ELiteral lit) b = None"
  "binding_key EOther b = None" "binding_key (ECall (Some t) f args) b = None"
  "binding_key (ECall None f [v]) b = None"
  "length args \<noteq> 2 \<Longrightarrow> binding_key (ECall None f args) b = None"
  by (auto simp: binding_key_def split: func.splits list.splits expr.splits literal.splits)

lemma binding_key_Some:
  "binding_key e b = Some key \<longleftrightarrow> e = ECall None OpIndex [EIdent b, ELiteral (LString key)]"
  by (auto simp: binding_key_def split: expr.splits option.splits func.splits list.splits literal.splits
      if_splits)

lemma nary_case [simp]:
  "length args \<noteq> 1 \<Longrightarrow> length args \<noteq> 2 \<Longrightarrow>
   (case args of [] \<Rightarrow> x | [v] \<Rightarrow> f v | [v, w] \<Rightarrow> g v w | v # w # u # z \<Rightarrow> x) = x"
  by (auto split: list.splits)

lemmas rule_syntax_evals [evals] =
  METHODS_def LITERAL_BYTES_def method_cost_def is_method_def method_call_def binding_key_def
  check_validity_def meter_unbound_def meter_new_def meter_remaining_def charge_def

end
