(* ===== verification/Trace.thy ===== *)
theory Trace
  imports Rule_Syntax
begin

text \<open>
  The explanation trace of \<open>openvibes-rules/src/trace.rs\<close>: the fixed-capacity list of inputs and
  boolean steps an evaluation records, the renderer of expressions, and \<open>finish\<close>, which turns a
  trace into a bounded \<open>Detection\<close>. \<open>serde_json\<close> and the operator names of the \<open>cel\<close> crate are
  the fields of \<open>trace_env\<close>.
\<close>

section \<open>Definitions\<close>

datatype entry = Input string val | Step expr bool

record trace =
  tr_entries :: "entry list"
  tr_truncated :: bool

definition TRACE_CAPACITY :: nat where "TRACE_CAPACITY = 64"

definition trace_new :: trace where
  "trace_new = \<lparr>tr_entries = [], tr_truncated = False\<rparr>"

definition trace_push :: "entry \<Rightarrow> trace \<Rightarrow> trace" where
  "trace_push e t =
     (if length (tr_entries t) = TRACE_CAPACITY then t\<lparr>tr_truncated := True\<rparr>
      else t\<lparr>tr_entries := tr_entries t @ [e]\<rparr>)"

definition trace_record :: "expr \<Rightarrow> string \<Rightarrow> val \<Rightarrow> trace \<Rightarrow> trace" where
  "trace_record ast binding v t =
     (case binding_key ast binding of
        Some key \<Rightarrow> trace_push (Input key v) t
      | None \<Rightarrow> (case v of VBool b \<Rightarrow> trace_push (Step ast b) t | _ \<Rightarrow> t))"

text \<open>What the trace asks of other crates: the name of a \<open>cel\<close> operator, the JSON of a string,
  and the lengths of the JSON of a whole explanation, an input and a step (\<open>None\<close> when
  serialization fails).\<close>

record trace_env =
  te_op_name :: "func \<Rightarrow> string"
  te_json_string :: "string \<Rightarrow> string option"
  te_json_detection :: "detection \<Rightarrow> nat option"
  te_json_input :: "detection_input \<Rightarrow> nat option"
  te_json_step :: "detection_step \<Rightarrow> nat option"

definition func_name :: "trace_env \<Rightarrow> func \<Rightarrow> string" where
  "func_name E f = (case f of Named n \<Rightarrow> n | _ \<Rightarrow> te_op_name E f)"

definition clip :: "string \<Rightarrow> nat \<Rightarrow> string" where
  "clip v limit = take (floor_boundary v (min (length v) limit)) v"

record text_buffer =
  tx_text :: string
  tx_cut :: bool

definition text_default :: text_buffer where
  "text_default = \<lparr>tx_text = [], tx_cut = False\<rparr>"

definition text_push :: "string \<Rightarrow> text_buffer \<Rightarrow> text_buffer" where
  "text_push v t =
     (let part = clip v (512 - length (tx_text t)) in
      \<lparr>tx_text = tx_text t @ part, tx_cut = (tx_cut t \<or> length part \<noteq> length v)\<rparr>)"

definition text_string :: "trace_env \<Rightarrow> string \<Rightarrow> text_buffer \<Rightarrow> text_buffer" where
  "text_string E v t =
     (let part = clip v 512 in
      text_push (case te_json_string E part of Some j \<Rightarrow> j | None \<Rightarrow> [])
        (t\<lparr>tx_cut := (tx_cut t \<or> length part \<noteq> length v)\<rparr>))"

definition op_symbol :: "func \<Rightarrow> string" where
  "op_symbol f =
     (case f of
        OpNot \<Rightarrow> ''!'' | OpNegate \<Rightarrow> ''-'' | OpAnd \<Rightarrow> ''&&'' | OpOr \<Rightarrow> ''||''
      | OpEquals \<Rightarrow> ''=='' | OpNotEquals \<Rightarrow> ''!='' | OpLess \<Rightarrow> ''<'' | OpLessEquals \<Rightarrow> ''<=''
      | OpGreater \<Rightarrow> ''>'' | OpGreaterEquals \<Rightarrow> ''>='' | OpIn \<Rightarrow> ''in'' | _ \<Rightarrow> ''?'')"

fun render :: "trace_env \<Rightarrow> expr \<Rightarrow> text_buffer \<Rightarrow> text_buffer" where
  "render E (EIdent name) out = (if tx_cut out then out else text_push name out)"
| "render E (ELiteral lit) out =
     (if tx_cut out then out else
        case lit of
          LString v \<Rightarrow> text_string E v out
        | LBool b \<Rightarrow> text_push (if b then ''true'' else ''false'') out
        | LInt i \<Rightarrow> text_push (int_to_string i) out
        | LOther \<Rightarrow> text_push ''?'' out)"
| "render E (ECall target f args) out =
     (if tx_cut out then out else
        case target of
          Some t \<Rightarrow>
            (let o1 = text_push ''('' (text_push (func_name E f) (text_push ''.'' (render E t out)));
                 o2 = (case args of [] \<Rightarrow> o1 | a # _ \<Rightarrow> render E a o1)
             in text_push '')'' o2)
        | None \<Rightarrow>
            (case args of
               [a] \<Rightarrow> text_push '')'' (render E a (text_push (op_symbol f) (text_push ''('' out)))
             | [a, b] \<Rightarrow>
                 if f = OpIndex
                 then text_push '']'' (render E b (text_push ''['' (render E a out)))
                 else text_push '')'' (render E b (text_push '' '' (text_push (op_symbol f)
                        (text_push '' '' (render E a (text_push ''('' out))))))
             | _ \<Rightarrow> text_push '')'' (text_push ''('' out)))"
| "render E EOther out = (if tx_cut out then out else text_push ''?'' out)"

text \<open>The horizontal ellipsis, three bytes of UTF-8.\<close>

definition ELLIPSIS :: string where
  "ELLIPSIS = [CHR 0xE2, CHR 0x80, CHR 0xA6]"

text \<open>One input and whether its value was clipped.\<close>

definition make_input :: "string \<Rightarrow> string \<Rightarrow> ident \<Rightarrow> val \<Rightarrow> detection_input \<times> bool" where
  "make_input binding key k v =
     (let input = \<lparr>di_key = k, di_status = Complete, di_value = None, di_item_count = None\<rparr> in
      if (binding = ''event'' \<and> ends_with key ''.cmdline'') \<or>
         (case v of VString s \<Rightarrow> NUL \<in> set s | _ \<Rightarrow> False)
      then (input\<lparr>di_status := Masked\<rparr>, False)
      else
        (case v of
           VBool b \<Rightarrow> (input\<lparr>di_value := Some (DBoolean b)\<rparr>, False)
         | VInt i \<Rightarrow> (input\<lparr>di_value := Some (DInteger i)\<rparr>, False)
         | VString s \<Rightarrow>
             (let text = clip s 256 in
              if length text \<noteq> length s
              then (input\<lparr>di_status := Truncated, di_value := Some (DString text)\<rparr>, True)
              else (input\<lparr>di_value := Some (DString text)\<rparr>, False))
         | VStrings vs \<Rightarrow> (input\<lparr>di_status := Summarized, di_item_count := Some (length vs)\<rparr>, False)))"

definition make_step :: "trace_env \<Rightarrow> expr \<Rightarrow> bool \<Rightarrow> detection_step \<times> bool" where
  "make_step E ast v =
     (let text = render E ast text_default in
      if tx_cut text
      then (\<lparr>ds_expression = clip (tx_text text) 509 @ ELLIPSIS, ds_result = v\<rparr>, True)
      else (\<lparr>ds_expression = tx_text text, ds_result = v\<rparr>, False))"

definition json_added :: "nat option \<Rightarrow> nat" where
  "json_added len = (case len of None \<Rightarrow> DETECTION_BYTES | Some n \<Rightarrow> n + 1)"

fun finish_loop ::
  "trace_env \<Rightarrow> string \<Rightarrow> entry list \<Rightarrow> nat \<Rightarrow> nat \<Rightarrow> detection \<Rightarrow> detection" where
  "finish_loop E binding [] budget bytes d = d"
| "finish_loop E binding (Input key v # es) budget bytes d =
     (if budget < 1024 then d\<lparr>det_truncated := True\<rparr>
      else if list_ex (\<lambda>i. as_str (di_key i) = key) (det_inputs d)
      then finish_loop E binding es (budget - 1024) bytes d
      else if length (det_inputs d) = 32
      then finish_loop E binding es (budget - 1024) bytes (d\<lparr>det_truncated := True\<rparr>)
      else
        (case identifier_new key of
           Err _ \<Rightarrow> finish_loop E binding es (budget - 1024) bytes (d\<lparr>det_truncated := True\<rparr>)
         | Ok k \<Rightarrow>
             (let (input, cut) = make_input binding key k v;
                  bytes' = u64_saturating_add bytes (json_added (te_json_input E input));
                  d' = d\<lparr>det_truncated := (det_truncated d \<or> cut),
                         det_inputs := det_inputs d @ [input]\<rparr> in
              if bytes' > DETECTION_BYTES
              then d'\<lparr>det_inputs := butlast (det_inputs d'), det_truncated := True\<rparr>
              else finish_loop E binding es (budget - 1024) bytes' d')))"
| "finish_loop E binding (Step ast v # es) budget bytes d =
     (if budget < 1024 then d\<lparr>det_truncated := True\<rparr>
      else if length (det_steps d) = 32
      then finish_loop E binding es (budget - 1024) bytes (d\<lparr>det_truncated := True\<rparr>)
      else
        (let (step, cut) = make_step E ast v;
             bytes' = u64_saturating_add bytes (json_added (te_json_step E step));
             d' = d\<lparr>det_truncated := (det_truncated d \<or> cut),
                    det_steps := det_steps d @ [step]\<rparr> in
         if bytes' > DETECTION_BYTES
         then d'\<lparr>det_steps := butlast (det_steps d'), det_truncated := True\<rparr>
         else finish_loop E binding es (budget - 1024) bytes' d'))"

definition finish :: "trace_env \<Rightarrow> verified_rule_set \<Rightarrow> string \<Rightarrow> nat \<Rightarrow> trace \<Rightarrow> detection" where
  "finish E bundle binding budget t =
     (let d = \<lparr>det_observed_at_unix_ms = 0,
               det_rule_set_version = av_version (vr_accepted bundle),
               det_preimage_sha256 = hex (av_preimage_sha256 (vr_accepted bundle)),
               det_inputs = [], det_steps = [], det_truncated = tr_truncated t\<rparr>;
          bytes = (case te_json_detection E d of None \<Rightarrow> DETECTION_BYTES | Some n \<Rightarrow> n + 20)
      in finish_loop E binding (tr_entries t) budget bytes d)"

lemmas trace_evals [evals] =
  TRACE_CAPACITY_def trace_new_def trace_push_def trace_record_def func_name_def clip_def
  text_default_def text_push_def text_string_def op_symbol_def ELLIPSIS_def make_input_def
  make_step_def json_added_def finish_def

end
