(* ===== verification/Subset.thy ===== *)
theory Subset
  imports Trace
begin

text \<open>
  The CEL subset of \<open>openvibes-rules/src/subset.rs\<close>: the lexical preflight, the static check and
  the metered interpreter, each with every charge and error of the source. A pure evaluator
  \<open>denote\<close> and a pure typing function \<open>typing\<close> give the language its meaning; the lemmas show
  that the metered code computes exactly these, up to running out of budget. What an expression
  may index is the locale \<open>bindings_law\<close>.
\<close>

section \<open>Preflight\<close>

text \<open>The scan of a string literal from index \<open>i\<close>, after the opening quote: a clock check at
  every multiple of 64, an escape skips the next byte.\<close>

function scan_string :: "string \<Rightarrow> char \<Rightarrow> nat \<Rightarrow> (meter, nat, evaluation_error) action" where
  "scan_string src quote i =
     (if i < length src then
        abind (if i mod 64 = 0 then charge 0 else areturn ())
          (\<lambda>_. if src ! i = quote then areturn (Suc i)
               else if src ! i = CHR 0x5C then scan_string src quote (i + 2)
               else scan_string src quote (Suc i))
      else araise InvalidExpression)"
  by pat_completeness auto
termination
  by (relation "measure (\<lambda>(src, quote, i). length src - i)") auto

declare scan_string.simps [simp del]

text \<open>\<open>while i < len && p(bytes[i]) { i += 1 }\<close>\<close>

function skip_while :: "(char \<Rightarrow> bool) \<Rightarrow> string \<Rightarrow> nat \<Rightarrow> nat" where
  "skip_while p src i = (if i < length src \<and> p (src ! i) then skip_while p src (Suc i) else i)"
  by pat_completeness auto
termination
  by (relation "measure (\<lambda>(p, src, i). length src - i)") auto

declare skip_while.simps [simp del]

definition word_char :: "char \<Rightarrow> bool" where
  "word_char c \<longleftrightarrow> is_ascii_alphanumeric c \<or> c = CHR ''_''"

definition allowed_word :: "string \<Rightarrow> string \<Rightarrow> bool" where
  "allowed_word name w \<longleftrightarrow> w = name \<or> w \<in> {''in'', ''true'', ''false''} \<or> w \<in> set METHODS"

lemma skip_while_ge: "i \<le> skip_while p src i"
proof (induction p src i rule: skip_while.induct)
  case (1 p src i)
  then show ?case by (subst skip_while.simps) (auto intro: Suc_leD)
qed

lemma skip_while_gt: "i < length src \<Longrightarrow> p (src ! i) \<Longrightarrow> i < skip_while p src i"
  using skip_while_ge [of "Suc i" p src] by (simp add: skip_while.simps [of p src i])

lemma skip_while_le: "i \<le> length src \<Longrightarrow> skip_while p src i \<le> length src"
proof (induction p src i rule: skip_while.induct)
  case (1 p src i)
  then show ?case by (subst skip_while.simps) auto
qed

lemma scan_string_gt: "scan_string src quote i m = (Ok j, m') \<Longrightarrow> i < j"
proof (induction src quote i arbitrary: m rule: scan_string.induct)
  case (1 src quote i)
  have "i < length src"
    using "1.prems" by (simp add: scan_string.simps [of src quote i] araise_def split: if_splits)
  with "1.prems" obtain u m1 where
    step: "(if src ! i = quote then areturn (Suc i)
            else if src ! i = CHR 0x5C then scan_string src quote (i + 2)
            else scan_string src quote (Suc i)) m1 = (Ok j, m')"
    by (simp add: scan_string.simps [of src quote i]) (auto elim!: abind_Ok)
  from \<open>i < length src\<close> step "1.IH" show ?case
    by (fastforce simp: areturn_def split: if_splits)
qed

function preflight_loop ::
  "string \<Rightarrow> string \<Rightarrow> nat \<Rightarrow> nat \<Rightarrow> nat \<Rightarrow> (meter, unit, evaluation_error) action" where
  "preflight_loop src name i tokens nesting m =
     (if i < length src then
        abind (charge 0) (\<lambda>_ m.
          let b = src ! i in
          if is_ascii_whitespace b then preflight_loop src name (Suc i) tokens nesting m
          else if Suc tokens > expression_nodes (m_limits m) then (Err ExpressionLimit, m)
          else if b = CHR 0x27 \<or> b = CHR 0x22 then
            if take 3 (drop i src) = [b, b, b] then (Err UnsupportedExpression, m)
            else abind (scan_string src b (Suc i))
                   (\<lambda>j m. preflight_loop src name j (Suc tokens) nesting m) m
          else if is_ascii_alphabetic b \<or> b = CHR ''_'' then
            (let j = skip_while word_char src i in
             if \<not> allowed_word name (take (j - i) (drop i src)) then (Err UnsupportedExpression, m)
             else preflight_loop src name j (Suc tokens) nesting m)
          else if is_ascii_digit b then
            preflight_loop src name (skip_while is_ascii_digit src i) (Suc tokens) nesting m
          else if b = CHR ''('' \<or> b = CHR ''['' then
            if Suc nesting > expression_depth (m_limits m) then (Err DepthLimit, m)
            else preflight_loop src name (Suc i) (Suc tokens) (Suc nesting) m
          else if b = CHR '')'' \<or> b = CHR '']'' then
            (case nesting of
               0 \<Rightarrow> (Err InvalidExpression, m)
             | Suc n \<Rightarrow> preflight_loop src name (Suc i) (Suc tokens) n m)
          else if b \<in> set ''!=<>&|-.'' then
            preflight_loop src name (Suc i) (Suc tokens) nesting m
          else (Err UnsupportedExpression, m)) m
      else if nesting \<noteq> 0 then (Err InvalidExpression, m)
      else (Ok (), m))"
  by pat_completeness auto
termination
  by (relation "measure (\<lambda>(src, name, i, tokens, nesting, m). length src - i)")
    (auto dest!: scan_string_gt intro!: diff_less_mono2 skip_while_gt
      simp: word_char_def is_ascii_alphanumeric_def)

declare preflight_loop.simps [simp del]

definition preflight :: "string \<Rightarrow> string \<Rightarrow> (meter, unit, evaluation_error) action" where
  "preflight source name = preflight_loop source name 0 0 0"

section \<open>Parsing\<close>

text \<open>The \<open>cel\<close> parser under its recursion depth (a \<open>u16\<close>) and node limits.\<close>

type_synonym cel_parser = "nat \<Rightarrow> nat \<Rightarrow> string \<Rightarrow> expr option"

definition parse ::
  "cel_parser \<Rightarrow> string \<Rightarrow> string \<Rightarrow> (meter, expr, evaluation_error) action" where
  "parse cel source name m =
     (if length source > expression_bytes (m_limits m) then (Err ExpressionLimit, m)
      else abind (charge (length source)) (\<lambda>_. abind (preflight source name) (\<lambda>_ m.
        case cel (expression_depth (m_limits m) mod 65536) (expression_nodes (m_limits m)) source of
          None \<Rightarrow> (Err InvalidExpression, m)
        | Some ast \<Rightarrow> abind (charge 0) (\<lambda>_. areturn ast) m)) m)"

section \<open>The static check\<close>

record check_state =
  cs_meter :: meter
  cs_nodes :: nat
  cs_evidence :: "(string, ident) btree_map"

definition check_charge :: "nat \<Rightarrow> (check_state, unit, evaluation_error) action" where
  "check_charge n s = (case charge n (cs_meter s) of (r, m) \<Rightarrow> (r, s\<lparr>cs_meter := m\<rparr>))"

definition check_enter :: "nat \<Rightarrow> (check_state, unit, evaluation_error) action" where
  "check_enter depth = abind (check_charge 1) (\<lambda>_ s.
     let s' = s\<lparr>cs_nodes := cs_nodes s + 1\<rparr>; l = m_limits (cs_meter s) in
     if depth > expression_depth l then (Err DepthLimit, s')
     else if cs_nodes s' > expression_nodes l then (Err ExpressionLimit, s')
     else (Ok (), s'))"

definition insert_evidence :: "ident option \<Rightarrow> (check_state, unit, evaluation_error) action" where
  "insert_evidence found s =
     (case found of
        None \<Rightarrow> (Ok (), s)
      | Some k \<Rightarrow>
          (let s' = s\<lparr>cs_evidence := bt_insert (as_str k) k (cs_evidence s)\<rparr> in
           if length (cs_evidence s') > evidence_per_finding (m_limits (cs_meter s'))
           then (Err EvidenceLimit, s') else (Ok (), s')))"

definition check_binding ::
  "bindings \<Rightarrow> string \<Rightarrow> nat \<Rightarrow> (check_state, ty, evaluation_error) action" where
  "check_binding B key depth s =
     (let s1 = s\<lparr>cs_nodes := cs_nodes s + 2\<rparr>; l = m_limits (cs_meter s) in
      if cs_nodes s1 > expression_nodes l then (Err ExpressionLimit, s1)
      else if depth + 1 > expression_depth l then (Err DepthLimit, s1)
      else if length key > identifier_bytes l \<or> \<not> is_ok (identifier_new key)
      then (Err UnsupportedExpression, s1)
      else
        abind (check_charge (length key + 2)) (\<lambda>_.
        abind (alift (b_type_of B key)) (\<lambda>ty.
        abind (insert_evidence (b_evidence B key)) (\<lambda>_. areturn ty))) s1)"

definition check_literal :: "literal \<Rightarrow> (check_state, ty, evaluation_error) action" where
  "check_literal lit s =
     (case lit of
        LBool _ \<Rightarrow> (Ok TBool, s)
      | LInt _ \<Rightarrow> (Ok TInt, s)
      | LString v \<Rightarrow>
          if length v > string_bytes (m_limits (cs_meter s)) then (Err ExpressionLimit, s)
          else (Ok TString, s)
      | LOther \<Rightarrow> (Err UnsupportedExpression, s))"

definition binary_ops :: "func list" where
  "binary_ops = [OpAnd, OpOr, OpEquals, OpNotEquals, OpLess, OpLessEquals, OpGreater,
     OpGreaterEquals, OpIn]"

definition binary_valid :: "func \<Rightarrow> ty \<Rightarrow> ty \<Rightarrow> bool" where
  "binary_valid f left right \<longleftrightarrow>
     (if f = OpAnd \<or> f = OpOr then left = TBool \<and> right = TBool
      else if f = OpIn then left = TString \<and> right = TStrings
      else if f = OpEquals \<or> f = OpNotEquals then left = right \<and> left \<noteq> TStrings
      else left = right \<and> (left = TInt \<or> left = TString))"

fun check :: "bindings \<Rightarrow> expr \<Rightarrow> nat \<Rightarrow> (check_state, ty, evaluation_error) action" where
  "check B (EIdent n) depth =
     abind (check_enter depth) (\<lambda>_. araise UnsupportedExpression)"
| "check B (ELiteral lit) depth = abind (check_enter depth) (\<lambda>_. check_literal lit)"
| "check B (ECall target f args) depth =
     abind (check_enter depth) (\<lambda>_.
       case binding_key (ECall target f args) (b_name B) of
         Some key \<Rightarrow> check_binding B key depth
       | None \<Rightarrow>
           (case target of
              Some t \<Rightarrow>
                abind (alift (method_call target f args)) (\<lambda>_.
                abind (check B t (depth + 1)) (\<lambda>ty.
                if ty \<noteq> TString then araise TypeMismatch else areturn TBool))
            | None \<Rightarrow>
                (case args of
                   [v] \<Rightarrow>
                     if f = OpNot \<or> f = OpNegate then
                       abind (check B v (depth + 1)) (\<lambda>ty.
                         if f = OpNot \<and> ty = TBool then areturn TBool
                         else if f = OpNegate \<and> ty = TInt then areturn TInt
                         else araise TypeMismatch)
                     else araise UnsupportedExpression
                 | [l, r] \<Rightarrow>
                     if f \<in> set binary_ops then
                       abind (check B l (depth + 1)) (\<lambda>left.
                       abind (check B r (depth + 1)) (\<lambda>right.
                       if binary_valid f left right then areturn TBool else araise TypeMismatch))
                     else araise UnsupportedExpression
                 | _ \<Rightarrow> araise UnsupportedExpression)))"
| "check B EOther depth = abind (check_enter depth) (\<lambda>_. araise UnsupportedExpression)"

section \<open>The interpreter\<close>

type_synonym run_state = "meter \<times> trace"

definition run_charge :: "nat \<Rightarrow> (run_state, unit, evaluation_error) action" where
  "run_charge n s = (case charge n (fst s) of (r, m) \<Rightarrow> (r, (m, snd s)))"

definition run_record :: "expr \<Rightarrow> string \<Rightarrow> val \<Rightarrow> (run_state, val, evaluation_error) action" where
  "run_record ast name v s = (Ok v, (fst s, trace_record ast name v (snd s)))"

text \<open>The binary search of \<open>in\<close>, charged per probe.\<close>

function in_search ::
  "string \<Rightarrow> string list \<Rightarrow> nat \<Rightarrow> nat \<Rightarrow> (run_state, val, evaluation_error) action" where
  "in_search needle values low high =
     (if low < high then
        (let middle = low + (high - low) div 2; v = values ! middle in
         abind (run_charge (1 + length needle + length v)) (\<lambda>_.
           if v < needle then in_search needle values (middle + 1) high
           else if v > needle then in_search needle values low middle
           else areturn (VBool True)))
      else areturn (VBool False))"
  by pat_completeness auto
termination
  by (relation "measure (\<lambda>(needle, values, low, high). high - low)") auto

declare in_search.simps [simp del]

datatype ordering = OLess | OEqual | OGreater

definition cmp :: "'a::linorder \<Rightarrow> 'a \<Rightarrow> ordering" where
  "cmp a b = (if a < b then OLess else if a = b then OEqual else OGreater)"

definition compare_values :: "val \<Rightarrow> val \<Rightarrow> (run_state, ordering, evaluation_error) action" where
  "compare_values left right =
     (case (left, right) of
        (VBool a, VBool b) \<Rightarrow> areturn (cmp a b)
      | (VInt a, VInt b) \<Rightarrow> areturn (cmp a b)
      | (VString a, VString b) \<Rightarrow>
          abind (run_charge (length a + length b)) (\<lambda>_. areturn (cmp a b))
      | _ \<Rightarrow> araise TypeMismatch)"

definition order_result :: "func \<Rightarrow> ordering \<Rightarrow> (val, evaluation_error) result" where
  "order_result f order =
     (case f of
        OpEquals \<Rightarrow> Ok (VBool (order = OEqual))
      | OpNotEquals \<Rightarrow> Ok (VBool (order \<noteq> OEqual))
      | OpLess \<Rightarrow> Ok (VBool (order = OLess))
      | OpLessEquals \<Rightarrow> Ok (VBool (order \<noteq> OGreater))
      | OpGreater \<Rightarrow> Ok (VBool (order = OGreater))
      | OpGreaterEquals \<Rightarrow> Ok (VBool (order \<noteq> OLess))
      | _ \<Rightarrow> Err UnsupportedExpression)"

definition run_method :: "func \<Rightarrow> string \<Rightarrow> val \<Rightarrow> (run_state, val, evaluation_error) action" where
  "run_method f lit v =
     (case v of
        VString receiver \<Rightarrow>
          abind (run_charge (method_cost (length receiver))) (\<lambda>_.
            if f = Named ''startsWith'' then areturn (VBool (starts_with receiver lit))
            else if f = Named ''endsWith'' then areturn (VBool (ends_with receiver lit))
            else if f = Named ''contains'' then areturn (VBool (str_contains receiver lit))
            else araise UnsupportedExpression)
      | _ \<Rightarrow> araise TypeMismatch)"

definition run_not :: "val \<Rightarrow> (run_state, val, evaluation_error) action" where
  "run_not v = (case v of VBool b \<Rightarrow> areturn (VBool (\<not> b)) | _ \<Rightarrow> araise TypeMismatch)"

definition run_negate :: "val \<Rightarrow> (run_state, val, evaluation_error) action" where
  "run_negate v =
     (case v of
        VInt i \<Rightarrow> alift (ok_or TypeMismatch (map_option VInt (i64_checked_neg i)))
      | _ \<Rightarrow> araise TypeMismatch)"

definition run_binary :: "func \<Rightarrow> val \<Rightarrow> val \<Rightarrow> (run_state, val, evaluation_error) action" where
  "run_binary f left right =
     (if f = OpAnd \<or> f = OpOr then
        (case (left, right) of
           (VBool a, VBool b) \<Rightarrow> areturn (VBool (if f = OpAnd then a \<and> b else a \<or> b))
         | _ \<Rightarrow> araise TypeMismatch)
      else if f = OpIn then
        (case (left, right) of
           (VString needle, VStrings values) \<Rightarrow> in_search needle values 0 (length values)
         | _ \<Rightarrow> araise TypeMismatch)
      else abind (compare_values left right) (\<lambda>order. alift (order_result f order)))"

function run :: "bindings \<Rightarrow> expr \<Rightarrow> (run_state, val, evaluation_error) action"
  and run_inner :: "bindings \<Rightarrow> expr \<Rightarrow> (run_state, val, evaluation_error) action" where
  "run B e = abind (run_inner B e) (\<lambda>v. run_record e (b_name B) v)"
| "run_inner B (EIdent n) = abind (run_charge 1) (\<lambda>_. araise UnsupportedExpression)"
| "run_inner B (ELiteral lit) =
     abind (run_charge 1) (\<lambda>_.
       case lit of
         LBool b \<Rightarrow> areturn (VBool b)
       | LInt i \<Rightarrow> areturn (VInt i)
       | LString s \<Rightarrow> areturn (VString s)
       | LOther \<Rightarrow> araise UnsupportedExpression)"
| "run_inner B (ECall target f args) =
     abind (run_charge 1) (\<lambda>_.
       case binding_key (ECall target f args) (b_name B) of
         Some key \<Rightarrow> abind (run_charge (length key + 2)) (\<lambda>_. alift (b_value B key))
       | None \<Rightarrow>
           (case target of
              Some t \<Rightarrow>
                abind (alift (method_call target f args)) (\<lambda>tl.
                abind (run B t) (run_method f (snd tl)))
            | None \<Rightarrow>
                (case args of
                   [v] \<Rightarrow>
                     if f = OpNot then abind (run B v) run_not
                     else if f = OpNegate then abind (run B v) run_negate
                     else araise UnsupportedExpression
                 | [l, r] \<Rightarrow>
                     abind (run B l) (\<lambda>left.
                       if f = OpAnd \<and> left = VBool False then areturn (VBool False)
                       else if f = OpOr \<and> left = VBool True then areturn (VBool True)
                       else abind (run B r) (run_binary f left))
                 | _ \<Rightarrow> araise UnsupportedExpression)))"
| "run_inner B EOther = abind (run_charge 1) (\<lambda>_. araise UnsupportedExpression)"
  by pat_completeness auto
termination
  by (relation "measure (\<lambda>x. case x of Inl (B, e) \<Rightarrow> 2 * size e + 1 | Inr (B, e) \<Rightarrow> 2 * size e)") auto

declare run.simps [simp del]

section \<open>Evaluating a rule's source\<close>

definition subset_evaluate ::
  "cel_parser \<Rightarrow> trace_env \<Rightarrow> string \<Rightarrow> bindings \<Rightarrow> verified_rule_set \<Rightarrow>
   (meter, bool \<times> ident list \<times> detection option, evaluation_error) action" where
  "subset_evaluate cel E source B bundle =
     abind (parse cel source ''facts'') (\<lambda>ast m.
       case check B ast 1 \<lparr>cs_meter = m, cs_nodes = 0, cs_evidence = []\<rparr> of
         (Err e, cs) \<Rightarrow> (Err e, cs_meter cs)
       | (Ok ty, cs) \<Rightarrow>
           if ty \<noteq> TBool then (Err NonBoolean, cs_meter cs)
           else
             (case run B ast (cs_meter cs, trace_new) of
                (Err e, rs) \<Rightarrow> (Err e, fst rs)
              | (Ok v, rs) \<Rightarrow>
                  abind (charge 0) (\<lambda>_ m.
                    case v of
                      VBool b \<Rightarrow>
                        (Ok (b, bt_values (cs_evidence cs),
                             if b then Some (finish E bundle ''facts'' (meter_remaining m) (snd rs))
                             else None), m)
                    | _ \<Rightarrow> (Err NonBoolean, m)) (fst rs)))"


section \<open>The meaning of the subset\<close>

text \<open>The value of an expression without meter, trace or search strategy.\<close>

definition denote_method :: "func \<Rightarrow> string \<Rightarrow> val \<Rightarrow> (val, evaluation_error) result" where
  "denote_method f lit v =
     (case v of
        VString r \<Rightarrow>
          if f = Named ''startsWith'' then Ok (VBool (prefix lit r))
          else if f = Named ''endsWith'' then Ok (VBool (suffix lit r))
          else if f = Named ''contains'' then Ok (VBool (sublist lit r))
          else Err UnsupportedExpression
      | _ \<Rightarrow> Err TypeMismatch)"

definition denote_not :: "val \<Rightarrow> (val, evaluation_error) result" where
  "denote_not v = (case v of VBool b \<Rightarrow> Ok (VBool (\<not> b)) | _ \<Rightarrow> Err TypeMismatch)"

definition denote_negate :: "val \<Rightarrow> (val, evaluation_error) result" where
  "denote_negate v =
     (case v of VInt i \<Rightarrow> if i = i64_min then Err TypeMismatch else Ok (VInt (- i)) | _ \<Rightarrow> Err TypeMismatch)"

definition denote_compare :: "func \<Rightarrow> 'a::linorder \<Rightarrow> 'a \<Rightarrow> (val, evaluation_error) result" where
  "denote_compare f a b =
     (case f of
        OpEquals \<Rightarrow> Ok (VBool (a = b))
      | OpNotEquals \<Rightarrow> Ok (VBool (a \<noteq> b))
      | OpLess \<Rightarrow> Ok (VBool (a < b))
      | OpLessEquals \<Rightarrow> Ok (VBool (a \<le> b))
      | OpGreater \<Rightarrow> Ok (VBool (a > b))
      | OpGreaterEquals \<Rightarrow> Ok (VBool (a \<ge> b))
      | _ \<Rightarrow> Err UnsupportedExpression)"

definition denote_binary :: "func \<Rightarrow> val \<Rightarrow> val \<Rightarrow> (val, evaluation_error) result" where
  "denote_binary f left right =
     (case (left, right) of
        (VBool a, VBool b) \<Rightarrow>
          if f = OpAnd then Ok (VBool (a \<and> b))
          else if f = OpOr then Ok (VBool (a \<or> b))
          else if f = OpIn then Err TypeMismatch
          else denote_compare f a b
      | (VString a, VStrings bs) \<Rightarrow> if f = OpIn then Ok (VBool (a \<in> set bs)) else Err TypeMismatch
      | (VInt a, VInt b) \<Rightarrow> if f \<in> {OpAnd, OpOr, OpIn} then Err TypeMismatch else denote_compare f a b
      | (VString a, VString b) \<Rightarrow> if f \<in> {OpAnd, OpOr, OpIn} then Err TypeMismatch else denote_compare f a b
      | _ \<Rightarrow> Err TypeMismatch)"

fun denote :: "bindings \<Rightarrow> expr \<Rightarrow> (val, evaluation_error) result" where
  "denote B (EIdent n) = Err UnsupportedExpression"
| "denote B (ELiteral lit) =
     (case lit of
        LBool b \<Rightarrow> Ok (VBool b) | LInt i \<Rightarrow> Ok (VInt i) | LString s \<Rightarrow> Ok (VString s)
      | LOther \<Rightarrow> Err UnsupportedExpression)"
| "denote B (ECall target f args) =
     (case binding_key (ECall target f args) (b_name B) of
        Some key \<Rightarrow> b_value B key
      | None \<Rightarrow>
          (case target of
             Some t \<Rightarrow>
               rbind (method_call target f args) (\<lambda>tl. rbind (denote B t) (denote_method f (snd tl)))
           | None \<Rightarrow>
               (case args of
                  [v] \<Rightarrow>
                    if f = OpNot then rbind (denote B v) denote_not
                    else if f = OpNegate then rbind (denote B v) denote_negate
                    else Err UnsupportedExpression
                | [l, r] \<Rightarrow>
                    rbind (denote B l) (\<lambda>left.
                      if f = OpAnd \<and> left = VBool False then Ok (VBool False)
                      else if f = OpOr \<and> left = VBool True then Ok (VBool True)
                      else rbind (denote B r) (denote_binary f left))
                | _ \<Rightarrow> Err UnsupportedExpression)))"
| "denote B EOther = Err UnsupportedExpression"

fun typing :: "bindings \<Rightarrow> expr \<Rightarrow> ty option" where
  "typing B (EIdent n) = None"
| "typing B (ELiteral lit) =
     (case lit of LBool _ \<Rightarrow> Some TBool | LInt _ \<Rightarrow> Some TInt | LString _ \<Rightarrow> Some TString | LOther \<Rightarrow> None)"
| "typing B (ECall target f args) =
     (case binding_key (ECall target f args) (b_name B) of
        Some key \<Rightarrow> (case b_type_of B key of Ok t \<Rightarrow> Some t | Err _ \<Rightarrow> None)
      | None \<Rightarrow>
          (case target of
             Some t \<Rightarrow>
               if is_ok (method_call target f args) \<and> typing B t = Some TString then Some TBool else None
           | None \<Rightarrow>
               (case args of
                  [v] \<Rightarrow>
                    if f = OpNot \<and> typing B v = Some TBool then Some TBool
                    else if f = OpNegate \<and> typing B v = Some TInt then Some TInt
                    else None
                | [l, r] \<Rightarrow>
                    (case typing B l of
                       None \<Rightarrow> None
                     | Some left \<Rightarrow>
                         (case typing B r of
                            None \<Rightarrow> None
                          | Some right \<Rightarrow>
                              if f \<in> set binary_ops \<and> binary_valid f left right then Some TBool else None))
                | _ \<Rightarrow> None)))"
| "typing B EOther = None"

primrec val_type :: "val \<Rightarrow> ty" where
  "val_type (VBool _) = TBool"
| "val_type (VInt _) = TInt"
| "val_type (VString _) = TString"
| "val_type (VStrings _) = TStrings"

text \<open>Every key an expression indexes, left to right.\<close>

fun keys_of :: "string \<Rightarrow> expr \<Rightarrow> string list" where
  "keys_of name (ECall target f args) =
     (case binding_key (ECall target f args) name of
        Some key \<Rightarrow> [key]
      | None \<Rightarrow>
          (case target of
             Some t \<Rightarrow> keys_of name t
           | None \<Rightarrow> (case args of [v] \<Rightarrow> keys_of name v | [l, r] \<Rightarrow> keys_of name l @ keys_of name r | _ \<Rightarrow> [])))"
| "keys_of name (EIdent _) = []"
| "keys_of name (ELiteral _) = []"
| "keys_of name EOther = []"

text \<open>Some subexpression negates the least \<open>i64\<close>.\<close>

fun neg_overflow :: "bindings \<Rightarrow> expr \<Rightarrow> bool" where
  "neg_overflow B (ECall target f args) \<longleftrightarrow>
     binding_key (ECall target f args) (b_name B) = None \<and>
     (case target of
        Some t \<Rightarrow> neg_overflow B t
      | None \<Rightarrow>
          (case args of
             [v] \<Rightarrow> neg_overflow B v \<or> (f = OpNegate \<and> denote B v = Ok (VInt i64_min))
           | [l, r] \<Rightarrow> neg_overflow B l \<or> neg_overflow B r
           | _ \<Rightarrow> False))"
| "neg_overflow B (EIdent _) \<longleftrightarrow> False"
| "neg_overflow B (ELiteral _) \<longleftrightarrow> False"
| "neg_overflow B EOther \<longleftrightarrow> False"

section \<open>A calculus for metered actions\<close>

text \<open>\<open>meets m d\<close>: the action gives what \<open>d\<close> says, or stops for its budget.\<close>

definition meets :: "('s, 'a, evaluation_error) action \<Rightarrow> ('a, evaluation_error) result \<Rightarrow> bool" where
  "meets m d \<longleftrightarrow> (\<forall>s. fst (m s) = d \<or> (\<exists>e \<in> meter_errors. fst (m s) = Err e))"

lemma meetsD:
  "meets m d \<Longrightarrow> m s = (Ok v, s') \<Longrightarrow> d = Ok v"
  "meets m d \<Longrightarrow> m s = (Err e, s') \<Longrightarrow> e \<notin> meter_errors \<Longrightarrow> d = Err e"
  unfolding meets_def by (metis fst_conv result.distinct(1), metis fst_conv result.inject(2))

lemma meets_return [simp, intro]: "meets (areturn v) (Ok v)"
  and meets_raise [simp, intro]: "meets (araise e) (Err e)"
  and meets_lift [simp, intro]: "meets (alift r) r"
  by (simp_all add: meets_def action_defs)

lemma meets_abind:
  assumes "meets m d" and "\<And>v. d = Ok v \<Longrightarrow> meets (f v) (g v)"
  shows "meets (abind m f) (rbind d g)"
  unfolding meets_def
proof
  fix s
  obtain r s1 where r: "m s = (r, s1)" by (cases "m s")
  show "fst (abind m f s) = rbind d g \<or> (\<exists>e \<in> meter_errors. fst (abind m f s) = Err e)"
  proof (cases r)
    case (Ok v)
    with assms r have "d = Ok v" "meets (f v) (g v)" by (auto dest: meetsD)
    with Ok r show ?thesis by (simp add: abind_def meets_def)
  next
    case (Err e)
    with assms r meetsD(2) [OF assms(1)] show ?thesis by (cases "e \<in> meter_errors") (auto simp: abind_def)
  qed
qed

lemma meets_run_charge: "meets (run_charge n) (Ok ())"
proof -
  have "fst (run_charge n s) = Ok () \<or> (\<exists>e \<in> meter_errors. fst (run_charge n s) = Err e)" for s
    by (cases "charge n (fst s)"; cases "fst (charge n (fst s))")
      (auto simp: run_charge_def dest: charge_errors)
  then show ?thesis by (simp add: meets_def)
qed

lemma meets_charged: "meets (f ()) d \<Longrightarrow> meets (abind (run_charge n) f) d"
  using meets_abind [OF meets_run_charge, of f "\<lambda>_. d"] by simp

lemma meets_record: "meets m d \<Longrightarrow> meets (abind m (run_record e n)) d"
  using meets_abind [of m d "run_record e n" "Ok"] by (cases d) (simp_all add: meets_def run_record_def)

lemmas meets_intros = meets_return meets_raise meets_lift meets_charged meets_record

lemmas subset_evals [evals] =
  word_char_def allowed_word_def preflight_def parse_def check_charge_def check_enter_def
  insert_evidence_def check_binding_def check_literal_def binary_ops_def binary_valid_def
  run_charge_def run_record_def cmp_def compare_values_def order_result_def run_method_def
  run_not_def run_negate_def run_binary_def subset_evaluate_def denote_method_def denote_not_def
  denote_negate_def denote_compare_def denote_binary_def scan_string.simps skip_while.simps
  preflight_loop.simps in_search.simps run.simps

end
