(* ===== verification/Subset_Correct.thy ===== *)
theory Subset_Correct
  imports Subset
begin

text \<open>
  Correctness of the static check and of the interpreter of \<open>subset.rs\<close>: the metered
  interpreter computes \<open>denote\<close>, checked expressions are well typed, and a well-typed expression
  fails only for a missing value, for budget or clock, or for negating the least integer.
\<close>

section \<open>The binary search of \<open>in\<close>\<close>

lemma sorted_below: "sorted vs \<Longrightarrow> m < length vs \<Longrightarrow> vs ! m < (x::'a::linorder) \<Longrightarrow> i \<le> m \<Longrightarrow> vs ! i \<noteq> x"
  using sorted_nth_mono [of vs i m] by auto

lemma sorted_above: "sorted vs \<Longrightarrow> i < length vs \<Longrightarrow> (x::'a::linorder) < vs ! m \<Longrightarrow> m \<le> i \<Longrightarrow> vs ! i \<noteq> x"
  using sorted_nth_mono [of vs m i] by auto

lemma in_search_step:
  assumes "low < high" and "mid = low + (high - low) div 2"
  shows "in_search x vs low high = abind (run_charge (1 + length x + length (vs ! mid))) (\<lambda>_.
      if vs ! mid < x then in_search x vs (mid + 1) high
      else if vs ! mid > x then in_search x vs low mid else areturn (VBool True))"
  using assms by (simp add: in_search.simps [of x vs low high] Let_def)

lemma meets_in_search:
  "sorted vs \<Longrightarrow> high \<le> length vs \<Longrightarrow>
   meets (in_search x vs low high) (Ok (VBool (\<exists>i. low \<le> i \<and> i < high \<and> vs ! i = x)))"
proof (induction x vs low high rule: in_search.induct)
  case (1 x vs low high)
  show ?case
  proof (cases "low < high")
    case False
    then have none: "(\<exists>i. low \<le> i \<and> i < high \<and> vs ! i = x) = False" by auto
    from False show ?thesis unfolding none by (simp add: in_search.simps [of x vs low high])
  next
    case True
    define mid where "mid = low + (high - low) div 2"
    have mid: "low \<le> mid" "mid < high" "mid < length vs"
      using True "1.prems" by (auto simp: mid_def)
    note unfold = in_search_step [OF True mid_def]
    consider "vs ! mid < x" | "vs ! mid > x" | "vs ! mid = x" by (meson linorder_cases)
    then show ?thesis
    proof cases
      case 1
      have "mid + 1 \<le> i \<and> low \<le> i" if "vs ! i = x" for i
        using sorted_below [OF "1.prems"(1) mid(3) 1, of i] that mid(1) by (cases "i \<le> mid") auto
      then have same: "(\<exists>i. mid + 1 \<le> i \<and> i < high \<and> vs ! i = x) = (\<exists>i. low \<le> i \<and> i < high \<and> vs ! i = x)"
        by (intro ex_cong1) blast
      have "meets (in_search x vs (mid + 1) high) (Ok (VBool (\<exists>i. low \<le> i \<and> i < high \<and> vs ! i = x)))"
        using "1.IH"(1) [OF True mid_def refl] 1 "1.prems" same by simp
      with 1 show ?thesis unfolding unfold by (intro meets_charged) simp
    next
      case 2
      have "i < mid \<longleftrightarrow> i < high" if "vs ! i = x" for i
        using sorted_above [OF "1.prems"(1) _ 2, of i] that "1.prems"(2) mid(2) by (cases "mid \<le> i") auto
      then have same: "(\<exists>i. low \<le> i \<and> i < mid \<and> vs ! i = x) = (\<exists>i. low \<le> i \<and> i < high \<and> vs ! i = x)"
        by (intro ex_cong1) blast
      have "meets (in_search x vs low mid) (Ok (VBool (\<exists>i. low \<le> i \<and> i < high \<and> vs ! i = x)))"
        using "1.IH"(2) [OF True mid_def refl] 2 "1.prems" mid same by simp
      moreover have "\<not> vs ! mid < x" using 2 by (rule less_not_sym)
      ultimately show ?thesis using 2 unfolding unfold by (intro meets_charged) simp
    next
      case 3
      with mid have found: "(\<exists>i. low \<le> i \<and> i < high \<and> vs ! i = x) = True" by auto
      from 3 show ?thesis unfolding unfold found by (intro meets_charged) simp
    qed
  qed
qed

lemma meets_in:
  "sorted vs \<Longrightarrow> meets (in_search x vs 0 (length vs)) (Ok (VBool (x \<in> set vs)))"
  using meets_in_search [of vs "length vs" x 0] by (simp add: in_set_conv_nth conj_commute)

section \<open>The interpreter computes the meaning\<close>

lemma cmp_simps [simp]:
  "cmp a b = OEqual \<longleftrightarrow> a = b" "cmp a b = OLess \<longleftrightarrow> a < b" "cmp a b = OGreater \<longleftrightarrow> b < a"
  by (auto simp: cmp_def)

lemma order_result_compare: "order_result f (cmp a b) = denote_compare f a b"
  by (cases f) (auto simp: order_result_def denote_compare_def not_less)

lemma meets_compare_bind:
  "f \<notin> {OpAnd, OpOr, OpIn} \<Longrightarrow>
   meets (abind (compare_values left right) (\<lambda>order. alift (order_result f order)))
     (denote_binary f left right)"
proof -
  assume f: "f \<notin> {OpAnd, OpOr, OpIn}"
  have ret: "meets (abind (areturn v) g) d" if "meets (g v) d"
    for v :: ordering and g :: "ordering \<Rightarrow> (run_state, val, evaluation_error) action" and d
    using meets_abind [OF meets_return, of v g "\<lambda>_. d"] that by simp
  have chg: "meets (abind (abind (run_charge n) (\<lambda>_. areturn v)) g) d" if "meets (g v) d"
    for n and v :: ordering and g :: "ordering \<Rightarrow> (run_state, val, evaluation_error) action" and d
    using meets_abind [OF meets_charged [of "\<lambda>_. areturn v" "Ok v" n], of g "\<lambda>_. d"] that by simp
  have rse: "meets (abind (araise e) g) (Err e)" for e and g :: "ordering \<Rightarrow> (run_state, val, evaluation_error) action"
    by (simp add: meets_def action_defs)
  show ?thesis
    using f by (cases left; cases right)
      (auto simp: compare_values_def denote_binary_def order_result_compare intro!: ret chg rse)
qed

lemma meets_run_binary:
  assumes "\<And>vs. right = VStrings vs \<Longrightarrow> sorted vs"
  shows "meets (run_binary f left right) (denote_binary f left right)"
proof (cases "f \<in> {OpAnd, OpOr, OpIn}")
  case False
  then show ?thesis using meets_compare_bind by (simp add: run_binary_def)
next
  case True
  then show ?thesis
    using assms by (cases left; cases right) (auto simp: run_binary_def denote_binary_def intro: meets_in)
qed

lemma meets_run_method: "meets (run_method f lit v) (denote_method f lit v)"
  by (cases v) (auto simp: run_method_def denote_method_def starts_with_iff_prefix ends_with_iff_suffix
      str_contains_iff_sublist intro!: meets_charged)

lemma meets_run_not: "meets (run_not v) (denote_not v)"
  by (cases v) (simp_all add: run_not_def denote_not_def)

lemma meets_run_negate: "meets (run_negate v) (denote_negate v)"
  by (cases v) (simp_all add: run_negate_def denote_negate_def i64_checked_neg_def alift_def meets_def araise_def)

definition sorted_lists :: "bindings \<Rightarrow> bool" where
  "sorted_lists B \<longleftrightarrow> (\<forall>k vs. b_value B k = Ok (VStrings vs) \<longrightarrow> sorted vs)"

lemma denote_method_bool: "denote_method f lit v = Ok w \<Longrightarrow> \<exists>b. w = VBool b"
  by (auto simp: denote_method_def split: val.splits if_splits)

lemma denote_compare_bool: "denote_compare f a b = Ok w \<Longrightarrow> \<exists>c. w = VBool c"
  by (auto simp: denote_compare_def split: func.splits)

lemma denote_binary_bool: "denote_binary f a b = Ok w \<Longrightarrow> \<exists>c. w = VBool c"
  by (auto simp: denote_binary_def split: val.splits if_splits dest: denote_compare_bool)

lemma denote_not_bool: "denote_not v = Ok w \<Longrightarrow> \<exists>c. w = VBool c"
  by (cases v) (auto simp: denote_not_def)

lemma denote_negate_int: "denote_negate v = Ok w \<Longrightarrow> \<exists>i. w = VInt i"
  by (cases v) (auto simp: denote_negate_def split: if_splits)

lemma denote_strings:
  "denote B e = Ok (VStrings vs) \<Longrightarrow> \<exists>k. b_value B k = Ok (VStrings vs)"
proof (induction e rule: expr_shape_induct)
  case (Literal lit)
  then show ?case by (cases lit) auto
qed (auto simp: rbind_Ok_iff split: option.splits if_splits
      dest: denote_method_bool denote_binary_bool denote_not_bool denote_negate_int)

lemma meets_run_inner_run: "meets (run_inner B e) d \<Longrightarrow> meets (run B e) d"
  by (simp add: run.simps meets_record)

lemma meets_run_inner:
  assumes "sorted_lists B"
  shows "meets (run_inner B e) (denote B e)"
proof (induction e rule: expr_shape_induct)
  case (Literal lit)
  show ?case by (cases lit) (auto intro!: meets_charged)
next
  case (Method t f args)
  show ?case
    by (auto intro!: meets_charged meets_abind meets_run_method meets_run_inner_run Method)
next
  case (Unary f v)
  show ?case
    by (auto intro!: meets_charged meets_abind meets_run_not meets_run_negate meets_run_inner_run Unary)
next
  case (Binary f l r)
  show ?case
  proof (cases "binding_key (ECall None f [l, r]) (b_name B)")
    case (Some key)
    then show ?thesis by (auto intro!: meets_charged)
  next
    case None
    have right: "meets (run_binary f left right) (denote_binary f left right)"
      if "denote B r = Ok right" for left right
      using that assms denote_strings [of B r] by (intro meets_run_binary) (auto simp: sorted_lists_def)
    have "meets (abind (run B l) (\<lambda>left.
            if f = OpAnd \<and> left = VBool False then areturn (VBool False)
            else if f = OpOr \<and> left = VBool True then areturn (VBool True)
            else abind (run B r) (run_binary f left)))
          (rbind (denote B l) (\<lambda>left.
            if f = OpAnd \<and> left = VBool False then Ok (VBool False)
            else if f = OpOr \<and> left = VBool True then Ok (VBool True)
            else rbind (denote B r) (denote_binary f left)))"
      by (rule meets_abind [OF meets_run_inner_run [OF Binary(1)]])
        (auto intro!: meets_abind [OF meets_run_inner_run [OF Binary(2)]] right)
    with None show ?thesis by (auto intro: meets_charged)
  qed
qed (auto intro!: meets_charged)

lemma meets_run: "sorted_lists B \<Longrightarrow> meets (run B e) (denote B e)"
  by (intro meets_run_inner_run meets_run_inner)

section \<open>The static check computes the typing\<close>

text \<open>Adding the evidence of one key.\<close>

definition add_evidence :: "bindings \<Rightarrow> string \<Rightarrow> (string, ident) btree_map \<Rightarrow> (string, ident) btree_map" where
  "add_evidence B key ev = (case b_evidence B key of None \<Rightarrow> ev | Some k \<Rightarrow> bt_insert (as_str k) k ev)"

lemma check_charge_Ok:
  "check_charge n s = (Ok u, s') \<Longrightarrow> cs_evidence s' = cs_evidence s \<and> m_limits (cs_meter s') = m_limits (cs_meter s)"
  by (auto simp: check_charge_def meter_le_def split: prod.splits dest!: charge_meter_le)

lemma check_enter_Ok:
  "check_enter depth s = (Ok u, s') \<Longrightarrow> cs_evidence s' = cs_evidence s"
  by (auto simp: check_enter_def Let_def split: if_splits dest!: check_charge_Ok elim!: abind_Ok)

lemma insert_evidence_Ok:
  "insert_evidence (b_evidence B key) s = (Ok u, s') \<Longrightarrow> cs_evidence s' = add_evidence B key (cs_evidence s)"
  by (auto simp: insert_evidence_def add_evidence_def Let_def split: option.splits if_splits)

lemma check_binding_Ok:
  assumes "check_binding B key depth s = (Ok ty, s')"
  shows "b_type_of B key = Ok ty \<and> is_ok (identifier_new key) \<and>
    cs_evidence s' = add_evidence B key (cs_evidence s)"
proof -
  from assms have ident: "is_ok (identifier_new key)"
    by (auto simp: check_binding_def Let_def split: if_splits)
  from assms have
    "abind (check_charge (length key + 2)) (\<lambda>_.
     abind (alift (b_type_of B key)) (\<lambda>ty.
     abind (insert_evidence (b_evidence B key)) (\<lambda>_. areturn ty))) (s\<lparr>cs_nodes := cs_nodes s + 2\<rparr>) = (Ok ty, s')"
    by (simp add: check_binding_def Let_def split: if_splits)
  then obtain s2 where s2: "check_charge (length key + 2) (s\<lparr>cs_nodes := cs_nodes s + 2\<rparr>) = (Ok (), s2)"
    and ty: "b_type_of B key = Ok ty" and s': "insert_evidence (b_evidence B key) s2 = (Ok (), s')"
    by (elim abind_Ok) (simp add: alift_def areturn_def)
  from check_charge_Ok [OF s2] insert_evidence_Ok [OF s'] ty ident show ?thesis by simp
qed

lemma check_Ok:
  "check B e depth s = (Ok ty, s') \<Longrightarrow>
   typing B e = Some ty \<and>
   cs_evidence s' = fold (add_evidence B) (keys_of (b_name B) e) (cs_evidence s)"
proof (induction e arbitrary: depth s s' ty rule: expr_shape_induct)
  case (Literal lit)
  then show ?case
    by (cases lit) (auto simp: check_literal_def split: if_splits elim!: abind_Ok dest!: check_enter_Ok)
next
  case (Method t f args)
  from Method.prems show ?case
    by (auto simp: areturn_def araise_def alift_def split: if_splits elim!: abind_Ok
        dest!: check_enter_Ok Method.IH)
next
  case (Unary f v)
  from Unary.prems show ?case
    by (auto simp: areturn_def araise_def split: if_splits elim!: abind_Ok
        dest!: check_enter_Ok Unary.IH)
next
  case (Binary f l r)
  show ?case
  proof (cases "binding_key (ECall None f [l, r]) (b_name B)")
    case (Some key)
    with Binary.prems show ?thesis
      by (auto elim!: abind_Ok dest!: check_enter_Ok check_binding_Ok)
  next
    case None
    with Binary.prems show ?thesis
      by (auto simp: areturn_def araise_def split: if_splits elim!: abind_Ok
          dest!: check_enter_Ok Binary.IH)
  qed
qed (auto simp: araise_def elim!: abind_Ok)

text \<open>A typed expression uses only keys the binding types, as identifiers.\<close>

lemma typing_keys:
  "typing B e = Some ty \<Longrightarrow> k \<in> set (keys_of (b_name B) e) \<Longrightarrow> \<exists>t. b_type_of B k = Ok t"
  by (induction e arbitrary: ty rule: expr_shape_induct)
    (auto split: option.splits if_splits result.splits)

section \<open>Type soundness\<close>

text \<open>What a well-typed expression may denote.\<close>

definition key_missing :: "bindings \<Rightarrow> expr \<Rightarrow> bool" where
  "key_missing B e \<longleftrightarrow> list_ex (\<lambda>k. b_value B k = Err UnavailableFact) (keys_of (b_name B) e)"

definition sound :: "bindings \<Rightarrow> expr \<Rightarrow> ty \<Rightarrow> bool" where
  "sound B e ty \<longleftrightarrow>
     (case denote B e of
        Ok v \<Rightarrow> val_type v = ty
      | Err x \<Rightarrow> (x = UnavailableFact \<and> key_missing B e) \<or> (x = TypeMismatch \<and> neg_overflow B e))"

lemma method_call_Ok:
  "method_call (Some t) f args = Ok (t', lit) \<Longrightarrow>
   t' = t \<and> f \<in> {Named ''startsWith'', Named ''endsWith'', Named ''contains''} \<and>
   args = [ELiteral (LString lit)] \<and> length lit \<le> LITERAL_BYTES"
  by (auto simp: method_call_def is_method_def METHODS_def
      split: list.splits expr.splits literal.splits if_splits func.splits)

lemma sound_Method:
  assumes "sound B t TString" "method_call (Some t) f args = Ok (t', lit)"
  shows "sound B (ECall (Some t) f args) TBool"
proof (cases "denote B t")
  case (Ok v)
  with assms(1) obtain w where "v = VString w" by (cases v) (auto simp: sound_def)
  with Ok assms(2) method_call_Ok [OF assms(2)] show ?thesis
    by (auto simp: sound_def denote_method_def)
next
  case (Err x)
  with assms show ?thesis by (auto simp: sound_def key_missing_def)
qed

lemma sound_Not:
  assumes "sound B v TBool" shows "sound B (ECall None OpNot [v]) TBool"
proof (cases "denote B v")
  case (Ok w)
  with assms show ?thesis by (cases w) (auto simp: sound_def denote_not_def)
qed (use assms in \<open>auto simp: sound_def key_missing_def\<close>)

lemma sound_Negate:
  assumes "sound B v TInt" shows "sound B (ECall None OpNegate [v]) TInt"
proof (cases "denote B v")
  case (Ok w)
  with assms show ?thesis by (cases w) (auto simp: sound_def denote_negate_def)
qed (use assms in \<open>auto simp: sound_def key_missing_def\<close>)

lemma denote_binary_typed:
  "f \<in> set binary_ops \<Longrightarrow> binary_valid f (val_type a) (val_type b) \<Longrightarrow>
   \<exists>c. denote_binary f a b = Ok (VBool c)"
  by (cases a; cases b)
    (auto simp: binary_ops_def binary_valid_def denote_binary_def denote_compare_def split: if_splits)

lemma sound_Binary:
  assumes "sound B l left" "sound B r right" "f \<in> set binary_ops" "binary_valid f left right"
    and key: "binding_key (ECall None f [l, r]) (b_name B) = None"
  shows "sound B (ECall None f [l, r]) TBool"
proof (cases "denote B l")
  case (Err x)
  with assms(1) key show ?thesis by (auto simp: sound_def key_missing_def)
next
  case (Ok a)
  note left = this
  show ?thesis
  proof (cases "denote B r")
    case (Err x)
    with left assms(2) key show ?thesis by (auto simp: sound_def key_missing_def)
  next
    case (Ok b)
    with assms left have "val_type a = left" "val_type b = right" by (auto simp: sound_def)
    with denote_binary_typed [of f a b] assms obtain c where "denote_binary f a b = Ok (VBool c)" by auto
    with Ok left key show ?thesis by (simp add: sound_def)
  qed
qed

lemma typing_Binary:
  assumes "typing B (ECall None f [l, r]) = Some ty" "binding_key (ECall None f [l, r]) (b_name B) = None"
  obtains left right where "typing B l = Some left" "typing B r = Some right"
    "f \<in> set binary_ops" "binary_valid f left right" "ty = TBool"
  using assms by (auto split: option.splits if_splits)

text \<open>The contract of a binding: a typed key has a value of its type or is missing, and list
  values are sorted.\<close>

locale bindings_law =
  fixes B :: "'s \<Rightarrow> bindings"
    and wf :: "'s \<Rightarrow> bool"
  assumes typed_value:
      "wf s \<Longrightarrow> b_type_of (B s) k = Ok t \<Longrightarrow>
       b_value (B s) k = Err UnavailableFact \<or> (\<exists>v. b_value (B s) k = Ok v \<and> val_type v = t)"
    and sorted_value: "wf s \<Longrightarrow> b_value (B s) k = Ok (VStrings vs) \<Longrightarrow> sorted vs"
begin

lemma typing_sound: "wf s \<Longrightarrow> typing (B s) e = Some ty \<Longrightarrow> sound (B s) e ty"
proof (induction e arbitrary: ty rule: expr_shape_induct)
  case (Literal lit)
  then show ?case by (cases lit) (auto simp: sound_def)
next
  case (Method t f args)
  then show ?case by (auto simp: is_ok_iff split: if_splits intro!: sound_Method)
next
  case (Unary f v)
  then show ?case by (auto split: if_splits intro!: sound_Not sound_Negate)
next
  case (Binary f l r)
  show ?case
  proof (cases "binding_key (ECall None f [l, r]) (b_name (B s))")
    case (Some key)
    then have "b_type_of (B s) key = Ok ty" using Binary.prems by (auto split: result.splits)
    with typed_value [OF Binary.prems(1)] Some show ?thesis
      by (fastforce simp: sound_def key_missing_def)
  next
    case None
    obtain left right where "typing (B s) l = Some left" "typing (B s) r = Some right"
      "f \<in> set binary_ops" "binary_valid f left right" "ty = TBool"
      using typing_Binary [OF Binary.prems(2) None] by blast
    with Binary.IH Binary.prems(1) None show ?thesis by (simp add: sound_Binary)
  qed
qed auto

lemma sorted_lists: "wf s \<Longrightarrow> sorted_lists (B s)"
  by (auto simp: sorted_lists_def intro: sorted_value)

text \<open>A run of a checked expression gives a value of the checked type, or stops for one of the
  reasons that remain.\<close>

lemma run_checked:
  assumes "wf s" and "typing (B s) e = Some ty" and "run (B s) e st = (r, st')"
  shows "(\<exists>v. r = Ok v \<and> denote (B s) e = Ok v \<and> val_type v = ty) \<or>
    (\<exists>x \<in> meter_errors. r = Err x) \<or>
    (r = Err UnavailableFact \<and> key_missing (B s) e) \<or>
    (r = Err TypeMismatch \<and> neg_overflow (B s) e)"
proof -
  have "r = denote (B s) e \<or> (\<exists>x \<in> meter_errors. r = Err x)"
    using meets_run [OF sorted_lists [OF assms(1)], of e] assms(3) unfolding meets_def
    by (metis fst_conv)
  with typing_sound [OF assms(1,2)] show ?thesis
    by (auto simp: sound_def split: result.splits)
qed

end

section \<open>Metering\<close>

interpretation checked: frame "\<lambda>s s'. meter_step (cs_meter s) (cs_meter s')"
  by unfold_locales (auto intro: metered.frame_refl metered.frame_trans)

interpretation ran: frame "\<lambda>s s'. meter_step (fst s) (fst s')"
  by unfold_locales (auto intro: metered.frame_refl metered.frame_trans)

lemma keeps_check_charge [intro, simp]: "checked.keeps (check_charge n)"
  using keeps_charge [of n]
  by (auto simp: checked.keeps_def metered.keeps_def check_charge_def split: prod.splits) (metis snd_conv)

lemma keeps_run_charge [intro, simp]: "ran.keeps (run_charge n)"
  using keeps_charge [of n]
  by (auto simp: ran.keeps_def metered.keeps_def run_charge_def split: prod.splits) (metis snd_conv)

lemma keeps_check_enter [intro, simp]: "checked.keeps (check_enter d)"
  unfolding check_enter_def
  by (rule checked.keeps_abind, rule keeps_check_charge)
    (simp add: checked.keeps_def Let_def metered.frame_refl)

lemma keeps_check_parts [intro, simp]:
  "checked.keeps (check_literal lit)" "checked.keeps (insert_evidence i)"
  by (auto simp: checked.keeps_def check_literal_def insert_evidence_def Let_def metered.frame_refl
      split: literal.splits option.splits)

lemma keeps_check_binding [intro, simp]: "checked.keeps (check_binding B key d)"
proof -
  define rest where "rest = abind (check_charge (length key + 2)) (\<lambda>_.
        abind (alift (b_type_of B key)) (\<lambda>ty.
        abind (insert_evidence (b_evidence B key)) (\<lambda>_. areturn ty)))"
  have "checked.keeps rest" unfolding rest_def by (intro checked.keeps_abind) simp_all
  then have "meter_step (cs_meter s) (cs_meter (snd (rest (s\<lparr>cs_nodes := cs_nodes s + 2\<rparr>))))" for s
    unfolding checked.keeps_def by (drule_tac spec [of _ "s\<lparr>cs_nodes := cs_nodes s + 2\<rparr>"]) simp
  then show ?thesis
    unfolding checked.keeps_def check_binding_def rest_def [symmetric]
    by (simp add: Let_def metered.frame_refl)
qed

lemma keeps_check: "checked.keeps (check B e d)"
proof (induction e arbitrary: d rule: expr_shape_induct)
  case (Binary f l r)
  then show ?case
    by (cases "binding_key (ECall None f [l, r]) (b_name B)") (auto intro!: checked.keeps_abind)
qed (auto intro!: checked.keeps_abind)

lemma keeps_in_search: "ran.keeps (in_search x vs low high)"
proof (induction x vs low high rule: in_search.induct)
  case (1 x vs low high)
  then show ?case
    by (subst in_search.simps) (auto simp: Let_def intro!: ran.keeps_abind)
qed

lemma keeps_run_parts [intro, simp]:
  "ran.keeps (run_not v)" "ran.keeps (run_negate v)" "ran.keeps (run_record e n w)"
  by (cases v; simp add: run_not_def run_negate_def ran.keeps_def run_record_def action_defs
      metered.frame_refl)+

lemma keeps_run_method [intro, simp]: "ran.keeps (run_method f lit v)"
  by (cases v) (simp_all add: run_method_def ran.keeps_abind)

lemma keeps_compare_values [intro, simp]: "ran.keeps (compare_values a b)"
  by (cases a; cases b) (simp_all add: compare_values_def ran.keeps_abind)

lemma keeps_run_binary [intro, simp]: "ran.keeps (run_binary f a b)"
proof (cases "f \<in> {OpAnd, OpOr, OpIn}")
  case True
  then show ?thesis by (cases a; cases b) (auto simp: run_binary_def intro: keeps_in_search)
next
  case False
  then show ?thesis by (simp add: run_binary_def ran.keeps_abind)
qed

lemma keeps_run_inner_run: "ran.keeps (run_inner B e) \<Longrightarrow> ran.keeps (run B e)"
  by (auto simp: run.simps)

lemma keeps_run_inner: "ran.keeps (run_inner B e)"
proof (induction e rule: expr_shape_induct)
  case (Literal lit)
  show ?case by (cases lit) (auto intro!: ran.keeps_abind)
next
  case (Binary f l r)
  then show ?case
    by (cases "binding_key (ECall None f [l, r]) (b_name B)")
      (auto intro!: ran.keeps_abind keeps_run_inner_run)
qed (auto intro!: ran.keeps_abind keeps_run_inner_run)

lemma keeps_run: "ran.keeps (run B e)"
  by (intro keeps_run_inner_run keeps_run_inner)

lemma keeps_scan_string: "metered.keeps (scan_string src q i)"
proof (induction src q i rule: scan_string.induct)
  case (1 src q i)
  then show ?case by (subst scan_string.simps) (auto intro!: metered.keeps_abind)
qed

lemma meter_step_abind:
  assumes "meter_step m (snd (a m))" and "\<And>x m1. a m = (Ok x, m1) \<Longrightarrow> meter_step m1 (snd (f x m1))"
  shows "meter_step m (snd (abind a f m))"
proof (cases "a m")
  case (Pair r m1)
  with assms show ?thesis
    by (cases r) (auto simp: abind_def intro: metered.frame_trans)
qed

lemma skip_while_progress:
  "i < length src \<Longrightarrow> is_ascii_alphabetic (src ! i) \<or> src ! i = CHR ''_'' \<Longrightarrow> i < skip_while word_char src i"
  "i < length src \<Longrightarrow> is_ascii_digit (src ! i) \<Longrightarrow> i < skip_while is_ascii_digit src i"
  by (auto intro!: skip_while_gt simp: word_char_def is_ascii_alphanumeric_def)

lemma preflight_step: "meter_step m (snd (preflight_loop src name i tokens nesting m))"
proof (induction "length src - i" arbitrary: i tokens nesting m rule: less_induct)
  case less
  show ?case
  proof (cases "i < length src")
    case False
    then show ?thesis by (simp add: preflight_loop.simps [of src name i] metered.frame_refl)
  next
    case True
    have IH: "meter_step m' (snd (preflight_loop src name j t n m'))" if "i < j" for j t n m'
      using less [of j] that True by simp
    have charge: "meter_step m (snd (charge 0 m))" using keeps_charge by (simp add: metered.keeps_def)
    have scan: "meter_step m' (snd (abind (scan_string src q (Suc i)) (\<lambda>j m. preflight_loop src name j t n m) m'))"
      for q t n m'
    proof (rule meter_step_abind)
      show "meter_step m' (snd (scan_string src q (Suc i) m'))"
        using keeps_scan_string by (simp add: metered.keeps_def)
      show "meter_step m1 (snd (preflight_loop src name j t n m1))"
        if "scan_string src q (Suc i) m' = (Ok j, m1)" for j m1
        using scan_string_gt [OF that] by (intro IH) simp
    qed
    note progress = skip_while_progress [OF True]
    show ?thesis
      unfolding preflight_loop.simps [of src name i] if_P [OF True]
      by (rule meter_step_abind, rule charge)
        (simp add: Let_def metered.frame_refl IH scan progress split: nat.split)
  qed
qed
lemma keeps_preflight [intro, simp]: "metered.keeps (preflight src name)"
  by (simp add: metered.keeps_def preflight_def preflight_step)

lemma keeps_parse: "metered.keeps (parse cel src name)"
proof -
  have rest: "metered.keeps (abind (charge (length src)) (\<lambda>_. abind (preflight src name) (\<lambda>_ m.
        case cel (expression_depth (m_limits m) mod 65536) (expression_nodes (m_limits m)) src of
          None \<Rightarrow> (Err InvalidExpression, m)
        | Some ast \<Rightarrow> abind (charge 0) (\<lambda>_. areturn ast) m)))"
  proof (intro metered.keeps_abind keeps_charge keeps_preflight)
    have "metered.keeps (abind (charge 0) (\<lambda>_. areturn ast))" for ast :: expr
      by (intro metered.keeps_abind) auto
    then show "metered.keeps (\<lambda>m.
        case cel (expression_depth (m_limits m) mod 65536) (expression_nodes (m_limits m)) src of
          None \<Rightarrow> (Err InvalidExpression, m)
        | Some ast \<Rightarrow> abind (charge 0) (\<lambda>_. areturn ast) m)"
      by (simp add: metered.keeps_def metered.frame_refl split: option.split)
  qed
  then show ?thesis
    unfolding metered.keeps_def parse_def by (simp add: metered.frame_refl)
qed

section \<open>Evaluating a source\<close>

lemma subset_evaluate_step: "meter_step m (snd (subset_evaluate cel E src B bundle m))"
  unfolding subset_evaluate_def
proof (rule meter_step_abind)
  show "meter_step m (snd (parse cel src ''facts'' m))"
    using keeps_parse by (simp add: metered.keeps_def)
next
  fix ast m1
  obtain r cs where cs: "check B ast 1 \<lparr>cs_meter = m1, cs_nodes = 0, cs_evidence = []\<rparr> = (r, cs)"
    by (cases "check B ast 1 \<lparr>cs_meter = m1, cs_nodes = 0, cs_evidence = []\<rparr>")
  then have m1: "meter_step m1 (cs_meter cs)" using checked.keepsD [OF keeps_check cs] by simp
  obtain q rs where rs: "run B ast (cs_meter cs, trace_new) = (q, rs)"
    by (cases "run B ast (cs_meter cs, trace_new)")
  then have "meter_step (cs_meter cs) (fst rs)" using ran.keepsD [OF keeps_run rs] by simp
  with m1 have m2: "meter_step m1 (fst rs)" by (rule metered.frame_trans)
  have ch: "meter_step (fst rs) (snd (charge 0 (fst rs)))"
    using keeps_charge by (simp add: metered.keeps_def)
  have fin: "meter_step (fst rs) (snd (abind (charge 0) (\<lambda>_ m. g m) (fst rs)))"
    if "\<And>m. snd (g m) = m" for g :: "(meter, bool \<times> ident list \<times> detection option, evaluation_error) action"
    by (rule meter_step_abind [of "fst rs" "charge 0"]) (simp_all add: ch that metered.frame_refl)
  have "meter_step m1 (snd (abind (charge 0) (\<lambda>_ m. g m) (fst rs)))"
    if "\<And>m. snd (g m) = m" for g :: "(meter, bool \<times> ident list \<times> detection option, evaluation_error) action"
    using m2 fin [OF that] by (rule metered.frame_trans)
  then show "meter_step m1 (snd (case check B ast 1 \<lparr>cs_meter = m1, cs_nodes = 0, cs_evidence = []\<rparr> of
         (Err e, cs) \<Rightarrow> (Err e, cs_meter cs)
       | (Ok ty, cs) \<Rightarrow>
           if ty \<noteq> TBool then (Err NonBoolean, cs_meter cs)
           else
             (case run B ast (cs_meter cs, trace_new) of
                (Err e, rs) \<Rightarrow> (Err e, fst rs)
              | (Ok v, rs) \<Rightarrow>
                  abind (charge 0) (\<lambda>_ m.
                    case v of
                      VBool b \<Rightarrow>
                        (Ok (b, bt_values (cs_evidence cs),
                             if b then Some (finish E bundle ''facts'' (meter_remaining m) (snd rs))
                             else None), m)
                    | _ \<Rightarrow> (Err NonBoolean, m)) (fst rs))))"
    using m1 m2 unfolding cs by (cases r; cases q) (auto simp: rs split: val.split)
qed

text \<open>What a result says about the parsed expression.\<close>

lemma subset_evaluate_Ok:
  assumes "subset_evaluate cel E src B bundle m = (Ok (b, ev, d), m')"
  obtains ast m1 cs t m2 tr m3 where
    "parse cel src ''facts'' m = (Ok ast, m1)"
    "check B ast 1 \<lparr>cs_meter = m1, cs_nodes = 0, cs_evidence = []\<rparr> = (Ok TBool, cs)"
    "run B ast (cs_meter cs, trace_new) = (Ok (VBool b), (m2, tr))"
    "ev = bt_values (cs_evidence cs)"
    "d = (if b then Some (finish E bundle ''facts'' (meter_remaining m3) tr) else None)"
  using assms unfolding subset_evaluate_def
  by (elim abind_Ok) (auto split: prod.splits result.splits if_splits val.splits elim!: abind_Ok)

section \<open>Errors an action never gives\<close>

definition avoids :: "evaluation_error \<Rightarrow> ('s, 'a, evaluation_error) action \<Rightarrow> bool" where
  "avoids e m \<longleftrightarrow> (\<forall>s. fst (m s) \<noteq> Err e)"

lemma avoidsD: "avoids e m \<Longrightarrow> m s \<noteq> (Err e, t)"
  unfolding avoids_def by (metis fst_conv)

lemma avoids_basic [simp, intro]:
  "avoids e (areturn x)" "e \<noteq> e' \<Longrightarrow> avoids e (araise e')"
  by (simp_all add: avoids_def action_defs)

lemma avoids_abind [intro]: "avoids e m \<Longrightarrow> (\<And>x. avoids e (f x)) \<Longrightarrow> avoids e (abind m f)"
  by (auto simp: avoids_def abind_def split: prod.splits result.splits) (metis fst_conv)

lemma avoids_charge [simp, intro]: "e \<notin> meter_errors \<Longrightarrow> avoids e (charge n)"
  unfolding avoids_def by (metis charge_errors prod.collapse)

lemma avoids_scan_string: "avoids UnavailableFact (scan_string src q i)"
proof (induction src q i rule: scan_string.induct)
  case (1 src q i)
  then show ?case
    by (subst scan_string.simps) (auto simp: meter_errors_def intro!: avoids_abind)
qed

lemma abind_fst_Err: "fst (abind a f m) = Err e \<Longrightarrow> fst (a m) = Err e \<or> (\<exists>x m1. a m = (Ok x, m1) \<and> fst (f x m1) = Err e)"
  by (auto simp: abind_def split: prod.splits result.splits)

lemma preflight_avoids: "fst (preflight_loop src name i tokens nesting m) \<noteq> Err UnavailableFact"
proof (induction "length src - i" arbitrary: i tokens nesting m rule: less_induct)
  case less
  show ?case
  proof (cases "i < length src")
    case False
    then show ?thesis by (simp add: preflight_loop.simps [of src name i])
  next
    case True
    have IH: "fst (preflight_loop src name j t n m') \<noteq> Err UnavailableFact" if "i < j" for j t n m'
      using less [of j] that True by simp
    have scan: "fst (abind (scan_string src q (Suc i)) (\<lambda>j m. preflight_loop src name j t n m) m') \<noteq> Err UnavailableFact"
      for q t n m'
      using avoids_scan_string [of src q "Suc i"] scan_string_gt [of src q "Suc i" m'] IH
      by (auto simp: avoids_def dest!: abind_fst_Err)
    have charge: "fst (charge 0 m) \<noteq> Err UnavailableFact"
      using avoids_charge [of UnavailableFact 0] by (simp add: avoids_def meter_errors_def)
    note progress = skip_while_progress [OF True]
    show ?thesis
      unfolding preflight_loop.simps [of src name i] if_P [OF True]
      using charge by (auto simp: Let_def IH scan progress dest!: abind_fst_Err split: if_splits nat.splits)
  qed
qed

lemma parse_avoids: "fst (parse cel src name m) \<noteq> Err UnavailableFact"
proof -
  have c: "fst (charge n m) \<noteq> Err UnavailableFact" for n m
    using avoids_charge [of UnavailableFact n] by (simp add: avoids_def meter_errors_def)
  show ?thesis
    unfolding parse_def
    by (auto simp: c preflight_def preflight_avoids areturn_def dest!: abind_fst_Err split: option.splits)
qed

lemma parse_Ok:
  assumes "parse cel src name m = (Ok ast, m')"
  shows "cel (expression_depth (m_limits m) mod 65536) (expression_nodes (m_limits m)) src = Some ast"
proof -
  from assms obtain m1 m2 where "charge (length src) m = (Ok (), m1)" "preflight src name m1 = (Ok (), m2)"
    "cel (expression_depth (m_limits m2) mod 65536) (expression_nodes (m_limits m2)) src = Some ast"
    unfolding parse_def
    by (auto simp: areturn_def split: if_splits option.splits elim!: abind_Ok)
  moreover from this have "meter_step m m2"
    using keeps_charge keeps_preflight metered.frame_trans metered.keepsD by blast
  ultimately show ?thesis by (simp add: meter_step_def)
qed

text \<open>The check reports a missing value only for a key the expression indexes.\<close>

lemma check_charge_avoids: "fst (check_charge n s) \<noteq> Err UnavailableFact"
  using avoids_charge [of UnavailableFact n]
  by (auto simp: check_charge_def avoids_def meter_errors_def split: prod.splits) (metis fst_conv)

lemma check_parts_avoid:
  "fst (check_enter d s) \<noteq> Err UnavailableFact" "fst (check_literal lit s) \<noteq> Err UnavailableFact"
  "fst (insert_evidence i s) \<noteq> Err UnavailableFact"
proof -
  show "fst (check_enter d s) \<noteq> Err UnavailableFact"
    by (auto simp: check_enter_def Let_def check_charge_avoids dest!: abind_fst_Err split: if_splits)
  show "fst (check_literal lit s) \<noteq> Err UnavailableFact"
    by (auto simp: check_literal_def split: literal.splits)
  show "fst (insert_evidence i s) \<noteq> Err UnavailableFact"
    by (auto simp: insert_evidence_def Let_def split: option.splits)
qed

lemma check_binding_unavailable:
  assumes "fst (check_binding B key d s) = Err UnavailableFact"
  shows "b_type_of B key = Err UnavailableFact"
proof -
  show ?thesis
    using assms unfolding check_binding_def
    by (auto simp: Let_def check_charge_avoids check_parts_avoid alift_def areturn_def dest!: abind_fst_Err split: if_splits)
qed

lemma check_unavailable:
  "fst (check B e d s) = Err UnavailableFact \<Longrightarrow>
   \<exists>k \<in> set (keys_of (b_name B) e). b_type_of B k = Err UnavailableFact"
proof (induction e arbitrary: d s rule: expr_shape_induct)
  case (Method t f args)
  from Method.prems Method.IH show ?case
    by (auto simp: check_parts_avoid areturn_def araise_def alift_def method_call_def
        dest!: abind_fst_Err split: if_splits list.splits expr.splits literal.splits)
next
  case (Unary f v)
  from Unary.prems Unary.IH show ?case
    by (auto simp: check_parts_avoid areturn_def araise_def dest!: abind_fst_Err split: if_splits)
next
  case (Binary f l r)
  show ?case
  proof (cases "binding_key (ECall None f [l, r]) (b_name B)")
    case (Some key)
    with Binary.prems show ?thesis
      by (auto simp: check_parts_avoid dest!: abind_fst_Err check_binding_unavailable)
  next
    case None
    with Binary.prems obtain d' s' where
      "fst (check B l d' s') = Err UnavailableFact \<or> fst (check B r d' s') = Err UnavailableFact"
      by (auto simp: check_parts_avoid areturn_def araise_def dest!: abind_fst_Err split: if_splits)
    then have "(\<exists>k \<in> set (keys_of (b_name B) l). b_type_of B k = Err UnavailableFact) \<or>
        (\<exists>k \<in> set (keys_of (b_name B) r). b_type_of B k = Err UnavailableFact)"
      using Binary.IH by meson
    with None show ?thesis by auto
  qed
qed (auto simp: check_parts_avoid araise_def dest!: abind_fst_Err)

end
