(* ===== verification/Parsing.thy ===== *)
theory Parsing
  imports Rule_Syntax
begin

text \<open>
  Bounded parsing of envelopes and rule payloads: \<open>openvibes-rules/src/parsing.rs\<close>. The JSON and
  YAML readers (\<open>serde_json\<close>, \<open>serde_saphyr\<close>) and the derived deserializers are parameters: a
  reader turns bytes into the tree of values it would hand to the visitor, and the visitor that
  enforces the node, scalar, depth, list and duplicate-key budgets is modelled here.
\<close>

datatype load_error =
    LE_InvalidLimits | LE_DocumentTooLarge | LE_InvalidEnvelope | LE_InvalidMetadata
  | LE_InvalidTrustKey | LE_UntrustedIssuer | LE_WrongRuleSet | LE_InvalidContext
  | LE_DigestMismatch | LE_InvalidSignature | LE_NotYetValid | LE_Expired | LE_Rollback
  | LE_VersionConflict | LE_InvalidPayload | LE_InvalidRules

section \<open>Limits\<close>

definition within_ceiling :: "nat \<Rightarrow> nat \<Rightarrow> bool" where
  "within_ceiling actual ceiling \<longleftrightarrow> \<not> (actual = 0 \<or> actual > ceiling)"

definition validate_limits :: "resource_limits \<Rightarrow> (unit, load_error) result" where
  "validate_limits l =
     (if list_all (\<lambda>(actual, ceiling). within_ceiling actual ceiling)
           [(document_bytes l, document_bytes V1),
            (document_nesting_depth l, document_nesting_depth V1),
            (document_nodes l, document_nodes V1),
            (string_bytes l, string_bytes V1),
            (identifier_bytes l, identifier_bytes V1),
            (expression_bytes l, expression_bytes V1),
            (rules_per_set l, rules_per_set V1),
            (list_items l, list_items V1)]
         \<and> list_all (\<lambda>(actual, ceiling). \<not> actual > ceiling)
           [(yaml_alias_replay_events l, yaml_alias_replay_events V1),
            (yaml_alias_replay_depth l, yaml_alias_replay_depth V1),
            (yaml_alias_expansions_per_anchor l, yaml_alias_expansions_per_anchor V1)]
      then Ok () else Err LE_InvalidLimits)"

lemma validate_limits_V1 [simp]: "validate_limits V1 = Ok ()"
  by (simp add: validate_limits_def within_ceiling_def)

section \<open>The bounded visitor\<close>

text \<open>What a reader hands to the visitor. Numbers are opaque; \<open>JBad\<close> is a number the visitor
  refuses (not finite). Objects keep their keys in order, duplicates included.\<close>

datatype tree =
    JNull | JBoolean bool | JNumber int | JBad | JString string
  | JArray "tree list" | JObject "(string \<times> tree) list"

datatype position = PEnvelope | PRuleSet | PRules | PRule | POther

record budget =
  bu_limits :: resource_limits
  bu_nodes :: nat
  bu_scalar_bytes :: nat

definition budget_node :: "(budget, unit, unit) action" where
  "budget_node b =
     (if bu_nodes b = 0 then (Err (), b) else (Ok (), b\<lparr>bu_nodes := bu_nodes b - 1\<rparr>))"

definition budget_string :: "string \<Rightarrow> nat \<Rightarrow> (budget, unit, unit) action" where
  "budget_string v maximum b =
     (if length v > maximum then (Err (), b)
      else if bu_scalar_bytes b < length v then (Err (), b)
      else (Ok (), b\<lparr>bu_scalar_bytes := bu_scalar_bytes b - length v\<rparr>))"

definition seq_maximum :: "position \<Rightarrow> resource_limits \<Rightarrow> nat" where
  "seq_maximum pos l = (if pos = PRules then min (rules_per_set l) (list_items l) else list_items l)"

definition seq_position :: "position \<Rightarrow> position" where
  "seq_position pos = (if pos = PRules then PRule else POther)"

definition map_position :: "position \<Rightarrow> string \<Rightarrow> position" where
  "map_position pos key = (if pos = PRuleSet \<and> key = ''rules'' then PRules else POther)"

definition map_string_limit :: "position \<Rightarrow> string \<Rightarrow> resource_limits \<Rightarrow> nat" where
  "map_string_limit pos key l =
     (if pos = PEnvelope \<and> key = ''payload'' then document_bytes l
      else if pos = PRule \<and> key = ''expression'' then expression_bytes l
      else string_bytes l)"

text \<open>\<open>visit\<close> is \<open>Node::deserialize\<close> with the visitor's methods; \<open>visit_seq\<close> and \<open>visit_map\<close> are the
  loops over what has been read so far.\<close>

fun visit :: "nat \<Rightarrow> position \<Rightarrow> nat \<Rightarrow> tree \<Rightarrow> budget \<Rightarrow> (tree, unit) result \<times> budget"
  and visit_seq :: "nat \<Rightarrow> position \<Rightarrow> nat \<Rightarrow> tree list \<Rightarrow> budget \<Rightarrow> (tree list, unit) result \<times> budget"
  and visit_map ::
    "nat \<Rightarrow> position \<Rightarrow> string list \<Rightarrow> (string \<times> tree) list \<Rightarrow> budget \<Rightarrow>
     ((string \<times> tree) list, unit) result \<times> budget" where
  "visit depth pos slim t b =
     abind budget_node (\<lambda>_ b.
       case t of
         JNull \<Rightarrow> (Ok JNull, b)
       | JBoolean v \<Rightarrow> (Ok (JBoolean v), b)
       | JNumber v \<Rightarrow> (Ok (JNumber v), b)
       | JBad \<Rightarrow> (Err (), b)
       | JString v \<Rightarrow> abind (budget_string v slim) (\<lambda>_ b. (Ok (JString v), b)) b
       | JArray ts \<Rightarrow>
           if depth \<ge> document_nesting_depth (bu_limits b) then (Err (), b)
           else abind (visit_seq depth pos 0 ts) (\<lambda>vs b. (Ok (JArray vs), b)) b
       | JObject kvs \<Rightarrow>
           if depth \<ge> document_nesting_depth (bu_limits b) then (Err (), b)
           else abind (visit_map depth pos [] kvs) (\<lambda>vs b. (Ok (JObject vs), b)) b) b"
| "visit_seq depth pos n [] b = (Ok [], b)"
| "visit_seq depth pos n (t # ts) b =
     abind (\<lambda>b. visit (Suc depth) (seq_position pos) (string_bytes (bu_limits b)) t b) (\<lambda>v b.
       if n = seq_maximum pos (bu_limits b) then (Err (), b)
       else abind (visit_seq depth pos (Suc n) ts) (\<lambda>vs b. (Ok (v # vs), b)) b) b"
| "visit_map depth pos keys [] b = (Ok [], b)"
| "visit_map depth pos keys ((k, t) # kvs) b =
     abind budget_node (\<lambda>_.
     abind (\<lambda>b. budget_string k (string_bytes (bu_limits b)) b) (\<lambda>_ b.
       if length keys \<ge> list_items (bu_limits b) \<or> k \<in> set keys then (Err (), b)
       else
         abind (\<lambda>b. visit (Suc depth) (map_position pos k) (map_string_limit pos k (bu_limits b)) t b)
           (\<lambda>v. abind (visit_map depth pos (k # keys) kvs) (\<lambda>vs b. (Ok ((k, v) # vs), b))) b)) b"

declare visit.simps [simp del]

section \<open>Parsing documents\<close>

text \<open>A reader per encoding: \<open>None\<close> when the bytes are malformed, carry trailing content, or (YAML)
  are not UTF-8 or break the YAML budget.\<close>

record readers =
  rd_json :: "resource_limits \<Rightarrow> string \<Rightarrow> tree option"
  rd_yaml :: "resource_limits \<Rightarrow> string \<Rightarrow> tree option"
  rd_envelope :: "tree \<Rightarrow> signed_rule_envelope option"
  rd_rules :: "tree \<Rightarrow> rule_set option"

definition parse_document ::
  "readers \<Rightarrow> string \<Rightarrow> payload_encoding \<Rightarrow> resource_limits \<Rightarrow> position \<Rightarrow> (tree, load_error) result" where
  "parse_document R bytes enc l pos =
     (if length bytes > document_bytes l then Err LE_DocumentTooLarge
      else
        (case (case enc of Json \<Rightarrow> rd_json R l bytes | Yaml \<Rightarrow> rd_yaml R l bytes) of
           None \<Rightarrow> Err LE_InvalidPayload
         | Some t \<Rightarrow>
             (case visit 0 pos (string_bytes l) t
                \<lparr>bu_limits = l, bu_nodes = document_nodes l, bu_scalar_bytes = document_bytes l\<rparr> of
                (Ok v, _) \<Rightarrow> Ok v
              | (Err _, _) \<Rightarrow> Err LE_InvalidPayload)))"

definition parse_envelope ::
  "readers \<Rightarrow> string \<Rightarrow> resource_limits \<Rightarrow> (signed_rule_envelope, load_error) result" where
  "parse_envelope R bytes l =
     rbind (map_err (\<lambda>e. if e = LE_DocumentTooLarge then e else LE_InvalidEnvelope)
              (parse_document R bytes Json l PEnvelope))
       (\<lambda>v. ok_or LE_InvalidEnvelope (rd_envelope R v))"

definition parse_rules ::
  "readers \<Rightarrow> string \<Rightarrow> payload_encoding \<Rightarrow> resource_limits \<Rightarrow> (rule_set, load_error) result" where
  "parse_rules R payload enc l =
     rbind (parse_document R payload enc l PRuleSet) (\<lambda>v. ok_or LE_InvalidRules (rd_rules R v))"

lemmas parsing_evals [evals] =
  within_ceiling_def validate_limits_def budget_node_def budget_string_def seq_maximum_def
  seq_position_def map_position_def map_string_limit_def parse_document_def parse_envelope_def
  parse_rules_def visit.simps

section \<open>What the visitor accepts\<close>

text \<open>The budgets of a document stated on its tree: the nodes (keys count as one each), the bytes of
  all strings and keys, and the shape every level has to keep.\<close>

fun tree_nodes :: "tree \<Rightarrow> nat" where
  "tree_nodes (JArray ts) = Suc (sum_list (map tree_nodes ts))"
| "tree_nodes (JObject kvs) = Suc (sum_list (map (\<lambda>(k, t). Suc (tree_nodes t)) kvs))"
| "tree_nodes t = 1"

fun tree_bytes :: "tree \<Rightarrow> nat" where
  "tree_bytes (JString s) = length s"
| "tree_bytes (JArray ts) = sum_list (map tree_bytes ts)"
| "tree_bytes (JObject kvs) = sum_list (map (\<lambda>(k, t). length k + tree_bytes t) kvs)"
| "tree_bytes t = 0"

fun tree_shape :: "resource_limits \<Rightarrow> nat \<Rightarrow> position \<Rightarrow> nat \<Rightarrow> tree \<Rightarrow> bool" where
  "tree_shape l depth pos slim JBad \<longleftrightarrow> False"
| "tree_shape l depth pos slim (JString s) \<longleftrightarrow> length s \<le> slim"
| "tree_shape l depth pos slim (JArray ts) \<longleftrightarrow>
     depth < document_nesting_depth l \<and> length ts \<le> seq_maximum pos l \<and>
     list_all (tree_shape l (Suc depth) (seq_position pos) (string_bytes l)) ts"
| "tree_shape l depth pos slim (JObject kvs) \<longleftrightarrow>
     depth < document_nesting_depth l \<and> length kvs \<le> list_items l \<and> distinct (map fst kvs) \<and>
     list_all (\<lambda>(k, t). length k \<le> string_bytes l \<and>
       tree_shape l (Suc depth) (map_position pos k) (map_string_limit pos k l) t) kvs"
| "tree_shape l depth pos slim t \<longleftrightarrow> True"

definition spend :: "nat \<Rightarrow> nat \<Rightarrow> budget \<Rightarrow> budget" where
  "spend n m b = b\<lparr>bu_nodes := bu_nodes b - n, bu_scalar_bytes := bu_scalar_bytes b - m\<rparr>"

definition affords :: "nat \<Rightarrow> nat \<Rightarrow> budget \<Rightarrow> bool" where
  "affords n m b \<longleftrightarrow> n \<le> bu_nodes b \<and> m \<le> bu_scalar_bytes b"

lemma spend_simps [simp]:
  "bu_limits (spend n m b) = bu_limits b" "spend 0 0 b = b" "affords 0 0 b"
  by (simp_all add: spend_def affords_def)

lemma spend_spend: "spend n m (spend n' m' b) = spend (n' + n) (m' + m) b"
  by (simp add: spend_def)

lemma affords_spend: "affords n' m' b \<Longrightarrow> affords n m (spend n' m' b) \<longleftrightarrow> affords (n' + n) (m' + m) b"
  by (auto simp: spend_def affords_def)

lemma budget_node_Ok: "budget_node b = (Ok u, b') \<longleftrightarrow> affords 1 0 b \<and> b' = spend 1 0 b"
  by (auto simp: budget_node_def affords_def spend_def)

lemma budget_string_Ok:
  "budget_string v m b = (Ok u, b') \<longleftrightarrow> length v \<le> m \<and> affords 0 (length v) b \<and> b' = spend 0 (length v) b"
  by (auto simp: budget_string_def affords_def spend_def)

lemma abind_Ok_iff: "abind m f s = (Ok y, s'') \<longleftrightarrow> (\<exists>x s'. m s = (Ok x, s') \<and> f x s' = (Ok y, s''))"
  by (auto simp: abind_def split: prod.splits result.splits)

definition map_nodes :: "(string \<times> tree) list \<Rightarrow> nat" where
  "map_nodes kvs = sum_list (map (\<lambda>(k, t). Suc (tree_nodes t)) kvs)"

definition map_bytes :: "(string \<times> tree) list \<Rightarrow> nat" where
  "map_bytes kvs = sum_list (map (\<lambda>(k, t). length k + tree_bytes t) kvs)"

lemma affords_mono: "affords n m b \<Longrightarrow> n' \<le> n \<Longrightarrow> m' \<le> m \<Longrightarrow> affords n' m' b"
  by (simp add: affords_def)

lemma visit_spec:
  "visit d pos slim t b = (Ok v, b') \<longleftrightarrow>
     v = t \<and> tree_shape (bu_limits b) d pos slim t \<and> affords (tree_nodes t) (tree_bytes t) b \<and>
     b' = spend (tree_nodes t) (tree_bytes t) b"
  and visit_seq_spec:
  "n \<le> seq_maximum pos (bu_limits b) \<Longrightarrow>
   visit_seq d pos n ts b = (Ok vs, b') \<longleftrightarrow>
     vs = ts \<and> n + length ts \<le> seq_maximum pos (bu_limits b) \<and>
     list_all (tree_shape (bu_limits b) (Suc d) (seq_position pos) (string_bytes (bu_limits b))) ts \<and>
     affords (sum_list (map tree_nodes ts)) (sum_list (map tree_bytes ts)) b \<and>
     b' = spend (sum_list (map tree_nodes ts)) (sum_list (map tree_bytes ts)) b"
  and visit_map_spec:
  "length keys \<le> list_items (bu_limits b) \<Longrightarrow>
   visit_map d pos keys kvs b = (Ok kvs', b') \<longleftrightarrow>
     kvs' = kvs \<and> length keys + length kvs \<le> list_items (bu_limits b) \<and>
     distinct (map fst kvs) \<and> fst ` set kvs \<inter> set keys = {} \<and>
     list_all (\<lambda>(k, t). length k \<le> string_bytes (bu_limits b) \<and>
       tree_shape (bu_limits b) (Suc d) (map_position pos k) (map_string_limit pos k (bu_limits b)) t) kvs \<and>
     affords (map_nodes kvs) (map_bytes kvs) b \<and> b' = spend (map_nodes kvs) (map_bytes kvs) b"
proof (induction d pos slim t b and d pos n ts b and d pos keys kvs b
    arbitrary: v b' and vs b' and kvs' b' rule: visit_visit_seq_visit_map.induct)
  case (1 d pos slim t b)
  let ?b = "spend (Suc 0) 0 b"
  show ?case
  proof (cases "affords (Suc 0) 0 b")
    case False
    then show ?thesis by (cases t) (auto simp: visit.simps abind_Ok_iff budget_node_Ok affords_def)
  next
    case True
    then have node: "budget_node b = (Ok (), ?b)" by (simp add: budget_node_Ok)
    note simps = visit.simps abind_Ok_iff node spend_spend affords_spend not_less
    show ?thesis
    proof (cases t)
      case (JString s)
      then show ?thesis using True by (auto simp: simps budget_string_Ok)
    next
      case (JArray ts)
      note IH = 1(1) [OF node JArray]
      show ?thesis using True
        by (cases "d < document_nesting_depth (bu_limits b)") (auto simp: JArray IH simps)
    next
      case (JObject kvs)
      note IH = 1(2) [OF node JObject]
      show ?thesis using True
        by (cases "d < document_nesting_depth (bu_limits b)")
          (auto simp: JObject IH map_nodes_def map_bytes_def simps)
    qed (use True node in \<open>auto simp: visit.simps abind_Ok_iff\<close>)
  qed
next
  case (2 d pos n b)
  then show ?case by auto
next
  case (3 d pos n t ts b)
  let ?b = "spend (tree_nodes t) (tree_bytes t) b"
  show ?case
  proof (cases "\<exists>v b'. visit (Suc d) (seq_position pos) (string_bytes (bu_limits b)) t b = (Ok v, b')")
    case False
    then show ?thesis by (auto simp: abind_Ok_iff 3(1) affords_def)
  next
    case True
    then have head: "visit (Suc d) (seq_position pos) (string_bytes (bu_limits b)) t b = (Ok t, ?b)"
      and shape: "tree_shape (bu_limits b) (Suc d) (seq_position pos) (string_bytes (bu_limits b)) t"
      and can: "affords (tree_nodes t) (tree_bytes t) b" by (auto simp: 3(1))
    show ?thesis
      using 3(2) [OF head] 3(3) shape can
      by (cases "n = seq_maximum pos (bu_limits b)")
        (auto simp: abind_Ok_iff head spend_spend affords_spend)
  qed
next
  case (4 d pos keys b)
  then show ?case by (auto simp: map_nodes_def map_bytes_def)
next
  case (5 d pos keys k t kvs b)
  let ?l = "bu_limits b"
  let ?a = "spend (Suc 0) 0 b"
  let ?b = "spend (Suc 0) (length k) b"
  let ?c = "spend (Suc (tree_nodes t)) (length k + tree_bytes t) b"
  let ?visit = "visit (Suc d) (map_position pos k) (map_string_limit pos k (bu_limits ?b)) t ?b"
  show ?case
  proof (cases "affords (Suc 0) (length k) b \<and> length k \<le> string_bytes ?l \<and> length keys < list_items ?l \<and> k \<notin> set keys")
    case False
    then show ?thesis
      by (auto simp: abind_Ok_iff budget_node_Ok budget_string_Ok affords_def spend_def map_nodes_def map_bytes_def)
  next
    case True
    then have node: "budget_node b = (Ok (), ?a)"
      and key: "budget_string k (string_bytes (bu_limits ?a)) ?a = (Ok (), ?b)"
      and go: "\<not> (list_items (bu_limits ?b) \<le> length keys \<or> k \<in> set keys)"
      by (auto simp: budget_node_Ok budget_string_Ok affords_def spend_def)
    note head = 5(1) [OF node key go, simplified]
    show ?thesis
    proof (cases "\<exists>v b'. ?visit = (Ok v, b')")
      case False
      then have "\<not> (tree_shape ?l (Suc d) (map_position pos k) (map_string_limit pos k ?l) t \<and>
          affords (Suc (tree_nodes t)) (length k + tree_bytes t) b)"
        using True by (simp add: head affords_spend)
      then show ?thesis using False go True
        by (auto simp: abind_Ok_iff node key [simplified] map_nodes_def map_bytes_def
            dest: affords_mono [of _ _ b "Suc (tree_nodes t)" "length k + tree_bytes t"])
    next
      case yes: True
      then have visited: "?visit = (Ok t, ?c)"
        and shape: "tree_shape ?l (Suc d) (map_position pos k) (map_string_limit pos k ?l) t"
        and can: "affords (Suc (tree_nodes t)) (length k + tree_bytes t) b"
        using True by (auto simp: head affords_spend spend_spend)
      have "length (k # keys) \<le> list_items (bu_limits ?c)" using go by simp
      note tail = 5(2) [OF node key go visited this]
      show ?thesis
        using go True shape can visited
        by (auto simp: abind_Ok_iff node key [simplified] tail [simplified] affords_spend spend_spend
            map_nodes_def map_bytes_def add.assoc)
    qed
  qed
qed

section \<open>Properties\<close>

text \<open>C17: parsing returns exactly the document the reader sees, and does so exactly when the bytes
  are within the document limit, the tree is within the node and scalar budgets, and every level
  respects the depth, list, mapping and string limits and repeats no key. Every other document is
  refused.\<close>

theorem parse_document_iff:
  "parse_document R bytes enc l pos = Ok v \<longleftrightarrow>
     length bytes \<le> document_bytes l \<and>
     (case enc of Json \<Rightarrow> rd_json R l bytes | Yaml \<Rightarrow> rd_yaml R l bytes) = Some v \<and>
     tree_nodes v \<le> document_nodes l \<and> tree_bytes v \<le> document_bytes l \<and>
     tree_shape l 0 pos (string_bytes l) v"
proof (cases "case enc of Json \<Rightarrow> rd_json R l bytes | Yaml \<Rightarrow> rd_yaml R l bytes")
  case None
  then show ?thesis by (simp add: parse_document_def)
next
  case (Some t)
  let ?b = "\<lparr>bu_limits = l, bu_nodes = document_nodes l, bu_scalar_bytes = document_bytes l\<rparr>"
  have visited: "fst (visit 0 pos (string_bytes l) t ?b) = Ok v \<longleftrightarrow>
      v = t \<and> tree_shape l 0 pos (string_bytes l) t \<and> tree_nodes t \<le> document_nodes l \<and> tree_bytes t \<le> document_bytes l"
    using visit_spec [of 0 pos "string_bytes l" t ?b v] by (auto simp: affords_def prod_eq_iff)
  have "parse_document R bytes enc l pos = Ok v \<longleftrightarrow>
      length bytes \<le> document_bytes l \<and> fst (visit 0 pos (string_bytes l) t ?b) = Ok v"
    using Some by (auto simp: parse_document_def split: prod.splits result.splits)
  then show ?thesis unfolding visited using Some by auto
qed

end
