(* ===== verification/Evaluation.thy ===== *)
theory Evaluation
  imports Subset_Correct Parsing
begin

text \<open>
  Snapshot evaluation: \<open>openvibes-rules/src/evaluation.rs\<close>. The indexed fact view is a binding of
  the CEL subset (\<open>impl Bindings for Facts\<close> in \<open>subset.rs\<close>); the evaluator runs every snapshot rule
  of a verified bundle under its own meter. SHA-256 is the parameter \<open>sha\<close>; the clock is the
  sequence of its readings and the evaluator threads the index of the next one.
\<close>

section \<open>The fact view\<close>

record facts_view =
  fv_values :: "(string, fact) btree_map"
  fv_failed_sources :: "string set"

definition charge_bytes :: "nat \<Rightarrow> nat \<Rightarrow> (nat, evaluation_error) result" where
  "charge_bytes len remaining =
     (if len \<le> remaining then Ok (remaining - len) else Err FactBudgetExceeded)"

fun charge_all :: "nat list \<Rightarrow> nat \<Rightarrow> (nat, evaluation_error) result" where
  "charge_all [] remaining = Ok remaining"
| "charge_all (n # ns) remaining = rbind (charge_bytes n remaining) (charge_all ns)"

definition charge_fact :: "resource_limits \<Rightarrow> fact \<Rightarrow> nat \<Rightarrow> (nat, evaluation_error) result" where
  "charge_fact l f remaining =
     rbind (charge_all [length (as_str (fact_key f)), length (as_str (fact_source f))] remaining)
       (\<lambda>remaining.
         case fact_val f of
           FBoolean _ \<Rightarrow> charge_bytes 1 remaining
         | FInteger _ \<Rightarrow> charge_bytes 8 remaining
         | FString v \<Rightarrow> charge_bytes (length v) remaining
         | FStringList vs \<Rightarrow>
             if length vs > fact_list_limit l (as_str (fact_key f)) then Err InvalidFacts
             else charge_all (map length vs) remaining)"

fun charge_facts :: "resource_limits \<Rightarrow> fact list \<Rightarrow> nat \<Rightarrow> (nat, evaluation_error) result" where
  "charge_facts l [] remaining = Ok remaining"
| "charge_facts l (f # fs) remaining = rbind (charge_fact l f remaining) (charge_facts l fs)"

definition facts_new :: "fact_set \<Rightarrow> resource_limits \<Rightarrow> (facts_view, evaluation_error) result" where
  "facts_new fs l =
     (if length (fs_facts fs) > facts_per_scan l \<or> length (fs_errors fs) > list_items l
      then Err InvalidFacts
      else
        rbind (charge_bytes (length (as_str (fs_scan_id fs))) (fact_input_bytes l)) (\<lambda>remaining.
        rbind (charge_facts l (fs_facts fs) remaining) (\<lambda>remaining.
        rbind (charge_all (concat (map (\<lambda>e. [length (as_str (ce_collector e)), length (ce_message e)])
                  (fs_errors fs))) remaining) (\<lambda>_.
        rbind (map_err (\<lambda>_. InvalidFacts) (fact_set_validate fs l)) (\<lambda>_.
        Ok \<lparr>fv_values = bt_collect (map (\<lambda>f. (as_str (fact_key f), f)) (fs_facts fs)),
            fv_failed_sources = set (map (as_str \<circ> ce_collector) (fs_errors fs))\<rparr>)))))"

definition facts_get :: "facts_view \<Rightarrow> string \<Rightarrow> (fact, evaluation_error) result" where
  "facts_get v key =
     rbind (ok_or UnavailableFact (bt_get (fv_values v) key)) (\<lambda>f.
       if as_str (fact_source f) \<in> fv_failed_sources v then Err UnavailableFact else Ok f)"

definition fact_type :: "fact_value \<Rightarrow> ty" where
  "fact_type v =
     (case v of FBoolean _ \<Rightarrow> TBool | FInteger _ \<Rightarrow> TInt | FString _ \<Rightarrow> TString | FStringList _ \<Rightarrow> TStrings)"

definition fact_value_of :: "fact_value \<Rightarrow> val" where
  "fact_value_of v =
     (case v of FBoolean b \<Rightarrow> VBool b | FInteger i \<Rightarrow> VInt i | FString s \<Rightarrow> VString s | FStringList vs \<Rightarrow> VStrings vs)"

definition facts_bindings :: "facts_view \<Rightarrow> bindings" where
  "facts_bindings v =
     \<lparr>b_name = ''facts'',
      b_type_of = (\<lambda>key. rbind (facts_get v key) (\<lambda>f. Ok (fact_type (fact_val f)))),
      b_value = (\<lambda>key. rbind (facts_get v key) (\<lambda>f. Ok (fact_value_of (fact_val f)))),
      b_evidence = (\<lambda>key. case facts_get v key of Ok f \<Rightarrow> Some (fact_key f) | Err _ \<Rightarrow> None)\<rparr>"

section \<open>The evaluator\<close>

definition evaluator_new :: "resource_limits \<Rightarrow> (resource_limits, evaluation_error) result" where
  "evaluator_new l =
     rbind (map_err (\<lambda>_. InvalidLimits) (validate_limits l)) (\<lambda>_.
       if list_all (\<lambda>(actual, maximum). within_ceiling actual maximum)
            [(expression_depth l, expression_depth V1),
             (expression_nodes l, expression_nodes V1),
             (fact_input_bytes l, fact_input_bytes V1),
             (facts_per_scan l, facts_per_scan V1),
             (fact_list_items l, fact_list_items V1),
             (evidence_per_finding l, evidence_per_finding V1),
             (evaluation_operations l, evaluation_operations V1),
             (evaluation_milliseconds l, evaluation_milliseconds V1)]
       then Ok l else Err InvalidLimits)"

datatype rule_outcome = Match finding | NoMatch | Unavailable | Failed evaluation_error

record rule_result =
  res_rule_id :: ident
  res_outcome :: rule_outcome
  res_operations :: nat

record evaluation_report =
  rep_scan_id :: ident
  rep_partial_collection :: bool
  rep_results :: "rule_result list"

text \<open>The preimage of a finding's identifier: a domain tag, each name behind its length, the
  bundle's digest and the rule's version.\<close>

definition finding_preimage :: "verified_rule_set \<Rightarrow> fact_set \<Rightarrow> ident \<Rightarrow> rule \<Rightarrow> string" where
  "finding_preimage bundle fs agent_id r =
     ''OPENVIBES-FINDING-V1'' @ [NUL] @
     concat (map (\<lambda>field. be_bytes 8 (length field) @ field)
       [as_str agent_id, as_str (fs_scan_id fs), as_str (av_rule_set_id (vr_accepted bundle)),
        as_str (rule_id r)]) @
     av_preimage_sha256 (vr_accepted bundle) @ be_bytes 8 (rule_version r)"

text \<open>\<open>None\<close> is the panic of \<open>expect\<close> on the identifier.\<close>

definition make_finding ::
  "(string \<Rightarrow> string) \<Rightarrow> verified_rule_set \<Rightarrow> fact_set \<Rightarrow> ident \<Rightarrow> rule \<Rightarrow> ident list \<Rightarrow> finding option" where
  "make_finding sha bundle fs agent_id r evidence =
     (case identifier_new (''finding.'' @ hex (sha (finding_preimage bundle fs agent_id r))) of
        Err _ \<Rightarrow> None
      | Ok fid \<Rightarrow> Some
          \<lparr>fd_detection = None, fd_schema_version = schema_V1, fd_finding_id = fid,
           fd_scan_id = fs_scan_id fs,
           fd_rule_set_id = Some (av_rule_set_id (vr_accepted bundle)),
           fd_rule_id = rule_id r, fd_rule_version = rule_version r,
           fd_observed_at_unix_ms = fs_collected_at_unix_ms fs,
           fd_severity = rule_severity r, fd_confidence = rule_confidence r,
           fd_message = rule_finding_message r, fd_evidence = evidence\<rparr>)"

definition outcome_of ::
  "(string \<Rightarrow> string) \<Rightarrow> verified_rule_set \<Rightarrow> fact_set \<Rightarrow> ident \<Rightarrow> rule \<Rightarrow>
   (bool \<times> ident list \<times> detection option, evaluation_error) result \<Rightarrow> rule_outcome option" where
  "outcome_of sha verified fs agent_id r evaluated =
     (case evaluated of
        Ok (True, evidence, d) \<Rightarrow>
          map_option (\<lambda>f. Match (f\<lparr>fd_detection := map_option
              (\<lambda>detail. detail\<lparr>det_observed_at_unix_ms := fs_collected_at_unix_ms fs\<rparr>) d\<rparr>))
            (make_finding sha verified fs agent_id r evidence)
      | Ok (False, _, _) \<Rightarrow> Some NoMatch
      | Err UnavailableFact \<Rightarrow> Some Unavailable
      | Err e \<Rightarrow> Some (Failed e))"

fun evaluate_rules ::
  "cel_parser \<Rightarrow> trace_env \<Rightarrow> (string \<Rightarrow> string) \<Rightarrow> resource_limits \<Rightarrow> verified_rule_set \<Rightarrow>
   fact_set \<Rightarrow> facts_view \<Rightarrow> ident \<Rightarrow> clock \<Rightarrow> nat \<Rightarrow> rule list \<Rightarrow> rule_result list option" where
  "evaluate_rules cel E sha l verified fs view agent_id clk i [] = Some []"
| "evaluate_rules cel E sha l verified fs view agent_id clk i (r # rs) =
     (let (evaluated, m) = subset_evaluate cel E (rule_expression r) (facts_bindings view) verified
            (meter_new clk i verified l) in
      case outcome_of sha verified fs agent_id r evaluated of
        None \<Rightarrow> None
      | Some outcome \<Rightarrow>
          map_option (\<lambda>rest. \<lparr>res_rule_id = rule_id r, res_outcome = outcome, res_operations = m_used m\<rparr> # rest)
            (evaluate_rules cel E sha l verified fs view agent_id clk (m_tick m) rs))"

text \<open>\<open>Evaluator::evaluate\<close> with the clock read from index \<open>i\<close> on; \<open>None\<close> inside \<open>Ok\<close> is a panic.\<close>

definition evaluate ::
  "cel_parser \<Rightarrow> trace_env \<Rightarrow> (string \<Rightarrow> string) \<Rightarrow> resource_limits \<Rightarrow> verified_rule_set \<Rightarrow>
   fact_set \<Rightarrow> ident \<Rightarrow> clock \<Rightarrow> nat \<Rightarrow> (evaluation_report option, evaluation_error) result" where
  "evaluate cel E sha l verified fs agent_id clk i =
     (let now = snd (clk i) in
      rbind (check_validity verified now) (\<lambda>_.
      if fs_collected_at_unix_ms fs > now then Err InvalidFacts
      else
        rbind (facts_new fs l) (\<lambda>view.
        rbind (map_err (\<lambda>_. InvalidExpression) (rule_set_validate (vr_rules verified) l)) (\<lambda>_.
        Ok (map_option
              (\<lambda>results. \<lparr>rep_scan_id = fs_scan_id fs,
                           rep_partial_collection = (fs_errors fs \<noteq> []), rep_results = results\<rparr>)
              (evaluate_rules cel E sha l verified fs view agent_id clk (Suc i)
                 (filter (\<lambda>r. rule_kind_of r = Snapshot) (rs_rules (vr_rules verified)))))))))"

section \<open>The fact view is a lawful binding\<close>

definition view_wf :: "facts_view \<Rightarrow> bool" where
  "view_wf v \<longleftrightarrow>
     bt_invar (fv_values v) \<and>
     (\<forall>k f. bt_get (fv_values v) k = Some f \<longrightarrow>
        as_str (fact_key f) = k \<and> (\<forall>vs. fact_val f = FStringList vs \<longrightarrow> sorted vs))"

lemma facts_get_Ok: "facts_get v k = Ok f \<Longrightarrow> bt_get (fv_values v) k = Some f"
  by (auto simp: facts_get_def rbind_Ok_iff split: if_splits)

lemma facts_get_Err: "facts_get v k = Err e \<Longrightarrow> e = UnavailableFact"
  by (auto simp: facts_get_def ok_or_def rbind_def split: if_splits option.splits)

lemma facts_bindings_sel [simp]: "b_name (facts_bindings v) = ''facts''"
  by (simp add: facts_bindings_def)

lemma fact_value_of_strings: "fact_value_of v = VStrings vs \<longleftrightarrow> v = FStringList vs"
  by (cases v) (auto simp: fact_value_of_def)

lemma val_type_fact_value [simp]: "val_type (fact_value_of v) = fact_type v"
  by (cases v) (auto simp: fact_value_of_def fact_type_def)

interpretation facts: bindings_law facts_bindings view_wf
proof
  fix s k t
  assume "view_wf s" "b_type_of (facts_bindings s) k = Ok t"
  then obtain f where "facts_get s k = Ok f" "t = fact_type (fact_val f)"
    by (auto simp: facts_bindings_def rbind_Ok_iff)
  then show "b_value (facts_bindings s) k = Err UnavailableFact \<or>
      (\<exists>v. b_value (facts_bindings s) k = Ok v \<and> val_type v = t)"
    by (auto simp: facts_bindings_def)
next
  fix s k vs
  assume "view_wf s" "b_value (facts_bindings s) k = Ok (VStrings vs)"
  then show "sorted vs"
    by (auto simp: facts_bindings_def rbind_Ok_iff fact_value_of_strings view_wf_def
        dest!: facts_get_Ok)
qed

section \<open>What the view holds\<close>

text \<open>A fact can be used when it was collected and no collector error names its source.\<close>

definition fact_available :: "fact_set \<Rightarrow> string \<Rightarrow> bool" where
  "fact_available fs k \<longleftrightarrow>
     list_ex (\<lambda>f. as_str (fact_key f) = k \<and>
       \<not> list_ex (\<lambda>e. ce_collector e = fact_source f) (fs_errors fs)) (fs_facts fs)"

lemma as_str_inject: "as_str a = as_str b \<longleftrightarrow> a = b"
  by (cases a; cases b) simp

lemma facts_new_Ok:
  assumes "facts_new fs l = Ok v"
  shows "fact_set_validate fs l = Ok ()"
    and "v = \<lparr>fv_values = bt_collect (map (\<lambda>f. (as_str (fact_key f), f)) (fs_facts fs)),
            fv_failed_sources = set (map (as_str \<circ> ce_collector) (fs_errors fs))\<rparr>"
  using assms by (auto simp: facts_new_def rbind_Ok_iff split: if_splits)

lemma facts_lookup:
  assumes "facts_new fs l = Ok v"
  shows "bt_get (fv_values v) k = Some f \<longleftrightarrow> f \<in> set (fs_facts fs) \<and> as_str (fact_key f) = k"
proof -
  let ?ps = "map (\<lambda>f. (as_str (fact_key f), f)) (fs_facts fs)"
  have "distinct (map fact_key (fs_facts fs))"
    using facts_new_Ok(1) [OF assms] by (simp add: fact_set_validate_Ok_iff)
  then have "distinct (map fst ?ps)"
    by (simp add: comp_def distinct_map inj_on_def as_str_inject)
  then have "distinct (map fst (rev ?ps))" by (simp add: rev_map [symmetric])
  then show ?thesis
    using facts_new_Ok(2) [OF assms] map_of_eq_Some_iff [of "rev ?ps" k f]
    by (auto simp: bt_get_collect)
qed

lemma facts_new_wf: "facts_new fs l = Ok v \<Longrightarrow> view_wf v"
  using facts_lookup [of fs l v] facts_new_Ok [of fs l v]
  by (auto simp: view_wf_def fact_set_validate_Ok_iff dest!: validate_fact_sorted
      intro: strict_sorted_imp_sorted)

lemma facts_get_Ok_iff:
  assumes "facts_new fs l = Ok v"
  shows "facts_get v k = Ok f \<longleftrightarrow>
    f \<in> set (fs_facts fs) \<and> as_str (fact_key f) = k \<and> (\<forall>e \<in> set (fs_errors fs). ce_collector e \<noteq> fact_source f)"
proof -
  have "as_str (fact_source f) \<in> fv_failed_sources v \<longleftrightarrow> (\<exists>e \<in> set (fs_errors fs). ce_collector e = fact_source f)"
    using facts_new_Ok(2) [OF assms] by (simp add: image_iff) (metis as_str_inject)
  then have "facts_get v k = Ok f \<longleftrightarrow>
      bt_get (fv_values v) k = Some f \<and> (\<forall>e \<in> set (fs_errors fs). ce_collector e \<noteq> fact_source f)"
    by (auto simp: facts_get_def rbind_def split: option.splits result.splits if_splits)
  then show ?thesis by (simp add: facts_lookup [OF assms])
qed

lemma facts_get_available:
  assumes "facts_new fs l = Ok v"
  shows "is_ok (facts_get v k) \<longleftrightarrow> fact_available fs k"
  using facts_get_Ok_iff [OF assms, of k]
  by (auto simp: is_ok_iff fact_available_def list_ex_iff)

lemma facts_type_available:
  assumes "facts_new fs l = Ok v"
  shows "b_type_of (facts_bindings v) k = Ok t \<Longrightarrow> fact_available fs k"
    and "b_type_of (facts_bindings v) k = Err UnavailableFact \<Longrightarrow> \<not> fact_available fs k"
  using facts_get_available [OF assms, of k]
  by (auto simp: facts_bindings_def rbind_Ok_iff is_ok_iff rbind_def split: result.splits)

lemma facts_evidence:
  assumes "facts_new fs l = Ok v" and "\<forall>k \<in> set ks. fact_available fs k"
  shows "bt_values (fold (add_evidence (facts_bindings v)) ks []) = map Identifier (sorted_list_of_set (set ks))"
proof -
  have "add_evidence (facts_bindings v) k ev = bt_insert k (Identifier k) ev" if "k \<in> set ks" for k ev
  proof -
    from that assms facts_get_available [OF assms(1), of k] obtain f where f: "facts_get v k = Ok f"
      by (auto simp: is_ok_iff)
    then have "as_str (fact_key f) = k" using facts_get_Ok_iff [OF assms(1)] by blast
    moreover from this have "fact_key f = Identifier k" by (metis ident.collapse)
    ultimately show ?thesis using f by (simp add: add_evidence_def facts_bindings_def)
  qed
  then have "fold (add_evidence (facts_bindings v)) ks [] = fold (\<lambda>k ev. bt_insert k (Identifier k) ev) ks []"
    by (intro fold_cong) auto
  also have "\<dots> = bt_collect (map (\<lambda>k. (k, Identifier k)) ks)"
    by (simp add: bt_collect_def fold_map comp_def)
  finally show ?thesis by (simp add: bt_values_collect_fun)
qed

text \<open>A key of a checked expression has a value.\<close>

lemma facts_no_key_missing:
  assumes "facts_new fs l = Ok v" and "typing (facts_bindings v) e = Some ty"
  shows "\<not> key_missing (facts_bindings v) e"
proof
  assume "key_missing (facts_bindings v) e"
  then obtain k where k: "k \<in> set (keys_of (b_name (facts_bindings v)) e)" "b_value (facts_bindings v) k = Err UnavailableFact"
    by (auto simp: key_missing_def list_ex_iff)
  from typing_keys [OF assms(2) k(1)] obtain t where "b_type_of (facts_bindings v) k = Ok t" by blast
  with k(2) show False by (auto simp: facts_bindings_def rbind_Ok_iff)
qed

section \<open>Outcomes\<close>

text \<open>What each result of an evaluation says about the parsed expression.\<close>

lemma subset_evaluate_facts_Ok:
  assumes view: "facts_new fs l = Ok v"
    and eval: "subset_evaluate cel E src (facts_bindings v) bundle m = (Ok (b, ev, d), m')"
  obtains ast where
    "cel (expression_depth (m_limits m) mod 65536) (expression_nodes (m_limits m)) src = Some ast"
    "denote (facts_bindings v) ast = Ok (VBool b)"
    "list_all (fact_available fs) (keys_of ''facts'' ast)"
    "ev = map Identifier (sorted_list_of_set (set (keys_of ''facts'' ast)))"
proof -
  from subset_evaluate_Ok [OF eval] obtain ast m1 cs m2 tr where
    parse: "parse cel src ''facts'' m = (Ok ast, m1)"
    and check: "check (facts_bindings v) ast 1 \<lparr>cs_meter = m1, cs_nodes = 0, cs_evidence = []\<rparr> = (Ok TBool, cs)"
    and run: "run (facts_bindings v) ast (cs_meter cs, trace_new) = (Ok (VBool b), (m2, tr))"
    and ev: "ev = bt_values (cs_evidence cs)" by metis
  from check_Ok [OF check] have ty: "typing (facts_bindings v) ast = Some TBool"
    and evs: "cs_evidence cs = fold (add_evidence (facts_bindings v)) (keys_of ''facts'' ast) []"
    by simp_all
  have avail: "\<forall>k \<in> set (keys_of ''facts'' ast). fact_available fs k"
    using typing_keys [OF ty] facts_type_available(1) [OF view] by fastforce
  have "denote (facts_bindings v) ast = Ok (VBool b)"
    using meets_run [OF facts.sorted_lists [OF facts_new_wf [OF view]], of ast] run by (rule meetsD)
  with parse_Ok [OF parse] avail ev evs facts_evidence [OF view avail] show thesis
    by (intro that) (simp_all add: list_all_iff)
qed

lemma run_facts_not_unavailable:
  assumes "facts_new fs l = Ok v" and "typing (facts_bindings v) e = Some ty"
  shows "fst (run (facts_bindings v) e st) \<noteq> Err UnavailableFact"
proof
  assume "fst (run (facts_bindings v) e st) = Err UnavailableFact"
  then obtain st' where "run (facts_bindings v) e st = (Err UnavailableFact, st')"
    by (cases "run (facts_bindings v) e st") auto
  from facts.run_checked [OF facts_new_wf [OF assms(1)] assms(2) this] show False
    using facts_no_key_missing [OF assms] by (auto simp: meter_errors_def)
qed

lemma subset_evaluate_facts_unavailable:
  assumes view: "facts_new fs l = Ok v"
    and eval: "subset_evaluate cel E src (facts_bindings v) bundle m = (Err UnavailableFact, m')"
  obtains ast where
    "cel (expression_depth (m_limits m) mod 65536) (expression_nodes (m_limits m)) src = Some ast"
    "\<not> list_all (fact_available fs) (keys_of ''facts'' ast)"
proof -
  from eval have "fst (subset_evaluate cel E src (facts_bindings v) bundle m) = Err UnavailableFact" by simp
  then obtain ast m1 where parse: "parse cel src ''facts'' m = (Ok ast, m1)"
    and rest: "fst (case check (facts_bindings v) ast 1 \<lparr>cs_meter = m1, cs_nodes = 0, cs_evidence = []\<rparr> of
         (Err e, cs) \<Rightarrow> (Err e, cs_meter cs)
       | (Ok ty, cs) \<Rightarrow>
           if ty \<noteq> TBool then (Err NonBoolean, cs_meter cs)
           else
             (case run (facts_bindings v) ast (cs_meter cs, trace_new) of
                (Err e, rs) \<Rightarrow> (Err e, fst rs)
              | (Ok v, rs) \<Rightarrow>
                  abind (charge 0) (\<lambda>_ m.
                    case v of
                      VBool b \<Rightarrow>
                        (Ok (b, bt_values (cs_evidence cs),
                             if b then Some (finish E bundle ''facts'' (meter_remaining m) (snd rs))
                             else None), m)
                    | _ \<Rightarrow> (Err NonBoolean, m)) (fst rs))) = Err UnavailableFact"
    unfolding subset_evaluate_def using parse_avoids [of cel src "''facts''" m]
    by (auto dest!: abind_fst_Err)
  have charge: "fst (charge 0 m) \<noteq> Err UnavailableFact" for m
    using avoids_charge [of UnavailableFact 0] by (simp add: avoids_def meter_errors_def)
  obtain r cs where check: "check (facts_bindings v) ast 1 \<lparr>cs_meter = m1, cs_nodes = 0, cs_evidence = []\<rparr> = (r, cs)"
    by (cases "check (facts_bindings v) ast 1 \<lparr>cs_meter = m1, cs_nodes = 0, cs_evidence = []\<rparr>")
  have "r = Err UnavailableFact"
  proof (cases r)
    case (Ok ty)
    from check Ok have "typing (facts_bindings v) ast = Some ty" using check_Ok by blast
    from run_facts_not_unavailable [OF view this] rest check Ok charge show ?thesis
      by (auto split: if_splits prod.splits result.splits val.splits dest!: abind_fst_Err) (metis fst_conv)+
  qed (use rest check in simp)
  with check check_unavailable [of "facts_bindings v" ast 1] obtain k where
    "k \<in> set (keys_of ''facts'' ast)" "b_type_of (facts_bindings v) k = Err UnavailableFact"
    by (metis facts_bindings_sel fst_conv)
  with facts_type_available(2) [OF view] parse_Ok [OF parse] show thesis
    by (intro that) (auto simp: list_all_iff)
qed

lemma evaluate_rules_each:
  "evaluate_rules cel E sha l verified fs view agent_id clk i rs = Some results \<Longrightarrow>
   list_all2 (\<lambda>r res. res_rule_id res = rule_id r \<and>
     (\<exists>j evaluated m. subset_evaluate cel E (rule_expression r) (facts_bindings view) verified
          (meter_new clk j verified l) = (evaluated, m) \<and>
        outcome_of sha verified fs agent_id r evaluated = Some (res_outcome res) \<and>
        res_operations res = m_used m)) rs results"
proof (induction rs arbitrary: i results)
  case Nil
  then show ?case by simp
next
  case (Cons r rs)
  obtain evaluated m where ev: "subset_evaluate cel E (rule_expression r) (facts_bindings view) verified
      (meter_new clk i verified l) = (evaluated, m)" by fastforce
  with Cons.prems obtain outcome rest where o: "outcome_of sha verified fs agent_id r evaluated = Some outcome"
    and rest: "evaluate_rules cel E sha l verified fs view agent_id clk (m_tick m) rs = Some rest"
    and results: "results = \<lparr>res_rule_id = rule_id r, res_outcome = outcome, res_operations = m_used m\<rparr> # rest"
    by (auto split: option.splits)
  from Cons.IH [OF rest] ev o show ?case unfolding results by auto
qed

lemma evaluate_Ok:
  assumes "evaluate cel E sha l verified fs agent_id clk i = Ok (Some rep)"
  obtains view where "facts_new fs l = Ok view"
    "evaluate_rules cel E sha l verified fs view agent_id clk (Suc i)
       (filter (\<lambda>r. rule_kind_of r = Snapshot) (rs_rules (vr_rules verified))) = Some (rep_results rep)"
    "check_validity verified (snd (clk i)) = Ok ()" "fs_collected_at_unix_ms fs \<le> snd (clk i)"
    "rep_scan_id rep = fs_scan_id fs" "rep_partial_collection rep = (fs_errors fs \<noteq> [])"
  using assms by (auto simp: evaluate_def Let_def rbind_Ok_iff split: if_splits)

text \<open>Everything a single outcome guarantees.\<close>

lemma outcome_cases:
  assumes view: "facts_new fs l = Ok view"
    and ev: "subset_evaluate cel E src (facts_bindings view) verified (meter_new clk j verified l) = (evaluated, m)"
    and out: "outcome_of sha verified fs agent_id r evaluated = Some outcome"
  shows "case outcome of
      Match f \<Rightarrow> \<exists>ast.
        cel (expression_depth l mod 65536) (expression_nodes l) src = Some ast \<and>
        denote (facts_bindings view) ast = Ok (VBool True) \<and>
        list_all (fact_available fs) (keys_of ''facts'' ast) \<and>
        fd_evidence f = map Identifier (sorted_list_of_set (set (keys_of ''facts'' ast))) \<and>
        fd_rule_id f = rule_id r \<and> fd_rule_version f = rule_version r \<and>
        fd_severity f = rule_severity r \<and> fd_message f = rule_finding_message r \<and>
        fd_scan_id f = fs_scan_id fs \<and> fd_observed_at_unix_ms f = fs_collected_at_unix_ms fs
    | NoMatch \<Rightarrow> \<exists>ast.
        cel (expression_depth l mod 65536) (expression_nodes l) src = Some ast \<and>
        denote (facts_bindings view) ast = Ok (VBool False) \<and>
        list_all (fact_available fs) (keys_of ''facts'' ast)
    | Unavailable \<Rightarrow> \<exists>ast.
        cel (expression_depth l mod 65536) (expression_nodes l) src = Some ast \<and>
        \<not> list_all (fact_available fs) (keys_of ''facts'' ast)
    | Failed e \<Rightarrow> e \<noteq> UnavailableFact"
proof (cases evaluated)
  case (Ok x)
  obtain b evi d where x: "x = (b, evi, d)" by (cases x) auto
  from subset_evaluate_facts_Ok [OF view ev [unfolded Ok x]] obtain ast where
    "cel (expression_depth l mod 65536) (expression_nodes l) src = Some ast"
    "denote (facts_bindings view) ast = Ok (VBool b)"
    "list_all (fact_available fs) (keys_of ''facts'' ast)"
    "evi = map Identifier (sorted_list_of_set (set (keys_of ''facts'' ast)))" by auto
  with out Ok x show ?thesis
    by (cases b) (auto simp: outcome_of_def make_finding_def split: result.splits)
next
  case (Err e)
  show ?thesis
  proof (cases "e = UnavailableFact")
    case True
    from subset_evaluate_facts_unavailable [OF view ev [unfolded Err True]] obtain ast where
      "cel (expression_depth l mod 65536) (expression_nodes l) src = Some ast"
      "\<not> list_all (fact_available fs) (keys_of ''facts'' ast)" by auto
    with out Err True show ?thesis by (auto simp: outcome_of_def)
  next
    case False
    with out Err have "outcome = Failed e" by (cases e) (auto simp: outcome_of_def)
    with False show ?thesis by simp
  qed
qed

lemma hex_identifier_char: "list_all identifier_char (hex d)"
  using hex_lower [of d]
  by (auto simp: list_all_iff identifier_char_def is_lower_hex_def is_ascii_alphanumeric_def
      is_ascii_alphabetic_def is_ascii_lowercase_def)

lemma make_finding_total:
  assumes "\<And>x. length (sha x) = 32"
  shows "make_finding sha bundle fs agent_id r evidence \<noteq> None"
proof -
  let ?v = "''finding.'' @ hex (sha (finding_preimage bundle fs agent_id r))"
  have "identifier_new ?v = Ok (Identifier ?v)"
    using hex_identifier_char
    by (simp add: identifier_new_Ok_iff length_hex assms identifier_char_def ascii_defs)
  then show ?thesis by (simp add: make_finding_def)
qed

lemma evaluate_rules_total:
  assumes "\<And>x. length (sha x) = 32"
  shows "evaluate_rules cel E sha l verified fs view agent_id clk i rs \<noteq> None"
proof (induction rs arbitrary: i)
  case Nil
  then show ?case by simp
next
  case (Cons r rs)
  have "outcome_of sha verified fs agent_id r x \<noteq> None" for x
    using make_finding_total [OF assms]
    by (auto simp: outcome_of_def split: result.splits evaluation_error.splits bool.splits)
  with Cons show ?case
    by (auto simp: Let_def split: prod.splits option.splits) (metis option.distinct(1))
qed

lemma evaluate_rules_operations:
  assumes "subset_evaluate cel E src B verified (meter_new clk j verified l) = (evaluated, m)"
  shows "m_used m \<le> evaluation_operations l"
  using subset_evaluate_step [of "meter_new clk j verified l" cel E src B verified] assms
  by (auto simp: meter_step_def meter_inv_def)

lemmas evaluation_evals [evals] =
  charge_bytes_def charge_fact_def facts_new_def facts_get_def fact_type_def fact_value_of_def
  facts_bindings_def evaluator_new_def finding_preimage_def make_finding_def outcome_of_def
  evaluate_def fact_available_def

section \<open>An example scan\<close>

text \<open>One boolean fact, one snapshot rule that reads it.\<close>

definition ex_source :: string where
  "ex_source = ''facts['' @ [CHR 0x27] @ ''a'' @ [CHR 0x27] @ '']''"

definition ex_ast :: expr where
  "ex_ast = ECall None OpIndex [EIdent ''facts'', ELiteral (LString ''a'')]"

definition ex_cel :: cel_parser where
  "ex_cel d n src = (if src = ex_source then Some ex_ast else None)"

definition ex_env :: trace_env where
  "ex_env = \<lparr>te_op_name = (\<lambda>_. ''op''), te_json_string = Some, te_json_detection = (\<lambda>_. Some 150),
     te_json_input = (\<lambda>_. Some 60), te_json_step = (\<lambda>_. Some 60)\<rparr>"

definition ex_rule :: rule where
  "ex_rule = \<lparr>rule_id = Identifier ''r'', rule_version = 1, rule_title = ''t'', rule_severity = Low,
     rule_confidence = Confidence 50, rule_expression = ex_source, rule_finding_message = ''m'',
     rule_kind_of = Snapshot, rule_programs = None, rule_attack = None\<rparr>"

definition ex_bundle :: verified_rule_set where
  "ex_bundle = \<lparr>vr_rules = \<lparr>rs_schema_version = schema_V1, rs_rules = [ex_rule]\<rparr>,
     vr_accepted = \<lparr>av_rule_set_id = Identifier ''s'', av_version = 1, av_preimage_sha256 = replicate 32 NUL\<rparr>,
     vr_issuer_key_id = Identifier ''k'', vr_created_at_unix_ms = 0, vr_expires_at_unix_ms = 100\<rparr>"

definition ex_facts :: fact_set where
  "ex_facts = \<lparr>fs_schema_version = schema_V1, fs_scan_id = Identifier ''scan'', fs_collected_at_unix_ms = 5,
     fs_facts = [\<lparr>fact_key = Identifier ''a'', fact_source = Identifier ''c'', fact_val = FBoolean True\<rparr>],
     fs_errors = []\<rparr>"

definition ex_clock :: clock where "ex_clock i = (0, 7)"

definition ex_sha :: "string \<Rightarrow> string" where "ex_sha _ = replicate 32 NUL"

lemmas ex_defs = ex_source_def ex_ast_def ex_cel_def ex_env_def ex_rule_def ex_bundle_def
  ex_facts_def ex_clock_def ex_sha_def

lemma ex_evaluates:
  "\<exists>rep f. evaluate ex_cel ex_env ex_sha V1 ex_bundle ex_facts (Identifier ''agent'') ex_clock 0 = Ok (Some rep) \<and>
     map res_outcome (rep_results rep) = [Match f]"
  by (simp add: evals ex_defs hex_identifier_char length_hex del: hex_def)

section \<open>Properties\<close>

text \<open>C1: every outcome a scan reports is what the rule means. A match is only reported when the
  parsed expression denotes true, every fact it names was collected by a collector without an
  error, and the finding carries exactly the named facts as evidence; a non-match only when it
  denotes false on available facts; unavailable only when some named fact is not available.\<close>

theorem evaluate_outcome_correct:
  assumes "evaluate cel E sha l verified fs agent_id clk i = Ok (Some rep)"
    and "(r, res) \<in> set (zip (filter (\<lambda>r. rule_kind_of r = Snapshot) (rs_rules (vr_rules verified))) (rep_results rep))"
  shows "\<exists>view. facts_new fs l = Ok view \<and>
    (case res_outcome res of
      Match f \<Rightarrow> \<exists>ast.
        cel (expression_depth l mod 65536) (expression_nodes l) (rule_expression r) = Some ast \<and>
        denote (facts_bindings view) ast = Ok (VBool True) \<and>
        list_all (fact_available fs) (keys_of ''facts'' ast) \<and>
        fd_evidence f = map Identifier (sorted_list_of_set (set (keys_of ''facts'' ast))) \<and>
        fd_rule_id f = rule_id r \<and> fd_rule_version f = rule_version r \<and>
        fd_severity f = rule_severity r \<and> fd_message f = rule_finding_message r \<and>
        fd_scan_id f = fs_scan_id fs \<and> fd_observed_at_unix_ms f = fs_collected_at_unix_ms fs
    | NoMatch \<Rightarrow> \<exists>ast.
        cel (expression_depth l mod 65536) (expression_nodes l) (rule_expression r) = Some ast \<and>
        denote (facts_bindings view) ast = Ok (VBool False) \<and>
        list_all (fact_available fs) (keys_of ''facts'' ast)
    | Unavailable \<Rightarrow> \<exists>ast.
        cel (expression_depth l mod 65536) (expression_nodes l) (rule_expression r) = Some ast \<and>
        \<not> list_all (fact_available fs) (keys_of ''facts'' ast)
    | Failed e \<Rightarrow> e \<noteq> UnavailableFact)"
proof -
  from evaluate_Ok [OF assms(1)] obtain view where view: "facts_new fs l = Ok view"
    and rules: "evaluate_rules cel E sha l verified fs view agent_id clk (Suc i)
       (filter (\<lambda>r. rule_kind_of r = Snapshot) (rs_rules (vr_rules verified))) = Some (rep_results rep)"
    by blast
  from evaluate_rules_each [OF rules] assms(2) obtain j evaluated m where
    "subset_evaluate cel E (rule_expression r) (facts_bindings view) verified (meter_new clk j verified l) = (evaluated, m)"
    "outcome_of sha verified fs agent_id r evaluated = Some (res_outcome res)"
    by (auto simp: list_all2_iff)
  from outcome_cases [OF view this] view show ?thesis by blast
qed

theorem evaluate_outcome_correct_witness:
  "\<exists>rep f. evaluate ex_cel ex_env ex_sha V1 ex_bundle ex_facts (Identifier ''agent'') ex_clock 0 = Ok (Some rep) \<and>
     map res_outcome (rep_results rep) = [Match f] \<and> fd_evidence f = [Identifier ''a''] \<and> fd_rule_id f = Identifier ''r''"
proof -
  obtain rep f where rep: "evaluate ex_cel ex_env ex_sha V1 ex_bundle ex_facts (Identifier ''agent'') ex_clock 0 = Ok (Some rep)"
    and out: "map res_outcome (rep_results rep) = [Match f]" using ex_evaluates by (elim exE conjE)
  then obtain res where res: "rep_results rep = [res]" "res_outcome res = Match f" by (auto simp: map_eq_Cons_conv)
  have "(ex_rule, res) \<in> set (zip (filter (\<lambda>r. rule_kind_of r = Snapshot) (rs_rules (vr_rules ex_bundle))) (rep_results rep))"
    by (simp add: res ex_bundle_def ex_rule_def)
  from evaluate_outcome_correct [OF rep this] res(2) have
    "fd_evidence f = [Identifier ''a'']" "fd_rule_id f = Identifier ''r''"
    by (auto simp: ex_rule_def ex_cel_def ex_ast_def binding_key_def)
  with rep out show ?thesis by (intro exI conjI)
qed

text \<open>C2: a report has one result per snapshot rule of the bundle, in the bundle's order, each
  within the operation limit, and it says whether any collector failed; it is only made inside
  the bundle's validity interval from facts that are not from the future.\<close>

theorem evaluate_report_complete:
  assumes "evaluate cel E sha l verified fs agent_id clk i = Ok (Some rep)"
  shows "map res_rule_id (rep_results rep) =
      map rule_id (filter (\<lambda>r. rule_kind_of r = Snapshot) (rs_rules (vr_rules verified))) \<and>
    list_all (\<lambda>res. res_operations res \<le> evaluation_operations l) (rep_results rep) \<and>
    rep_partial_collection rep = (fs_errors fs \<noteq> []) \<and>
    vr_created_at_unix_ms verified \<le> snd (clk i) \<and> snd (clk i) < vr_expires_at_unix_ms verified \<and>
    0 \<le> snd (clk i) \<and> fs_collected_at_unix_ms fs \<le> snd (clk i)"
proof -
  from evaluate_Ok [OF assms] obtain view where
    rules: "evaluate_rules cel E sha l verified fs view agent_id clk (Suc i)
       (filter (\<lambda>r. rule_kind_of r = Snapshot) (rs_rules (vr_rules verified))) = Some (rep_results rep)"
    and rest: "check_validity verified (snd (clk i)) = Ok ()" "fs_collected_at_unix_ms fs \<le> snd (clk i)"
      "rep_partial_collection rep = (fs_errors fs \<noteq> [])" by blast
  from evaluate_rules_each [OF rules] have
    "map res_rule_id (rep_results rep) = map rule_id (filter (\<lambda>r. rule_kind_of r = Snapshot) (rs_rules (vr_rules verified)))"
    by (induction rule: list_all2_induct) auto
  moreover from evaluate_rules_each [OF rules] have
    "list_all (\<lambda>res. res_operations res \<le> evaluation_operations l) (rep_results rep)"
    by (induction rule: list_all2_induct) (auto dest: evaluate_rules_operations)
  ultimately show ?thesis
    using rest by (auto simp: check_validity_def split: if_splits)
qed

theorem evaluate_report_complete_witness:
  "\<exists>rep. evaluate ex_cel ex_env ex_sha V1 ex_bundle ex_facts (Identifier ''agent'') ex_clock 0 = Ok (Some rep) \<and>
     map res_rule_id (rep_results rep) = [Identifier ''r''] \<and> \<not> rep_partial_collection rep"
proof -
  obtain rep where rep: "evaluate ex_cel ex_env ex_sha V1 ex_bundle ex_facts (Identifier ''agent'') ex_clock 0 = Ok (Some rep)"
    using ex_evaluates by (elim exE conjE)
  from evaluate_report_complete [OF rep] rep show ?thesis
    by (auto simp: ex_bundle_def ex_rule_def ex_facts_def)
qed

text \<open>C8: the identifier of a finding always fits the identifier contract, so building a finding
  never panics and an evaluation that is accepted always returns a report.\<close>

theorem evaluate_never_panics:
  assumes "\<And>x. length (sha x) = 32"
  shows "evaluate cel E sha l verified fs agent_id clk i \<noteq> Ok None"
  using evaluate_rules_total [OF assms] by (auto simp: evaluate_def Let_def rbind_Ok_iff split: if_splits)

theorem evaluate_never_panics_witness:
  "(\<forall>x. length (ex_sha x) = 32) \<and>
   evaluate ex_cel ex_env ex_sha V1 ex_bundle ex_facts (Identifier ''agent'') ex_clock 0 \<noteq> Ok None"
  using evaluate_never_panics [of ex_sha] by (simp add: ex_sha_def)

text \<open>C9: the preimage a finding identifier is hashed from determines the agent, the scan, the rule
  set, the signed content of the bundle, the rule and its version: two findings share a preimage
  only when they are the same rule of the same bundle on the same scan.\<close>

theorem finding_preimage_inject:
  assumes "finding_preimage b fs agent_id r = finding_preimage b' fs' agent_id' r'"
    and "list_all (\<lambda>i. length (as_str i) \<le> identifier_bytes V1)
      [agent_id, fs_scan_id fs, av_rule_set_id (vr_accepted b), rule_id r,
       agent_id', fs_scan_id fs', av_rule_set_id (vr_accepted b'), rule_id r']"
    and "length (av_preimage_sha256 (vr_accepted b)) = 32" "length (av_preimage_sha256 (vr_accepted b')) = 32"
    and "rule_version r \<le> u64_max" "rule_version r' \<le> u64_max"
  shows "agent_id = agent_id' \<and> fs_scan_id fs = fs_scan_id fs' \<and>
    av_rule_set_id (vr_accepted b) = av_rule_set_id (vr_accepted b') \<and>
    av_preimage_sha256 (vr_accepted b) = av_preimage_sha256 (vr_accepted b') \<and>
    rule_id r = rule_id r' \<and> rule_version r = rule_version r'"
proof -
  have field: "x = y \<and> s = t" if "be_bytes 8 (length x) @ x @ s = be_bytes 8 (length y) @ y @ t"
    "length x \<le> identifier_bytes V1" "length y \<le> identifier_bytes V1" for x y s t :: string
    using length_prefixed_inject [OF _ _ that(1)] that(2,3) by simp
  from assms(1) have start:
    "be_bytes 8 (length (as_str agent_id)) @ as_str agent_id @
     be_bytes 8 (length (as_str (fs_scan_id fs))) @ as_str (fs_scan_id fs) @
     be_bytes 8 (length (as_str (av_rule_set_id (vr_accepted b)))) @ as_str (av_rule_set_id (vr_accepted b)) @
     be_bytes 8 (length (as_str (rule_id r))) @ as_str (rule_id r) @
     av_preimage_sha256 (vr_accepted b) @ be_bytes 8 (rule_version r) =
     be_bytes 8 (length (as_str agent_id')) @ as_str agent_id' @
     be_bytes 8 (length (as_str (fs_scan_id fs'))) @ as_str (fs_scan_id fs') @
     be_bytes 8 (length (as_str (av_rule_set_id (vr_accepted b')))) @ as_str (av_rule_set_id (vr_accepted b')) @
     be_bytes 8 (length (as_str (rule_id r'))) @ as_str (rule_id r') @
     av_preimage_sha256 (vr_accepted b') @ be_bytes 8 (rule_version r')"
    by (simp add: finding_preimage_def)
  from assms(2) have L: "length (as_str agent_id) \<le> identifier_bytes V1"
    "length (as_str (fs_scan_id fs)) \<le> identifier_bytes V1"
    "length (as_str (av_rule_set_id (vr_accepted b))) \<le> identifier_bytes V1"
    "length (as_str (rule_id r)) \<le> identifier_bytes V1"
    "length (as_str agent_id') \<le> identifier_bytes V1"
    "length (as_str (fs_scan_id fs')) \<le> identifier_bytes V1"
    "length (as_str (av_rule_set_id (vr_accepted b'))) \<le> identifier_bytes V1"
    "length (as_str (rule_id r')) \<le> identifier_bytes V1" by simp_all
  note agent = field [OF start L(1) L(5)]
  note scan = field [OF conjunct2 [OF agent] L(2) L(6)]
  note rule_set = field [OF conjunct2 [OF scan] L(3) L(7)]
  note rule = field [OF conjunct2 [OF rule_set] L(4) L(8)]
  note ids = conjunct1 [OF agent] conjunct1 [OF scan] conjunct1 [OF rule_set] conjunct1 [OF rule]
  note tail = conjunct2 [OF rule]
  from tail assms(3,4) have "av_preimage_sha256 (vr_accepted b) = av_preimage_sha256 (vr_accepted b')"
    and "be_bytes 8 (rule_version r) = be_bytes 8 (rule_version r')" by simp_all
  with ids assms(5,6) be_bytes_inject [of "rule_version r" 8 "rule_version r'"] show ?thesis
    by (simp add: as_str_inject u64_max_def)
qed

theorem finding_preimage_inject_witness:
  "finding_preimage ex_bundle ex_facts (Identifier ''agent'') ex_rule \<noteq>
   finding_preimage ex_bundle ex_facts (Identifier ''agent2'') ex_rule"
proof
  assume "finding_preimage ex_bundle ex_facts (Identifier ''agent'') ex_rule =
    finding_preimage ex_bundle ex_facts (Identifier ''agent2'') ex_rule"
  from finding_preimage_inject [OF this] show False
    by (simp add: ex_bundle_def ex_facts_def ex_rule_def u64_max_def)
qed

end
