(* ===== verification/Transitions.thy ===== *)
theory Transitions
  imports Prelude
begin

text \<open>
  What a stateful component promises over a whole run: an invariant every step keeps, and
  measures that never decrease. A component gives its operations as the rules of an
  \<open>inductive\<close> step relation and interprets these locales on it.
\<close>

locale stepping =
  fixes step :: "'s \<Rightarrow> 's \<Rightarrow> bool"
    and inv :: "'s \<Rightarrow> bool"
  assumes inv_step: "step s t \<Longrightarrow> inv s \<Longrightarrow> inv t"
begin

lemma inv_run: "step\<^sup>*\<^sup>* s t \<Longrightarrow> inv s \<Longrightarrow> inv t"
  by (induction rule: rtranclp_induct) (auto intro: inv_step)

end

locale monotone_stepping = stepping step inv
  for step :: "'s \<Rightarrow> 's \<Rightarrow> bool" and inv :: "'s \<Rightarrow> bool" +
  fixes gauge :: "'s \<Rightarrow> 'm::preorder"
  assumes gauge_step: "step s t \<Longrightarrow> inv s \<Longrightarrow> gauge s \<le> gauge t"
begin

lemma gauge_run: "step\<^sup>*\<^sup>* s t \<Longrightarrow> inv s \<Longrightarrow> gauge s \<le> gauge t"
proof (induction rule: rtranclp_induct)
  case base
  show ?case by (rule order_refl)
next
  case (step t u)
  then show ?case by (meson gauge_step inv_run order_trans)
qed

end

end
