(* ===== verification/Event_Rules.thy ===== *)
theory Event_Rules
  imports Subset_Correct Transitions
begin

text \<open>
  Process-event rules: \<open>openvibes-rules/src/event.rs\<close>. The closed table of \<open>event\<close> keys and the
  values of one process start, rule compilation with its worst-case cost, the limits of
  restricted rule sets, the \<open>programs\<close> prefilter, and the evaluation of one start under a shared
  operation budget. The lemmas show that the compile-time bound covers every charge of the
  interpreter, so an accepted rule is never stopped by its own limit.
\<close>

section \<open>The event binding\<close>

datatype event_type = ETString | ETInteger | ETBoolean | ETStrings

definition EVENT_KEYS :: "(string \<times> event_type \<times> nat) list" where
  "EVENT_KEYS =
     [(''process.exe'', ETString, 4096),
      (''process.name'', ETString, 4096),
      (''process.cmdline'', ETString, 262144),
      (''process.cmdline_truncated'', ETBoolean, 1),
      (''process.cwd'', ETString, 4096),
      (''process.uid'', ETInteger, 8),
      (''process.euid'', ETInteger, 8),
      (''parent.exe'', ETString, 4096),
      (''parent.name'', ETString, 4096),
      (''parent.cmdline'', ETString, 262144),
      (''ancestors.names'', ETStrings, 4096),
      (''ancestors.exes'', ETStrings, 4096)]"

definition EVENT_LIST_ITEMS :: nat where "EVENT_LIST_ITEMS = 5"

definition key_entry :: "string \<Rightarrow> (string \<times> event_type \<times> nat) option" where
  "key_entry key = find (\<lambda>(name, _, _). name = key) EVENT_KEYS"

primrec event_ty :: "event_type \<Rightarrow> ty" where
  "event_ty ETString = TString"
| "event_ty ETInteger = TInt"
| "event_ty ETBoolean = TBool"
| "event_ty ETStrings = TStrings"

datatype event_value = EvString string | EvInteger int | EvBoolean bool | EvStrings "string list"

datatype event_error = UnknownKey | WrongType | TooLarge | NotSorted

record process_event =
  pe_values :: "(string, event_value) btree_map"

definition process_event_default :: process_event where
  "process_event_default = \<lparr>pe_values = []\<rparr>"

definition event_value_check :: "event_type \<Rightarrow> nat \<Rightarrow> event_value \<Rightarrow> (unit, event_error) result" where
  "event_value_check t bound v =
     (case (t, v) of
        (ETString, EvString text) \<Rightarrow> if length text > bound then Err TooLarge else Ok ()
      | (ETInteger, EvInteger _) \<Rightarrow> Ok ()
      | (ETBoolean, EvBoolean _) \<Rightarrow> Ok ()
      | (ETStrings, EvStrings items) \<Rightarrow>
          if length items > EVENT_LIST_ITEMS \<or> list_ex (\<lambda>item. length item > bound) items then Err TooLarge
          else if unsorted_pair items then Err NotSorted
          else Ok ()
      | _ \<Rightarrow> Err WrongType)"

definition event_set :: "string \<Rightarrow> event_value \<Rightarrow> (process_event, unit, event_error) action" where
  "event_set key v ev =
     (case key_entry key of
        None \<Rightarrow> (Err UnknownKey, ev)
      | Some (name, t, bound) \<Rightarrow>
          (case event_value_check t bound v of
             Err e \<Rightarrow> (Err e, ev)
           | Ok _ \<Rightarrow> (Ok (), ev\<lparr>pe_values := bt_insert name v (pe_values ev)\<rparr>)))"

definition event_get :: "process_event \<Rightarrow> string \<Rightarrow> event_value option" where
  "event_get ev key = bt_get (pe_values ev) key"

primrec event_val :: "event_value \<Rightarrow> val" where
  "event_val (EvString s) = VString s"
| "event_val (EvInteger i) = VInt i"
| "event_val (EvBoolean b) = VBool b"
| "event_val (EvStrings vs) = VStrings vs"

definition event_type_of :: "string \<Rightarrow> (ty, evaluation_error) result" where
  "event_type_of key =
     ok_or UnsupportedExpression (map_option (\<lambda>(_, t, _). event_ty t) (key_entry key))"

definition event_bindings :: "process_event \<Rightarrow> bindings" where
  "event_bindings ev =
     \<lparr>b_name = ''event'', b_type_of = event_type_of,
      b_value = (\<lambda>key. rbind (ok_or UnavailableFact (event_get ev key)) (\<lambda>v. Ok (event_val v))),
      b_evidence = (\<lambda>_. None)\<rparr>"

definition schema_bindings :: bindings where
  "schema_bindings =
     \<lparr>b_name = ''event'', b_type_of = event_type_of,
      b_value = (\<lambda>_. Err UnsupportedExpression), b_evidence = (\<lambda>_. None)\<rparr>"

definition compile_clock :: "int \<Rightarrow> clock" where
  "compile_clock t = (\<lambda>_. (0, t))"

section \<open>Compilation\<close>

record compiled_rule =
  cr_rule_id :: ident
  cr_ast :: expr
  cr_programs :: "string list option"

record compiled_event_rules =
  cer_rules :: "compiled_rule list"
  cer_limits :: resource_limits
  cer_refused :: "(ident \<times> evaluation_error) list"

definition event_key :: "expr \<Rightarrow> string option" where
  "event_key e =
     (case e of
        ECall None OpIndex [EIdent name, ELiteral (LString key)] \<Rightarrow>
          if name = ''event'' then Some key else None
      | _ \<Rightarrow> None)"

definition binary_extra :: "func \<Rightarrow> nat \<Rightarrow> nat \<Rightarrow> nat" where
  "binary_extra f left_len right_len =
     (if f = OpAnd \<or> f = OpOr then 0
      else if f = OpIn then 3 * (1 + left_len + right_len)
      else left_len + right_len)"

fun worst_case :: "expr \<Rightarrow> (nat \<times> nat, evaluation_error) result" where
  "worst_case (EIdent n) = Err UnsupportedExpression"
| "worst_case (ELiteral lit) = (case lit of LString v \<Rightarrow> Ok (1, length v) | _ \<Rightarrow> Ok (1, 0))"
| "worst_case (ECall target f args) =
     (case event_key (ECall target f args) of
        Some key \<Rightarrow>
          rbind (ok_or UnsupportedExpression (key_entry key)) (\<lambda>(_, _, bound). Ok (1 + length key + 2, bound))
      | None \<Rightarrow>
          (case target of
             Some t \<Rightarrow> rbind (worst_case t) (\<lambda>(cost, len). Ok (1 + cost + method_cost len, 0))
           | None \<Rightarrow>
               (case args of
                  [v] \<Rightarrow> rbind (worst_case v) (\<lambda>(cost, _). Ok (1 + cost, 0))
                | [l, r] \<Rightarrow>
                    rbind (worst_case l) (\<lambda>(left_cost, left_len).
                    rbind (worst_case r) (\<lambda>(right_cost, right_len).
                    Ok (1 + left_cost + right_cost + binary_extra f left_len right_len, 0)))
                | _ \<Rightarrow> Err UnsupportedExpression)))"
| "worst_case EOther = Err UnsupportedExpression"

definition compile ::
  "cel_parser \<Rightarrow> string \<Rightarrow> resource_limits \<Rightarrow> (meter, expr, evaluation_error) action" where
  "compile cel expression l =
     abind (parse cel expression ''event'') (\<lambda>ast m.
       case check schema_bindings ast 1 \<lparr>cs_meter = m, cs_nodes = 0, cs_evidence = []\<rparr> of
         (Err e, cs) \<Rightarrow> (Err e, cs_meter cs)
       | (Ok ty, cs) \<Rightarrow>
           if ty \<noteq> TBool then (Err NonBoolean, cs_meter cs)
           else
             (case worst_case ast of
                Err e \<Rightarrow> (Err e, cs_meter cs)
              | Ok (cost, _) \<Rightarrow>
                  if cost > evaluation_operations l then (Err OperationLimit, cs_meter cs)
                  else (Ok ast, cs_meter cs)))"

definition compile_rule ::
  "cel_parser \<Rightarrow> verified_rule_set \<Rightarrow> resource_limits \<Rightarrow> rule \<Rightarrow> compiled_event_rules \<Rightarrow> compiled_event_rules" where
  "compile_rule cel bundle l r c =
     (case fst (compile cel (rule_expression r) l
            (meter_new (compile_clock (vr_created_at_unix_ms bundle)) 0 bundle l)) of
        Ok ast \<Rightarrow> c\<lparr>cer_rules := cer_rules c @
            [\<lparr>cr_rule_id = rule_id r, cr_ast = ast, cr_programs = rule_programs r\<rparr>]\<rparr>
      | Err e \<Rightarrow> c\<lparr>cer_refused := cer_refused c @ [(rule_id r, e)]\<rparr>)"

definition compile_event_rules ::
  "cel_parser \<Rightarrow> verified_rule_set \<Rightarrow> resource_limits \<Rightarrow> compiled_event_rules" where
  "compile_event_rules cel bundle l =
     fold (compile_rule cel bundle l)
       (filter (\<lambda>r. rule_kind_of r = ProcessEventKind) (rs_rules (vr_rules bundle)))
       \<lparr>cer_rules = [], cer_limits = l, cer_refused = []\<rparr>"

text \<open>The loader's static check of one rule and of a rule set.\<close>

definition check_rule ::
  "cel_parser \<Rightarrow> rule \<Rightarrow> resource_limits \<Rightarrow> (unit, evaluation_error) result" where
  "check_rule cel r l =
     (let m = meter_unbound (compile_clock 0) 0 l in
      case rule_kind_of r of
        ProcessEventKind \<Rightarrow> rbind (fst (compile cel (rule_expression r) l m)) (\<lambda>_. Ok ())
      | Snapshot \<Rightarrow> rbind (fst (parse cel (rule_expression r) ''facts'' m)) check_method_shapes)"

fun check_rules :: "cel_parser \<Rightarrow> rule list \<Rightarrow> resource_limits \<Rightarrow> (unit, evaluation_error) result" where
  "check_rules cel [] l = Ok ()"
| "check_rules cel (r # rs) l = rbind (check_rule cel r l) (\<lambda>_. check_rules cel rs l)"

definition check_rule_set ::
  "cel_parser \<Rightarrow> rule_set \<Rightarrow> resource_limits \<Rightarrow> (unit, evaluation_error) result" where
  "check_rule_set cel s l = check_rules cel (rs_rules s) l"

section \<open>Restricted rule sets and the prefilter\<close>

definition RESTRICTED_RULE_PROGRAMS :: nat where "RESTRICTED_RULE_PROGRAMS = 8"
definition RESTRICTED_SET_PROGRAMS :: nat where "RESTRICTED_SET_PROGRAMS = 32"

definition rule_program_list :: "compiled_rule \<Rightarrow> string list" where
  "rule_program_list r = (case cr_programs r of None \<Rightarrow> [] | Some ps \<Rightarrow> ps)"

definition distinct_count :: "string list \<Rightarrow> nat" where
  "distinct_count ps = length (remdups ps)"

definition programs_fit :: "compiled_rule \<Rightarrow> bool" where
  "programs_fit r \<longleftrightarrow>
     (case cr_programs r of
        None \<Rightarrow> False
      | Some ps \<Rightarrow>
          1 \<le> distinct_count ps \<and> distinct_count ps \<le> RESTRICTED_RULE_PROGRAMS \<and>
          list_all (\<lambda>p. p \<noteq> []) ps)"

definition restrict :: "compiled_event_rules \<Rightarrow> compiled_event_rules" where
  "restrict c =
     (let too_many = distinct_count (concat (map rule_program_list (cer_rules c))) > RESTRICTED_SET_PROGRAMS;
          fits = (\<lambda>r. \<not> too_many \<and> programs_fit r) in
      c\<lparr>cer_rules := filter fits (cer_rules c),
        cer_refused := cer_refused c @
          map (\<lambda>r. (cr_rule_id r, Restricted)) (filter (\<lambda>r. \<not> fits r) (cer_rules c))\<rparr>)"

record program =
  prog_exe :: "string option"
  prog_name :: "string option"
  prog_base :: "string option"

definition event_text :: "process_event \<Rightarrow> string \<Rightarrow> string option" where
  "event_text ev key = (case event_get ev key of Some (EvString t) \<Rightarrow> Some t | _ \<Rightarrow> None)"

definition program_of :: "process_event \<Rightarrow> program" where
  "program_of ev =
     \<lparr>prog_exe = event_text ev ''process.exe'', prog_name = event_text ev ''process.name'',
      prog_base = map_option basename (event_text ev ''process.exe'')\<rparr>"

definition named_by :: "program \<Rightarrow> compiled_rule \<Rightarrow> bool" where
  "named_by p r \<longleftrightarrow>
     (case cr_programs r of
        None \<Rightarrow> True
      | Some programs \<Rightarrow>
          list_ex (\<lambda>q. Some q \<in> set [prog_exe p, prog_name p, prog_base p]) programs)"

definition names :: "compiled_event_rules \<Rightarrow> process_event \<Rightarrow> bool" where
  "names c ev \<longleftrightarrow> list_ex (named_by (program_of ev)) (cer_rules c)"

section \<open>Evaluating one start\<close>

record event_outcome =
  eo_detection :: "detection option"
  eo_rule_id :: ident
  eo_matched :: bool
  eo_unavailable :: bool
  eo_failure :: "evaluation_error option"

definition worst_case_total :: "compiled_event_rules \<Rightarrow> nat" where
  "worst_case_total c =
     fold (\<lambda>r total. u64_saturating_add total
         (case worst_case (cr_ast r) of Ok (cost, _) \<Rightarrow> cost | Err _ \<Rightarrow> u64_max))
       (cer_rules c) 0"

definition outcome_of_run ::
  "trace_env \<Rightarrow> verified_rule_set \<Rightarrow> compiled_rule \<Rightarrow> (val, evaluation_error) result \<Rightarrow> run_state \<Rightarrow> event_outcome" where
  "outcome_of_run E bundle r result s =
     (let o0 = \<lparr>eo_detection = None, eo_rule_id = cr_rule_id r, eo_matched = False,
                eo_unavailable = False, eo_failure = None\<rparr> in
      case result of
        Ok (VBool matched) \<Rightarrow>
          o0\<lparr>eo_matched := matched,
             eo_detection := (if matched then Some (finish E bundle ''event'' (meter_remaining (fst s)) (snd s))
                              else None)\<rparr>
      | Ok _ \<Rightarrow> o0\<lparr>eo_failure := Some NonBoolean\<rparr>
      | Err UnavailableFact \<Rightarrow> o0\<lparr>eo_unavailable := True\<rparr>
      | Err e \<Rightarrow> o0\<lparr>eo_failure := Some e\<rparr>)"

text \<open>The limits of one rule's run: its own, or what is left of the start's budget.\<close>

definition rule_limits :: "resource_limits \<Rightarrow> nat \<Rightarrow> resource_limits" where
  "rule_limits l budget = l\<lparr>evaluation_operations := min (evaluation_operations l) budget\<rparr>"

text \<open>The loop over the rules: outcomes so far, whether the start was cut, the budget left and the
  index of the next clock reading.\<close>

fun evaluate_within_loop ::
  "trace_env \<Rightarrow> resource_limits \<Rightarrow> verified_rule_set \<Rightarrow> process_event \<Rightarrow> clock \<Rightarrow>
   nat \<Rightarrow> nat \<Rightarrow> compiled_rule list \<Rightarrow> event_outcome list \<times> bool \<times> nat \<times> nat" where
  "evaluate_within_loop E l bundle ev clk i budget [] = ([], False, budget, i)"
| "evaluate_within_loop E l bundle ev clk i budget (r # rs) =
     (if \<not> named_by (program_of ev) r then evaluate_within_loop E l bundle ev clk i budget rs
      else if budget = 0 then ([], True, budget, i)
      else
        (let (result, s) = run (event_bindings ev) (cr_ast r)
               (meter_new clk i bundle (rule_limits l budget), trace_new);
             budget' = budget - m_used (fst s) in
         if budget < evaluation_operations l \<and> result = Err OperationLimit
         then ([], True, budget', m_tick (fst s))
         else
           (let (outcomes, rest) = evaluate_within_loop E l bundle ev clk (m_tick (fst s)) budget' rs
            in (outcome_of_run E bundle r result s # outcomes, rest))))"

definition evaluate_within ::
  "trace_env \<Rightarrow> compiled_event_rules \<Rightarrow> verified_rule_set \<Rightarrow> process_event \<Rightarrow> clock \<Rightarrow> nat \<Rightarrow> nat \<Rightarrow>
   event_outcome list \<times> bool \<times> nat \<times> nat" where
  "evaluate_within E c bundle ev clk i budget =
     evaluate_within_loop E (cer_limits c) bundle ev clk i budget (cer_rules c)"

definition evaluate_event ::
  "trace_env \<Rightarrow> compiled_event_rules \<Rightarrow> verified_rule_set \<Rightarrow> process_event \<Rightarrow> clock \<Rightarrow> nat \<Rightarrow> event_outcome list" where
  "evaluate_event E c bundle ev clk i = fst (evaluate_within E c bundle ev clk i u64_max)"

section \<open>Every event is well formed\<close>

definition event_wf :: "process_event \<Rightarrow> bool" where
  "event_wf ev \<longleftrightarrow>
     bt_invar (pe_values ev) \<and>
     (\<forall>k v. event_get ev k = Some v \<longrightarrow>
        (\<exists>t bound. key_entry k = Some (k, t, bound) \<and> event_value_check t bound v = Ok ()))"

inductive event_step :: "process_event \<Rightarrow> process_event \<Rightarrow> bool" where
  set: "event_set key v ev = (Ok (), ev') \<Longrightarrow> event_step ev ev'"

inductive_cases event_stepE: "event_step ev ev'"

lemma key_entry_name: "key_entry k = Some (n, t, bound) \<Longrightarrow> n = k"
  by (auto simp: key_entry_def find_Some_iff)

lemma event_wf_default: "event_wf process_event_default"
  by (simp add: event_wf_def process_event_default_def event_get_def bt_get_def bt_invar_def bt_keys_def)

lemma event_set_Ok:
  assumes "event_set key v ev = (Ok (), ev')"
  obtains t bound where "key_entry key = Some (key, t, bound)" "event_value_check t bound v = Ok ()"
    "ev' = ev\<lparr>pe_values := bt_insert key v (pe_values ev)\<rparr>"
proof -
  from assms obtain n t bound where e: "key_entry key = Some (n, t, bound)" "event_value_check t bound v = Ok ()"
    "ev' = ev\<lparr>pe_values := bt_insert n v (pe_values ev)\<rparr>"
    by (auto simp: event_set_def split: option.splits result.splits)
  with key_entry_name [OF e(1)] that show thesis by simp
qed

lemma event_set_wf: "event_set key v ev = (Ok (), ev') \<Longrightarrow> event_wf ev \<Longrightarrow> event_wf ev'"
  by (elim event_set_Ok) (auto simp: event_wf_def event_get_def bt_invar_insert bt_get_insert)

interpretation events: stepping event_step event_wf
  by unfold_locales (auto elim!: event_stepE dest: event_set_wf)

lemma event_value_check_type: "event_value_check t bound v = Ok () \<Longrightarrow> val_type (event_val v) = event_ty t"
  by (cases t; cases v) (auto simp: event_value_check_def)

lemma event_bindings_sel [simp]:
  "b_name (event_bindings ev) = ''event''" "b_type_of (event_bindings ev) = event_type_of"
  "b_evidence (event_bindings ev) = (\<lambda>_. None)"
  "b_value (event_bindings ev) k = (case event_get ev k of None \<Rightarrow> Err UnavailableFact | Some v \<Rightarrow> Ok (event_val v))"
  by (simp_all add: event_bindings_def ok_or_def split: option.splits)

lemma schema_bindings_sel [simp]:
  "b_name schema_bindings = ''event''" "b_type_of schema_bindings = event_type_of"
  "b_evidence schema_bindings = (\<lambda>_. None)"
  by (simp_all add: schema_bindings_def)

lemma event_value_check_strings:
  "event_value_check t bound (EvStrings vs) = Ok () \<longleftrightarrow>
   t = ETStrings \<and> length vs \<le> EVENT_LIST_ITEMS \<and> (\<forall>v \<in> set vs. length v \<le> bound) \<and> sorted_wrt (<) vs"
  by (cases t, auto simp: event_value_check_def unsorted_pair_iff list_ex_iff not_less) (metis leD)

lemma event_value_check_string:
  "event_value_check t bound (EvString s) = Ok () \<longleftrightarrow> t = ETString \<and> length s \<le> bound"
  by (cases t) (auto simp: event_value_check_def)

interpretation event: bindings_law event_bindings event_wf
proof
  fix ev k t
  assume "event_wf ev" "b_type_of (event_bindings ev) k = Ok t"
  then show "b_value (event_bindings ev) k = Err UnavailableFact \<or>
      (\<exists>v. b_value (event_bindings ev) k = Ok v \<and> val_type v = t)"
    by (fastforce simp: event_type_of_def event_wf_def dest: event_value_check_type split: option.splits)
next
  fix ev k vs
  assume wf: "event_wf ev" and "b_value (event_bindings ev) k = Ok (VStrings vs)"
  then obtain v where v: "event_get ev k = Some v" "event_val v = VStrings vs"
    by (auto split: option.splits)
  then have "v = EvStrings vs" by (cases v) auto
  with wf v(1) obtain t bound where "event_value_check t bound (EvStrings vs) = Ok ()"
    unfolding event_wf_def by blast
  then show "sorted vs"
    by (simp add: event_value_check_strings strict_sorted_imp_sorted)
qed

text \<open>Checking against the schema is checking against any event: the key table gives the types.\<close>

lemma typing_schema: "typing schema_bindings e = typing (event_bindings ev) e"
  by (induction e rule: expr_shape_induct) (auto split: option.splits)

section \<open>The worst case bounds every charge\<close>

primrec size_le :: "val \<Rightarrow> nat \<Rightarrow> bool" where
  "size_le (VBool b) n \<longleftrightarrow> True"
| "size_le (VInt i) n \<longleftrightarrow> True"
| "size_le (VString s) n \<longleftrightarrow> length s \<le> n"
| "size_le (VStrings vs) n \<longleftrightarrow> length vs \<le> EVENT_LIST_ITEMS \<and> (\<forall>v \<in> set vs. length v \<le> n)"

text \<open>\<open>within m n\<close>: the action charges at most \<open>n\<close>, and reports the operation limit only when \<open>n\<close>
  did not fit.\<close>

definition within :: "(run_state, 'a, evaluation_error) action \<Rightarrow> nat \<Rightarrow> bool" where
  "within m n \<longleftrightarrow>
     (\<forall>s r s'. m s = (r, s') \<longrightarrow>
        m_used (fst s') \<le> m_used (fst s) + n \<and> m_limits (fst s') = m_limits (fst s) \<and>
        (r = Err OperationLimit \<longrightarrow> evaluation_operations (m_limits (fst s)) < m_used (fst s) + n))"

lemma withinD:
  "within m n \<Longrightarrow> m s = (r, s') \<Longrightarrow>
   m_used (fst s') \<le> m_used (fst s) + n \<and> m_limits (fst s') = m_limits (fst s) \<and>
   (r = Err OperationLimit \<longrightarrow> evaluation_operations (m_limits (fst s)) < m_used (fst s) + n)"
  unfolding within_def by blast

lemma within_mono: "within m a \<Longrightarrow> a \<le> b \<Longrightarrow> within m b"
  by (auto simp: within_def dest!: withinD) fastforce+

lemma within_basic [simp, intro]:
  "within (areturn x) n" "e \<noteq> OperationLimit \<Longrightarrow> within (araise e) n"
  "r \<noteq> Err OperationLimit \<Longrightarrow> within (alift r) n"
  by (simp_all add: within_def action_defs)

lemma within_charge: "within (run_charge n) n"
  unfolding within_def run_charge_def
  by (auto split: prod.splits simp: meter_le_def dest: charge_meter_le charge_operation_limit)

lemma within_abind:
  assumes "within m a" and "\<And>v s s'. m s = (Ok v, s') \<Longrightarrow> within (f v) b"
  shows "within (abind m f) (a + b)"
  unfolding within_def
proof (intro allI impI)
  fix s r s'
  assume bind: "abind m f s = (r, s')"
  obtain q t where m: "m s = (q, t)" by (cases "m s")
  from assms(1) m have t: "m_used (fst t) \<le> m_used (fst s) + a" "m_limits (fst t) = m_limits (fst s)"
    "q = Err OperationLimit \<Longrightarrow> evaluation_operations (m_limits (fst s)) < m_used (fst s) + a"
    using withinD by blast+
  show "m_used (fst s') \<le> m_used (fst s) + (a + b) \<and> m_limits (fst s') = m_limits (fst s) \<and>
      (r = Err OperationLimit \<longrightarrow> evaluation_operations (m_limits (fst s)) < m_used (fst s) + (a + b))"
  proof (cases q)
    case (Ok v)
    with bind m have "f v t = (r, s')" by (simp add: abind_def)
    from withinD [OF assms(2) [OF m [unfolded Ok]] this] t show ?thesis by auto
  next
    case (Err e)
    with bind m t show ?thesis by (auto simp: abind_def)
  qed
qed

lemma within_charged: "within (f ()) b \<Longrightarrow> within (abind (run_charge n) f) (n + b)"
  by (rule within_abind [OF within_charge]) simp

lemma within_charged_one: "within (f ()) 0 \<Longrightarrow> within (abind (run_charge (Suc 0)) f) (Suc 0)"
  using within_charged [of f 0 1] by simp

lemma within_record: "within m a \<Longrightarrow> within (abind m (run_record e n)) a"
  using within_abind [of m a "run_record e n" 0] by (simp add: within_def run_record_def)

text \<open>A binary search over fewer than \<open>2 ^ k\<close> items probes at most \<open>k\<close> of them.\<close>

lemma within_in_search:
  assumes "\<forall>v \<in> set vs. length v \<le> n"
  shows "high - low < 2 ^ k \<Longrightarrow> high \<le> length vs \<Longrightarrow>
    within (in_search x vs low high) (k * (1 + length x + n))"
proof (induction k arbitrary: low high)
  case 0
  then show ?case by (simp add: in_search.simps [of x vs low high])
next
  case (Suc k)
  show ?case
  proof (cases "low < high")
    case False
    then show ?thesis by (simp add: in_search.simps [of x vs low high])
  next
    case True
    define mid where "mid = low + (high - low) div 2"
    have mid: "low \<le> mid" "mid < high" using True by (auto simp: mid_def)
    have halves: "high - (mid + 1) < 2 ^ k" "mid - low < 2 ^ k"
      using Suc.prems(1) True by (auto simp: mid_def)
    have item: "length (vs ! mid) \<le> n" using assms mid Suc.prems(2) by simp
    have "within (abind (run_charge (1 + length x + length (vs ! mid))) (\<lambda>_.
        if vs ! mid < x then in_search x vs (mid + 1) high
        else if vs ! mid > x then in_search x vs low mid else areturn (VBool True)))
      ((1 + length x + length (vs ! mid)) + k * (1 + length x + n))"
      using Suc.IH [OF halves(1)] Suc.IH [OF halves(2)] Suc.prems(2) mid
      by (intro within_charged) auto
    then have "within (abind (run_charge (1 + length x + length (vs ! mid))) (\<lambda>_.
        if vs ! mid < x then in_search x vs (mid + 1) high
        else if vs ! mid > x then in_search x vs low mid else areturn (VBool True)))
      (Suc k * (1 + length x + n))"
      by (rule within_mono) (use item in simp)
    then show ?thesis by (simp only: in_search_step [OF True mid_def])
  qed
qed

lemma within_in_five:
  assumes "length vs \<le> EVENT_LIST_ITEMS" "\<forall>v \<in> set vs. length v \<le> n"
  shows "within (in_search x vs 0 (length vs)) (3 * (1 + length x + n))"
  by (rule within_in_search [OF assms(2)]) (use assms(1) in \<open>simp_all add: EVENT_LIST_ITEMS_def\<close>)

lemma event_key_binding: "event_key e = binding_key e ''event''"
  by (simp add: event_key_def binding_key_def)

lemma within_run_binary:
  assumes "size_le a m" "size_le b n"
  shows "within (run_binary f a b) (binary_extra f m n)"
proof -
  have order: "order_result f x \<noteq> Err OperationLimit" for x
    by (cases f) (auto simp: order_result_def)
  have compare: "within (compare_values a b) (m + n)"
  proof (cases a)
    case (VString s)
    show ?thesis
    proof (cases b)
      case (VString t)
      have "within (abind (run_charge (length s + length t)) (\<lambda>_. areturn (cmp s t))) ((length s + length t) + 0)"
        by (rule within_charged) simp
      from within_mono [OF this, of "m + n"] assms \<open>a = VString s\<close> VString show ?thesis
        by (simp add: compare_values_def)
    qed (simp_all add: VString compare_values_def)
  qed (cases b; simp add: compare_values_def)+
  show ?thesis
  proof (cases "f = OpAnd \<or> f = OpOr")
    case True
    then show ?thesis by (cases a; cases b) (auto simp: run_binary_def)
  next
    case no_logic: False
    show ?thesis
    proof (cases "f = OpIn")
      case True
      show ?thesis
      proof (cases "\<exists>x vs. a = VString x \<and> b = VStrings vs")
        case strings: True
        then obtain x vs where ab: "a = VString x" "b = VStrings vs" by blast
        with assms have "within (in_search x vs 0 (length vs)) (3 * (1 + length x + n))"
          by (intro within_in_five) auto
        then have "within (in_search x vs 0 (length vs)) (3 * (1 + m + n))"
          by (rule within_mono) (use ab assms in simp)
        then show ?thesis using ab True by (simp add: run_binary_def binary_extra_def)
      next
        case False
        with True show ?thesis by (cases a; cases b) (auto simp: run_binary_def)
      qed
    next
      case False
      have "within (abind (compare_values a b) (\<lambda>order. alift (order_result f order))) ((m + n) + 0)"
        by (rule within_abind [OF compare]) (simp add: order)
      with False no_logic show ?thesis by (simp add: run_binary_def binary_extra_def)
    qed
  qed
qed

lemma within_run_method:
  assumes "size_le v n" shows "within (run_method f lit v) (method_cost n)"
proof (cases v)
  case (VString s)
  have "within (abind (run_charge (method_cost (length s))) (\<lambda>_.
            if f = Named ''startsWith'' then areturn (VBool (starts_with s lit))
            else if f = Named ''endsWith'' then areturn (VBool (ends_with s lit))
            else if f = Named ''contains'' then areturn (VBool (str_contains s lit))
            else araise UnsupportedExpression)) (method_cost (length s) + 0)"
    by (rule within_charged) auto
  moreover have "method_cost (length s) \<le> method_cost n"
    using assms VString unfolding method_cost_def by (intro max.mono div_le_mono) simp_all
  ultimately have "within (abind (run_charge (method_cost (length s))) (\<lambda>_.
            if f = Named ''startsWith'' then areturn (VBool (starts_with s lit))
            else if f = Named ''endsWith'' then areturn (VBool (ends_with s lit))
            else if f = Named ''contains'' then areturn (VBool (str_contains s lit))
            else araise UnsupportedExpression)) (method_cost n)"
    by (intro within_mono [where b = "method_cost n"]) simp_all
  with VString show ?thesis by (simp add: run_method_def)
qed (simp_all add: run_method_def)

lemma within_run_unary: "within (run_not v) n" "within (run_negate v) n"
  by (cases v; simp add: run_not_def run_negate_def ok_or_def i64_checked_neg_def)+

lemma event_value_size:
  assumes "event_wf ev" "key_entry k = Some (n, t, bound)" "b_value (event_bindings ev) k = Ok v"
  shows "size_le v bound"
proof -
  from assms(3) obtain w where w: "event_get ev k = Some w" "v = event_val w" by (auto split: option.splits)
  with assms(1,2) have "event_value_check t bound w = Ok ()" unfolding event_wf_def by fastforce
  with w show ?thesis by (cases w) (auto simp: event_value_check_string event_value_check_strings)
qed

lemma denote_size:
  "event_wf ev \<Longrightarrow> worst_case e = Ok (c, n) \<Longrightarrow> denote (event_bindings ev) e = Ok v \<Longrightarrow> size_le v n"
proof (induction e rule: expr_shape_induct)
  case (Literal lit)
  then show ?case by (cases lit) auto
next
  case (Method t f args)
  then show ?case
    by (auto simp: event_key_binding rbind_Ok_iff dest!: denote_method_bool split: prod.splits)
next
  case (Unary f v')
  then show ?case
    by (auto simp: event_key_binding rbind_Ok_iff dest!: denote_not_bool denote_negate_int
        split: prod.splits if_splits)
next
  case (Binary f l r)
  show ?case
  proof (cases "binding_key (ECall None f [l, r]) ''event''")
    case (Some key)
    with Binary.prems show ?thesis
      by (auto simp: event_key_binding rbind_Ok_iff intro: event_value_size simp del: event_bindings_sel(4))
  next
    case None
    with Binary.prems show ?thesis
      by (auto simp: event_key_binding rbind_Ok_iff dest!: denote_binary_bool split: prod.splits if_splits)
  qed
qed (auto simp: event_key_binding)

lemma run_event_size:
  assumes "event_wf ev" "worst_case e = Ok (c, n)" "run (event_bindings ev) e s = (Ok v, s')"
  shows "size_le v n"
  using denote_size [OF assms(1,2)] meetsD(1) [OF meets_run [OF event.sorted_lists [OF assms(1)]] assms(3)] by blast

lemma within_run_inner_run: "within (run_inner B e) c \<Longrightarrow> within (run B e) c"
  by (simp add: run.simps within_record)

lemma within_run_inner:
  "event_wf ev \<Longrightarrow> worst_case e = Ok (c, n) \<Longrightarrow> within (run_inner (event_bindings ev) e) c"
proof (induction e arbitrary: c n rule: expr_shape_induct)
  case (Literal lit)
  then show ?case by (cases lit) (auto intro!: within_charged_one)
next
  case (Method t f args)
  from Method.prems obtain c1 n1 where wc: "worst_case t = Ok (c1, n1)" "c = 1 + (c1 + method_cost n1)"
    by (auto simp: event_key_binding rbind_Ok_iff split: prod.splits)
  have body: "within (abind (run (event_bindings ev) t) (run_method f lit)) (c1 + method_cost n1)" for lit
    using Method wc run_event_size
    by (intro within_abind within_run_inner_run) (auto intro!: within_run_method)
  have "within (abind (alift (method_call (Some t) f args)) (\<lambda>tl.
      abind (run (event_bindings ev) t) (run_method f (snd tl)))) (0 + (c1 + method_cost n1))"
    by (rule within_abind) (auto simp: method_call_def body split: list.splits expr.splits literal.splits)
  then have "within (abind (run_charge 1) (\<lambda>_. abind (alift (method_call (Some t) f args)) (\<lambda>tl.
      abind (run (event_bindings ev) t) (run_method f (snd tl))))) (1 + (c1 + method_cost n1))"
    by (intro within_charged) simp
  with wc show ?case by simp
next
  case (Unary f v)
  from Unary.prems obtain c1 n1 where wc: "worst_case v = Ok (c1, n1)" "c = 1 + c1"
    by (auto simp: event_key_binding rbind_Ok_iff split: prod.splits)
  have body: "within (abind (run (event_bindings ev) v) g) (c1 + 0)" if "g \<in> {run_not, run_negate}" for g
    using that Unary wc by (intro within_abind within_run_inner_run) (auto simp: within_run_unary)
  have "within (abind (run_charge 1) (\<lambda>_.
      if f = OpNot then abind (run (event_bindings ev) v) run_not
      else if f = OpNegate then abind (run (event_bindings ev) v) run_negate
      else araise UnsupportedExpression)) (1 + c1)"
    using body [of run_not] body [of run_negate] by (intro within_charged) auto
  with wc show ?case by simp
next
  case (Binary f l r)
  show ?case
  proof (cases "binding_key (ECall None f [l, r]) ''event''")
    case (Some key)
    with Binary.prems have c: "c = 1 + ((length key + 2) + 0)"
      by (auto simp: event_key_binding rbind_Ok_iff)
    have "b_value (event_bindings ev) key \<noteq> Err OperationLimit" by (auto split: option.splits)
    then have "within (abind (run_charge 1) (\<lambda>_. abind (run_charge (length key + 2))
        (\<lambda>_. alift (b_value (event_bindings ev) key)))) (1 + ((length key + 2) + 0))"
      by (intro within_charged) simp
    with Some c show ?thesis by simp
  next
    case None
    with Binary.prems obtain lc ln rc rn where wc: "worst_case l = Ok (lc, ln)" "worst_case r = Ok (rc, rn)"
      "c = 1 + (lc + (rc + binary_extra f ln rn))"
      by (auto simp: event_key_binding rbind_Ok_iff split: prod.splits)
    have right: "within (abind (run (event_bindings ev) r) (run_binary f left)) (rc + binary_extra f ln rn)"
      if "size_le left ln" for left
      using that Binary wc run_event_size
      by (intro within_abind within_run_inner_run) (auto intro!: within_run_binary)
    have "within (abind (run (event_bindings ev) l) (\<lambda>left.
          if f = OpAnd \<and> left = VBool False then areturn (VBool False)
          else if f = OpOr \<and> left = VBool True then areturn (VBool True)
          else abind (run (event_bindings ev) r) (run_binary f left))) (lc + (rc + binary_extra f ln rn))"
      using Binary wc run_event_size right by (intro within_abind within_run_inner_run) auto
    then have "within (abind (run_charge 1) (\<lambda>_. abind (run (event_bindings ev) l) (\<lambda>left.
          if f = OpAnd \<and> left = VBool False then areturn (VBool False)
          else if f = OpOr \<and> left = VBool True then areturn (VBool True)
          else abind (run (event_bindings ev) r) (run_binary f left)))) (1 + (lc + (rc + binary_extra f ln rn)))"
      by (intro within_charged) simp
    with None wc show ?thesis by simp
  qed
qed (auto simp: event_key_binding)

lemma within_run: "event_wf ev \<Longrightarrow> worst_case e = Ok (c, n) \<Longrightarrow> within (run (event_bindings ev) e) c"
  by (intro within_run_inner_run within_run_inner)

text \<open>With room for the worst case, a run never reports the operation limit.\<close>

lemma run_within_budget:
  assumes "event_wf ev" "worst_case e = Ok (c, n)"
    and "run (event_bindings ev) e s = (r, s')" "m_used (fst s) + c \<le> evaluation_operations (m_limits (fst s))"
  shows "r \<noteq> Err OperationLimit" and "m_used (fst s') \<le> m_used (fst s) + c"
  using withinD [OF within_run [OF assms(1,2)] assms(3)] assms(4) by auto

lemma worst_case_pos: "worst_case e = Ok (c, n) \<Longrightarrow> 0 < c"
  by (induction e rule: expr_shape_induct)
    (auto simp: event_key_binding rbind_Ok_iff split: literal.splits option.splits prod.splits)

section \<open>Accepted rules\<close>

definition rule_accepted :: "resource_limits \<Rightarrow> compiled_rule \<Rightarrow> bool" where
  "rule_accepted l r \<longleftrightarrow>
     typing schema_bindings (cr_ast r) = Some TBool \<and>
     (case worst_case (cr_ast r) of Ok (cost, _) \<Rightarrow> cost \<le> evaluation_operations l | Err _ \<Rightarrow> False)"

lemma compile_accepted:
  assumes "fst (compile cel src l m) = Ok ast"
  shows "rule_accepted l \<lparr>cr_rule_id = i, cr_ast = ast, cr_programs = p\<rparr>"
proof -
  obtain m' where m': "compile cel src l m = (Ok ast, m')"
    using assms by (cases "compile cel src l m") auto
  from this [unfolded compile_def] show ?thesis
    by (elim abind_Ok) (auto simp: rule_accepted_def split: prod.splits result.splits if_splits dest!: check_Ok)
qed

lemma compile_rule_accepted:
  "list_all (rule_accepted l) (cer_rules c) \<Longrightarrow>
   list_all (rule_accepted l) (cer_rules (compile_rule cel bundle l r c))"
  by (auto simp: compile_rule_def compile_accepted split: result.splits)

lemma compile_rules_accepted:
  "list_all (rule_accepted l) (cer_rules c) \<Longrightarrow>
   list_all (rule_accepted l) (cer_rules (fold (compile_rule cel bundle l) rs c))"
  by (induction rs arbitrary: c) (simp_all add: compile_rule_accepted)

lemma compile_event_rules_accepted: "list_all (rule_accepted l) (cer_rules (compile_event_rules cel bundle l))"
  unfolding compile_event_rules_def by (rule compile_rules_accepted) simp

lemma compile_rules_limits: "cer_limits (fold (compile_rule cel bundle l) rs c) = cer_limits c"
  by (induction rs arbitrary: c) (auto simp: compile_rule_def split: result.splits)

lemma compile_event_rules_limits [simp]: "cer_limits (compile_event_rules cel bundle l) = l"
  by (simp add: compile_event_rules_def compile_rules_limits)

text \<open>Any run of an accepted rule, under its own limit or a smaller one.\<close>

lemma accepted_run:
  assumes acc: "rule_accepted l r" and wf: "event_wf ev"
    and run: "run (event_bindings ev) (cr_ast r) (meter_new clk i bundle l', trace_new) = (result, s)"
  shows "(\<exists>b. result = Ok (VBool b) \<and> denote (event_bindings ev) (cr_ast r) = Ok (VBool b)) \<or>
    (\<exists>x \<in> meter_errors. result = Err x) \<or>
    (result = Err UnavailableFact \<and> key_missing (event_bindings ev) (cr_ast r)) \<or>
    (result = Err TypeMismatch \<and> neg_overflow (event_bindings ev) (cr_ast r))"
proof -
  from acc have "typing (event_bindings ev) (cr_ast r) = Some TBool"
    by (simp add: rule_accepted_def typing_schema [of _ ev])
  from event.run_checked [OF wf this run] show ?thesis
  proof (elim disjE)
    assume "\<exists>v. result = Ok v \<and> denote (event_bindings ev) (cr_ast r) = Ok v \<and> val_type v = TBool"
    then obtain v where v: "result = Ok v" "denote (event_bindings ev) (cr_ast r) = Ok v" "val_type v = TBool" by blast
    from v(3) obtain b where "v = VBool b" by (cases v) auto
    with v show ?thesis by blast
  qed blast+
qed

lemma accepted_cost:
  assumes "rule_accepted l r" and wf: "event_wf ev"
    and run: "run (event_bindings ev) (cr_ast r) (meter_new clk i bundle l', trace_new) = (result, s)"
  obtains c n where "worst_case (cr_ast r) = Ok (c, n)" "c \<le> evaluation_operations l" "0 < c"
    "m_used (fst s) \<le> c" "c \<le> evaluation_operations l' \<Longrightarrow> result \<noteq> Err OperationLimit"
proof -
  from assms(1) obtain c n where wc: "worst_case (cr_ast r) = Ok (c, n)" "c \<le> evaluation_operations l"
    by (auto simp: rule_accepted_def split: result.splits)
  from withinD [OF within_run [OF wf wc(1)] run] worst_case_pos [OF wc(1)] that [OF wc] show thesis by auto
qed

section \<open>The loop over the rules\<close>

lemma sat_fold_mono: "t \<le> fold (\<lambda>r total. u64_saturating_add total (f r)) rs t \<or> u64_max < t"
proof (induction rs arbitrary: t)
  case Nil
  then show ?case by simp
next
  case (Cons r rs)
  have "t \<le> u64_saturating_add t (f r) \<or> u64_max < t" by (auto simp: u64_saturating_add_def)
  moreover have "u64_saturating_add t (f r) \<le> u64_max" by (simp add: u64_saturating_add_def)
  ultimately show ?case using Cons.IH [of "u64_saturating_add t (f r)"] by auto
qed

lemma sat_fold_exact:
  "fold (\<lambda>r total. u64_saturating_add total (f r)) rs t < u64_max \<Longrightarrow>
   fold (\<lambda>r total. u64_saturating_add total (f r)) rs t = t + sum_list (map f rs)"
proof (induction rs arbitrary: t)
  case Nil
  then show ?case by simp
next
  case (Cons r rs)
  have "u64_saturating_add t (f r) \<le> u64_max" by (simp add: u64_saturating_add_def)
  with Cons.prems sat_fold_mono [of "u64_saturating_add t (f r)" f rs] have "u64_saturating_add t (f r) < u64_max"
    by auto
  then have "u64_saturating_add t (f r) = t + f r" by (auto simp: u64_saturating_add_def min_def split: if_splits)
  with Cons.prems Cons.IH [of "t + f r"] show ?case by simp
qed

definition cost_of :: "compiled_rule \<Rightarrow> nat" where
  "cost_of r = (case worst_case (cr_ast r) of Ok (cost, _) \<Rightarrow> cost | Err _ \<Rightarrow> u64_max)"

lemma worst_case_total_sum:
  "worst_case_total c < u64_max \<Longrightarrow> worst_case_total c = sum_list (map cost_of (cer_rules c))"
  unfolding worst_case_total_def cost_of_def [symmetric] using sat_fold_exact [of cost_of _ 0] by simp

lemma rule_limits_ops [simp]: "evaluation_operations (rule_limits l b) = min (evaluation_operations l) b"
  by (simp add: rule_limits_def)

text \<open>With room for the sum of the worst cases nothing is cut, and at most that sum is spent.\<close>

lemma loop_not_cut:
  assumes wf: "event_wf ev"
  shows "list_all (rule_accepted l) rs \<Longrightarrow> sum_list (map cost_of rs) \<le> budget \<Longrightarrow>
    evaluate_within_loop E l bundle ev clk i budget rs = (outs, stopped, budget', i') \<Longrightarrow>
    \<not> stopped \<and> budget - sum_list (map cost_of rs) \<le> budget' \<and>
    length outs = length (filter (named_by (program_of ev)) rs)"
proof (induction rs arbitrary: i budget outs)
  case Nil
  then show ?case by simp
next
  case (Cons r rs)
  show ?case
  proof (cases "named_by (program_of ev) r")
    case False
    with Cons.prems have loop: "evaluate_within_loop E l bundle ev clk i budget rs = (outs, stopped, budget', i')" by simp
    from Cons.IH [OF _ _ loop] Cons.prems(1,2) False show ?thesis by auto
  next
    case True
    obtain result s where run: "run (event_bindings ev) (cr_ast r)
        (meter_new clk i bundle (rule_limits l budget), trace_new) = (result, s)" by (meson surj_pair)
    from Cons.prems(1) have acc: "rule_accepted l r" by simp
    from accepted_cost [OF acc wf run] obtain c n where c: "worst_case (cr_ast r) = Ok (c, n)"
      "c \<le> evaluation_operations l" "0 < c" "m_used (fst s) \<le> c"
      "c \<le> evaluation_operations (rule_limits l budget) \<Longrightarrow> result \<noteq> Err OperationLimit" by blast
    then have cost: "cost_of r = c" by (simp add: cost_of_def)
    with Cons.prems(2) have room: "c + sum_list (map cost_of rs) \<le> budget" by simp
    with c have "budget \<noteq> 0" "result \<noteq> Err OperationLimit" by auto
    with Cons.prems(3) True run obtain outs' where
      loop: "evaluate_within_loop E l bundle ev clk (m_tick (fst s)) (budget - m_used (fst s)) rs = (outs', stopped, budget', i')"
      and outs: "outs = outcome_of_run E bundle r result s # outs'"
      by (auto simp: Let_def split: prod.splits)
    have "sum_list (map cost_of rs) \<le> budget - m_used (fst s)" using room c(4) by simp
    from Cons.IH [OF _ this loop] Cons.prems(1) room c(4) cost True outs show ?thesis by auto
  qed
qed

text \<open>What an outcome says about its rule.\<close>

definition outcome_ok :: "process_event \<Rightarrow> compiled_rule \<Rightarrow> event_outcome \<Rightarrow> bool" where
  "outcome_ok ev r out \<longleftrightarrow>
     eo_rule_id out = cr_rule_id r \<and>
     (eo_matched out \<longrightarrow> denote (event_bindings ev) (cr_ast r) = Ok (VBool True)) \<and>
     (eo_unavailable out \<longrightarrow> key_missing (event_bindings ev) (cr_ast r)) \<and>
     (\<not> eo_matched out \<and> \<not> eo_unavailable out \<and> eo_failure out = None \<longrightarrow>
        denote (event_bindings ev) (cr_ast r) = Ok (VBool False)) \<and>
     (\<forall>x. eo_failure out = Some x \<longrightarrow> x \<in> meter_errors \<or>
        (x = TypeMismatch \<and> neg_overflow (event_bindings ev) (cr_ast r)))"

lemma loop_outcomes:
  assumes wf: "event_wf ev"
  shows "list_all (rule_accepted l) rs \<Longrightarrow>
    evaluate_within_loop E l bundle ev clk i budget rs = (outs, stopped, budget', i') \<Longrightarrow>
    (\<exists>k. (stopped \<or> k = length (filter (named_by (program_of ev)) rs)) \<and>
      list_all2 (outcome_ok ev)
      (take k (filter (named_by (program_of ev)) rs)) outs) \<and>
    budget' \<le> budget"
proof (induction rs arbitrary: i budget outs)
  case Nil
  then show ?case by simp
next
  case (Cons r rs)
  show ?case
  proof (cases "named_by (program_of ev) r")
    case False
    with Cons.prems have "evaluate_within_loop E l bundle ev clk i budget rs = (outs, stopped, budget', i')" by simp
    from Cons.IH [OF _ this] Cons.prems(1) False show ?thesis by simp
  next
    case True
    obtain result s where run: "run (event_bindings ev) (cr_ast r)
        (meter_new clk i bundle (rule_limits l budget), trace_new) = (result, s)" by (meson surj_pair)
    from Cons.prems(1) have acc: "rule_accepted l r" by simp
    show ?thesis
    proof (cases "budget = 0 \<or> (budget < evaluation_operations l \<and> result = Err OperationLimit)")
      case stop: True
      with Cons.prems(2) True run have "outs = []" "stopped" "budget' \<le> budget"
        by (auto simp: Let_def split: if_splits)
      then show ?thesis by (auto intro!: exI [of _ 0])
    next
      case go: False
      with Cons.prems(2) True run obtain outs' where
        loop: "evaluate_within_loop E l bundle ev clk (m_tick (fst s)) (budget - m_used (fst s)) rs = (outs', stopped, budget', i')"
        and outs: "outs = outcome_of_run E bundle r result s # outs'"
        by (auto simp: Let_def split: prod.splits if_splits)
      from Cons.IH [OF _ loop] Cons.prems(1) obtain k where k: "stopped \<or> k = length (filter (named_by (program_of ev)) rs)"
        "list_all2 (outcome_ok ev)
        (take k (filter (named_by (program_of ev)) rs)) outs'" "budget' \<le> budget - m_used (fst s)"
        by auto
      from accepted_run [OF acc wf run] have
        "outcome_ok ev r (outcome_of_run E bundle r result s)"
        by (auto simp: outcome_ok_def outcome_of_run_def meter_errors_def Let_def)
      with k True outs show ?thesis by (intro conjI exI [of _ "Suc k"]) (auto simp: Let_def)
    qed
  qed
qed

lemmas event_rules_evals [evals] =
  EVENT_KEYS_def EVENT_LIST_ITEMS_def key_entry_def process_event_default_def
  event_value_check_def event_set_def event_get_def event_type_of_def event_bindings_def
  schema_bindings_def compile_clock_def event_key_def binary_extra_def compile_def
  compile_rule_def compile_event_rules_def check_rule_def check_rule_set_def
  RESTRICTED_RULE_PROGRAMS_def RESTRICTED_SET_PROGRAMS_def rule_program_list_def
  distinct_count_def programs_fit_def restrict_def event_text_def program_of_def named_by_def
  names_def worst_case_total_def outcome_of_run_def rule_limits_def evaluate_within_def
  evaluate_event_def within_def rule_accepted_def cost_of_def outcome_ok_def

section \<open>An example rule\<close>

text \<open>One rule that asks for user id 0, and a start by that user.\<close>

definition ev_source :: string where
  "ev_source = ''event['' @ [CHR 0x27] @ ''process.uid'' @ [CHR 0x27] @ '']==0''"

definition ev_ast :: expr where
  "ev_ast = ECall None OpEquals
     [ECall None OpIndex [EIdent ''event'', ELiteral (LString ''process.uid'')], ELiteral (LInt 0)]"

definition ev_cel :: cel_parser where
  "ev_cel d n src = (if src = ev_source then Some ev_ast else None)"

definition ev_env :: trace_env where
  "ev_env = \<lparr>te_op_name = (\<lambda>_. ''op''), te_json_string = Some, te_json_detection = (\<lambda>_. Some 150),
     te_json_input = (\<lambda>_. Some 60), te_json_step = (\<lambda>_. Some 60)\<rparr>"

definition ev_rule :: rule where
  "ev_rule = \<lparr>rule_id = Identifier ''r'', rule_version = 1, rule_title = ''t'', rule_severity = Low,
     rule_confidence = Confidence 50, rule_expression = ev_source, rule_finding_message = ''m'',
     rule_kind_of = ProcessEventKind, rule_programs = None, rule_attack = None\<rparr>"

definition ev_bundle :: verified_rule_set where
  "ev_bundle = \<lparr>vr_rules = \<lparr>rs_schema_version = schema_V1, rs_rules = [ev_rule]\<rparr>,
     vr_accepted = \<lparr>av_rule_set_id = Identifier ''s'', av_version = 1, av_preimage_sha256 = replicate 32 NUL\<rparr>,
     vr_issuer_key_id = Identifier ''k'', vr_created_at_unix_ms = 0, vr_expires_at_unix_ms = 100\<rparr>"

definition ev_clock :: clock where "ev_clock i = (0, 7)"

definition ev_start :: process_event where
  "ev_start = \<lparr>pe_values = [(''process.uid'', EvInteger 0)]\<rparr>"

definition ev_compiled :: compiled_rule where
  "ev_compiled = \<lparr>cr_rule_id = Identifier ''r'', cr_ast = ev_ast, cr_programs = None\<rparr>"

lemmas ev_defs = ev_source_def ev_ast_def ev_cel_def ev_env_def ev_rule_def ev_bundle_def
  ev_clock_def ev_start_def ev_compiled_def

lemma ev_compiles: "cer_rules (compile_event_rules ev_cel ev_bundle V1) = [ev_compiled]"
  by (simp add: evals ev_defs binding_key_Some)

lemma ev_start_reached: "event_step\<^sup>*\<^sup>* process_event_default ev_start"
proof -
  have "event_set ''process.uid'' (EvInteger 0) process_event_default = (Ok (), ev_start)"
    by (simp add: evals ev_defs)
  then show ?thesis by (intro r_into_rtranclp event_step.set)
qed

section \<open>Properties\<close>

text \<open>C4: the compile-time worst case is a bound on every run. A rule that compiles never exceeds
  its operation limit, whatever process start it sees; it gives the boolean the expression
  denotes, or reports a missing value that it names, a clock, validity or deadline stop, or the
  negation of the least integer.\<close>

theorem compiled_rule_within_limit:
  assumes "r \<in> set (cer_rules (compile_event_rules cel bundle l))"
    and "event_step\<^sup>*\<^sup>* process_event_default ev"
    and "run (event_bindings ev) (cr_ast r) (meter_new clk i bundle l, trace_new) = (result, s)"
  shows "m_used (fst s) \<le> evaluation_operations l \<and>
    ((\<exists>b. result = Ok (VBool b) \<and> denote (event_bindings ev) (cr_ast r) = Ok (VBool b)) \<or>
     result \<in> {Err InvalidClock, Err BundleNotValid, Err DeadlineExceeded} \<or>
     (result = Err UnavailableFact \<and> key_missing (event_bindings ev) (cr_ast r)) \<or>
     (result = Err TypeMismatch \<and> neg_overflow (event_bindings ev) (cr_ast r)))"
proof -
  have acc: "rule_accepted l r"
    using assms(1) compile_event_rules_accepted [of l cel "bundle"] by (auto simp: list_all_iff)
  have wf: "event_wf ev" using assms(2) event_wf_default by (rule events.inv_run)
  obtain c where "c \<le> evaluation_operations l" "m_used (fst s) \<le> c" "result \<noteq> Err OperationLimit"
    using accepted_cost [OF acc wf assms(3)] by blast
  with accepted_run [OF acc wf assms(3)] show ?thesis by (auto simp: meter_errors_def)
qed

theorem compiled_rule_within_limit_witness:
  "ev_compiled \<in> set (cer_rules (compile_event_rules ev_cel ev_bundle V1)) \<and>
   event_step\<^sup>*\<^sup>* process_event_default ev_start \<and>
   m_used (fst (snd (run (event_bindings ev_start) ev_ast (meter_new ev_clock 0 ev_bundle V1, trace_new)))) \<le> 50000"
proof -
  obtain result s where run: "run (event_bindings ev_start) (cr_ast ev_compiled)
      (meter_new ev_clock 0 ev_bundle V1, trace_new) = (result, s)" by (meson surj_pair)
  have mem: "ev_compiled \<in> set (cer_rules (compile_event_rules ev_cel ev_bundle V1))"
    by (simp add: ev_compiles)
  from compiled_rule_within_limit [OF mem ev_start_reached run] mem ev_start_reached run show ?thesis
    by (simp add: ev_compiled_def)
qed

text \<open>C5: a start is never cut when its budget covers the sum of the worst cases: every rule the
  prefilter names gets an outcome, and no more than that sum is taken from the budget.\<close>

theorem start_never_cut:
  assumes "event_step\<^sup>*\<^sup>* process_event_default ev"
    and "worst_case_total (compile_event_rules cel bundle l) \<le> budget"
    and "worst_case_total (compile_event_rules cel bundle l) < u64_max"
    and "evaluate_within E (compile_event_rules cel bundle l) bundle ev clk i budget = (outs, stopped, budget', i')"
  shows "\<not> stopped \<and> budget - worst_case_total (compile_event_rules cel bundle l) \<le> budget' \<and>
    length outs = length (filter (named_by (program_of ev)) (cer_rules (compile_event_rules cel bundle l)))"
proof -
  have wf: "event_wf ev" using assms(1) event_wf_default by (rule events.inv_run)
  note total = worst_case_total_sum [OF assms(3)]
  have loop: "evaluate_within_loop E l bundle ev clk i budget (cer_rules (compile_event_rules cel bundle l)) =
      (outs, stopped, budget', i')"
    using assms(4) by (simp add: evaluate_within_def)
  from loop_not_cut [OF wf compile_event_rules_accepted _ loop] assms(2) total show ?thesis by simp
qed

theorem start_never_cut_witness:
  "\<not> fst (snd (evaluate_within ev_env (compile_event_rules ev_cel ev_bundle V1) ev_bundle ev_start ev_clock 0 100000))"
proof -
  obtain outs stopped budget' i' where ev: "evaluate_within ev_env (compile_event_rules ev_cel ev_bundle V1)
      ev_bundle ev_start ev_clock 0 100000 = (outs, stopped, budget', i')" by (metis surj_pair)
  have total: "worst_case_total (compile_event_rules ev_cel ev_bundle V1) = 24"
    by (simp add: worst_case_total_def ev_compiles) (simp add: evals ev_defs)
  from start_never_cut [OF ev_start_reached _ _ ev] ev show ?thesis by (simp add: total u64_max_def)
qed

text \<open>C6: what a start reports about each rule. The outcomes are, in rule order, those of the rules
  the prefilter names (all of them unless the start was cut): a match only when the expression
  denotes true, no match only when it denotes false, unavailable only when a value it names is
  missing, a failure only for budget, clock or the negation of the least integer.\<close>

theorem start_outcomes_correct:
  assumes "event_step\<^sup>*\<^sup>* process_event_default ev"
    and "evaluate_within E (compile_event_rules cel bundle l) bundle ev clk i budget = (outs, stopped, budget', i')"
  shows "\<exists>k. (k = length (filter (named_by (program_of ev)) (cer_rules (compile_event_rules cel bundle l))) \<or> stopped) \<and>
      list_all2 (outcome_ok ev)
        (take k (filter (named_by (program_of ev)) (cer_rules (compile_event_rules cel bundle l)))) outs \<and>
      budget' \<le> budget"
proof -
  have wf: "event_wf ev" using assms(1) event_wf_default by (rule events.inv_run)
  have loop: "evaluate_within_loop E l bundle ev clk i budget (cer_rules (compile_event_rules cel bundle l)) =
      (outs, stopped, budget', i')"
    using assms(2) by (simp add: evaluate_within_def)
  from loop_outcomes [OF wf compile_event_rules_accepted loop] show ?thesis by blast
qed

theorem start_outcomes_correct_witness:
  "\<exists>out. fst (evaluate_within ev_env (compile_event_rules ev_cel ev_bundle V1) ev_bundle ev_start ev_clock 0 100000) = [out] \<and>
     outcome_ok ev_start ev_compiled out"
proof -
  obtain outs stopped budget' i' where ev: "evaluate_within ev_env (compile_event_rules ev_cel ev_bundle V1)
      ev_bundle ev_start ev_clock 0 100000 = (outs, stopped, budget', i')" by (metis surj_pair)
  have "\<not> stopped"
    using ev by (simp add: evaluate_within_def ev_compiles) (simp add: evals ev_defs binding_key_Some)
  with start_outcomes_correct [OF ev_start_reached ev] have "list_all2 (outcome_ok ev_start) [ev_compiled] outs"
    by (auto simp: ev_compiles named_by_def ev_compiled_def)
  with ev show ?thesis by (auto simp: list_all2_Cons1)
qed

text \<open>After restriction every remaining rule names between one and eight distinct programs, none
  of them empty, and together at most 32; every rule taken out is refused as restricted.\<close>

theorem restrict_limits:
  "list_all (\<lambda>r. case cr_programs r of None \<Rightarrow> False
       | Some ps \<Rightarrow> ps \<noteq> [] \<and> card (set ps) \<le> 8 \<and> [] \<notin> set ps) (cer_rules (restrict c)) \<and>
   card (set (concat (map rule_program_list (cer_rules (restrict c))))) \<le> 32 \<and>
   list_all (\<lambda>r. r \<in> set (cer_rules (restrict c)) \<or> (cr_rule_id r, Restricted) \<in> set (cer_refused (restrict c)))
     (cer_rules c)"
proof -
  let ?all = "set (concat (map rule_program_list (cer_rules c)))"
  have count: "distinct_count ps = card (set ps)" for ps
    by (simp add: distinct_count_def card_set)
  have "list_all (\<lambda>r. case cr_programs r of None \<Rightarrow> False
       | Some ps \<Rightarrow> ps \<noteq> [] \<and> card (set ps) \<le> 8 \<and> [] \<notin> set ps) (cer_rules (restrict c))"
    by (auto simp: restrict_def list_all_iff programs_fit_def count RESTRICTED_RULE_PROGRAMS_def Let_def
        split: option.splits)
  moreover have "card (set (concat (map rule_program_list (cer_rules (restrict c))))) \<le> 32"
  proof (cases "card ?all > RESTRICTED_SET_PROGRAMS")
    case True
    then show ?thesis by (simp add: restrict_def count Let_def)
  next
    case False
    have "set (concat (map rule_program_list (cer_rules (restrict c)))) \<subseteq> ?all"
      by (auto simp: restrict_def Let_def)
    then have "card (set (concat (map rule_program_list (cer_rules (restrict c))))) \<le> card ?all"
      by (intro card_mono) simp_all
    with False show ?thesis by (simp add: RESTRICTED_SET_PROGRAMS_def)
  qed
  moreover have "list_all (\<lambda>r. r \<in> set (cer_rules (restrict c)) \<or>
      (cr_rule_id r, Restricted) \<in> set (cer_refused (restrict c))) (cer_rules c)"
    by (auto simp: restrict_def list_all_iff Let_def)
  ultimately show ?thesis by blast
qed

end
