(* ===== verification/Loader.thy ===== *)
theory Loader
  imports Parsing Event_Rules
begin

text \<open>
  Rule loading: \<open>openvibes-rules/src/loader.rs\<close>. Trusted keys scoped to a rule set, the versioned
  signing preimage, and \<open>load_json\<close> with its checks in the order of the source: envelope contract,
  expected identity, context, trusted issuer, digest, signature, validity interval, rollback
  floor, payload contract and static rule check. SHA-256, base64url and Ed25519 are the fields of
  \<open>crypto\<close>; the readers are those of \<open>Parsing\<close>.
\<close>

section \<open>Definitions\<close>

record crypto =
  cy_sha256 :: "string \<Rightarrow> string"
  cy_key_from_bytes :: "string \<Rightarrow> string option"
  cy_is_weak :: "string \<Rightarrow> bool"
  cy_b64url_decode :: "string \<Rightarrow> string option"
  cy_signature_from_slice :: "string \<Rightarrow> string option"
  cy_verify_strict :: "string \<Rightarrow> string \<Rightarrow> string \<Rightarrow> bool"

record trusted_rule_key =
  tk_rule_set_id :: ident
  tk_issuer_key_id :: ident
  tk_key :: string

definition trusted_rule_key_new ::
  "crypto \<Rightarrow> ident \<Rightarrow> ident \<Rightarrow> string \<Rightarrow> (trusted_rule_key, load_error) result" where
  "trusted_rule_key_new Y rule_set_id issuer_key_id public_key =
     rbind (ok_or LE_InvalidTrustKey (cy_key_from_bytes Y public_key)) (\<lambda>key.
       if cy_is_weak Y key then Err LE_InvalidTrustKey
       else Ok \<lparr>tk_rule_set_id = rule_set_id, tk_issuer_key_id = issuer_key_id, tk_key = key\<rparr>)"

definition accepted_version_restore ::
  "ident \<Rightarrow> nat \<Rightarrow> string \<Rightarrow> (accepted_version, load_error) result" where
  "accepted_version_restore rule_set_id version sha =
     (if version = 0 then Err LE_InvalidContext
      else Ok \<lparr>av_rule_set_id = rule_set_id, av_version = version, av_preimage_sha256 = sha\<rparr>)"

record load_context =
  lc_expected_rule_set_id :: ident
  lc_now_unix_ms :: int
  lc_last_accepted :: "accepted_version option"

record rule_loader =
  rl_keys :: "trusted_rule_key list"
  rl_limits :: resource_limits

definition key_scope :: "trusted_rule_key \<Rightarrow> ident \<times> ident" where
  "key_scope k = (tk_rule_set_id k, tk_issuer_key_id k)"

fun duplicate_key :: "trusted_rule_key list \<Rightarrow> trusted_rule_key list \<Rightarrow> bool" where
  "duplicate_key prior [] \<longleftrightarrow> False"
| "duplicate_key prior (k # ks) \<longleftrightarrow>
     list_ex (\<lambda>p. key_scope p = key_scope k) prior \<or> duplicate_key (prior @ [k]) ks"

definition rule_loader_new ::
  "trusted_rule_key list \<Rightarrow> resource_limits \<Rightarrow> (rule_loader, load_error) result" where
  "rule_loader_new keys l =
     rbind (validate_limits l) (\<lambda>_.
       if length keys > list_items l then Err LE_InvalidTrustKey
       else if duplicate_key [] keys then Err LE_InvalidTrustKey
       else Ok \<lparr>rl_keys = keys, rl_limits = l\<rparr>)"

definition push_string :: "string \<Rightarrow> (string, load_error) result" where
  "push_string v =
     (if length v < 2 ^ 32 then Ok (be_bytes 4 (length v) @ v) else Err LE_InvalidMetadata)"

definition encoding_byte :: "payload_encoding \<Rightarrow> char" where
  "encoding_byte e = (case e of Json \<Rightarrow> CHR 0x01 | Yaml \<Rightarrow> CHR 0x02)"

definition signing_preimage ::
  "crypto \<Rightarrow> signed_rule_envelope \<Rightarrow> resource_limits \<Rightarrow> (string, load_error) result" where
  "signing_preimage Y e l =
     rbind (validate_limits l) (\<lambda>_.
     rbind (map_err (\<lambda>_. LE_InvalidMetadata) (envelope_validate_unsigned e l)) (\<lambda>_.
       let digest = cy_sha256 Y (env_payload e) in
       if hex digest \<noteq> env_payload_sha256_hex e then Err LE_DigestMismatch
       else
         rbind (push_string (as_str (env_rule_set_id e))) (\<lambda>rule_set.
         rbind (push_string (as_str (env_issuer_key_id e))) (\<lambda>issuer.
           if length (env_payload e) \<ge> 2 ^ 64 then Err LE_InvalidMetadata
           else Ok (''OPENVIBES-RULE-ENVELOPE-V1'' @ [NUL] @
             be_bytes 2 (version_value (env_schema_version e)) @ rule_set @
             be_bytes 8 (env_rule_set_version e) @ issuer @
             i64_be_bytes (env_created_at_unix_ms e) @ i64_be_bytes (env_expires_at_unix_ms e) @
             [encoding_byte (env_payload_encoding e)] @
             be_bytes 8 (length (env_payload e)) @ env_payload e @ digest)))))"

definition find_key :: "trusted_rule_key list \<Rightarrow> signed_rule_envelope \<Rightarrow> trusted_rule_key option" where
  "find_key keys e =
     find (\<lambda>k. tk_issuer_key_id k = env_issuer_key_id e \<and> tk_rule_set_id k = env_rule_set_id e) keys"

definition verify_envelope ::
  "crypto \<Rightarrow> trusted_rule_key \<Rightarrow> string \<Rightarrow> signed_rule_envelope \<Rightarrow> (unit, load_error) result" where
  "verify_envelope Y key preimage e =
     rbind (ok_or LE_InvalidSignature (cy_b64url_decode Y (env_signature_base64url e))) (\<lambda>bytes.
     rbind (ok_or LE_InvalidSignature (cy_signature_from_slice Y bytes)) (\<lambda>sig.
     require (cy_verify_strict Y (tk_key key) preimage sig) LE_InvalidSignature))"

definition version_policy ::
  "accepted_version option \<Rightarrow> nat \<Rightarrow> string \<Rightarrow> (unit, load_error) result" where
  "version_policy last_accepted version sha =
     (case last_accepted of
        None \<Rightarrow> Ok ()
      | Some prev \<Rightarrow>
          if version < av_version prev then Err LE_Rollback
          else if version = av_version prev \<and> sha \<noteq> av_preimage_sha256 prev then Err LE_VersionConflict
          else Ok ())"

definition load_json ::
  "readers \<Rightarrow> crypto \<Rightarrow> cel_parser \<Rightarrow> rule_loader \<Rightarrow> string \<Rightarrow> load_context \<Rightarrow>
   (verified_rule_set, load_error) result" where
  "load_json R Y cel L bytes ctx =
     (let l = rl_limits L; now = lc_now_unix_ms ctx in
      rbind (parse_envelope R bytes l) (\<lambda>e.
      rbind (map_err (\<lambda>_. LE_InvalidMetadata) (envelope_validate e l)) (\<lambda>_.
      if env_rule_set_id e \<noteq> lc_expected_rule_set_id ctx then Err LE_WrongRuleSet
      else if now < 0 \<or> (case lc_last_accepted ctx of
                 None \<Rightarrow> False | Some prev \<Rightarrow> av_rule_set_id prev \<noteq> env_rule_set_id e)
      then Err LE_InvalidContext
      else
        rbind (ok_or LE_UntrustedIssuer (find_key (rl_keys L) e)) (\<lambda>key.
        rbind (signing_preimage Y e l) (\<lambda>preimage.
        rbind (verify_envelope Y key preimage e) (\<lambda>_.
        if env_created_at_unix_ms e > now then Err LE_NotYetValid
        else if env_expires_at_unix_ms e \<le> now then Err LE_Expired
        else
          rbind (version_policy (lc_last_accepted ctx) (env_rule_set_version e) (cy_sha256 Y preimage)) (\<lambda>_.
          rbind (parse_rules R (env_payload e) (env_payload_encoding e) l) (\<lambda>rules.
          rbind (map_err (\<lambda>_. LE_InvalidRules) (rule_set_validate rules l)) (\<lambda>_.
          rbind (map_err (\<lambda>_. LE_InvalidRules) (check_rule_set cel rules l)) (\<lambda>_.
          Ok \<lparr>vr_rules = rules,
              vr_accepted = \<lparr>av_rule_set_id = env_rule_set_id e, av_version = env_rule_set_version e,
                             av_preimage_sha256 = cy_sha256 Y preimage\<rparr>,
              vr_issuer_key_id = env_issuer_key_id e,
              vr_created_at_unix_ms = env_created_at_unix_ms e,
              vr_expires_at_unix_ms = env_expires_at_unix_ms e\<rparr>))))))))))"

section \<open>Lemmas\<close>

lemma duplicate_key_iff:
  "duplicate_key prior ks \<longleftrightarrow>
   \<not> (distinct (map key_scope ks) \<and> key_scope ` set ks \<inter> key_scope ` set prior = {})"
  by (induction ks arbitrary: prior, auto simp: list_ex_iff) (metis imageI)

text \<open>Everything a successful load has checked.\<close>

lemma load_json_Ok:
  assumes "load_json R Y cel L bytes ctx = Ok v"
  obtains e key preimage where
    "parse_envelope R bytes (rl_limits L) = Ok e" "envelope_validate e (rl_limits L) = Ok ()"
    "env_rule_set_id e = lc_expected_rule_set_id ctx" "0 \<le> lc_now_unix_ms ctx"
    "find_key (rl_keys L) e = Some key"
    "signing_preimage Y e (rl_limits L) = Ok preimage" "verify_envelope Y key preimage e = Ok ()"
    "env_created_at_unix_ms e \<le> lc_now_unix_ms ctx" "lc_now_unix_ms ctx < env_expires_at_unix_ms e"
    "version_policy (lc_last_accepted ctx) (env_rule_set_version e) (cy_sha256 Y preimage) = Ok ()"
    "\<And>prev. lc_last_accepted ctx = Some prev \<Longrightarrow> av_rule_set_id prev = env_rule_set_id e"
    "parse_rules R (env_payload e) (env_payload_encoding e) (rl_limits L) = Ok (vr_rules v)"
    "rule_set_validate (vr_rules v) (rl_limits L) = Ok ()" "check_rule_set cel (vr_rules v) (rl_limits L) = Ok ()"
    "vr_accepted v = \<lparr>av_rule_set_id = env_rule_set_id e, av_version = env_rule_set_version e,
        av_preimage_sha256 = cy_sha256 Y preimage\<rparr>"
    "vr_issuer_key_id v = env_issuer_key_id e" "vr_created_at_unix_ms v = env_created_at_unix_ms e"
    "vr_expires_at_unix_ms v = env_expires_at_unix_ms e"
  using assms unfolding load_json_def Let_def
  by (auto simp: rbind_Ok_iff not_less not_le split: if_splits option.splits)

lemma find_key_Some:
  "find_key keys e = Some k \<Longrightarrow>
   k \<in> set keys \<and> tk_issuer_key_id k = env_issuer_key_id e \<and> tk_rule_set_id k = env_rule_set_id e"
  by (auto simp: find_key_def find_Some_iff)

lemma verify_envelope_Ok:
  "verify_envelope Y key preimage e = Ok () \<longleftrightarrow>
   (\<exists>bytes sig. cy_b64url_decode Y (env_signature_base64url e) = Some bytes \<and>
      cy_signature_from_slice Y bytes = Some sig \<and> cy_verify_strict Y (tk_key key) preimage sig)"
  by (auto simp: verify_envelope_def rbind_Ok_iff)

lemma push_string_Ok: "push_string v = Ok s \<longleftrightarrow> length v < 2 ^ 32 \<and> s = be_bytes 4 (length v) @ v"
  by (auto simp: push_string_def)

lemma signing_preimage_Ok:
  assumes "signing_preimage Y e l = Ok p"
  shows "p = ''OPENVIBES-RULE-ENVELOPE-V1'' @ [NUL] @
      be_bytes 2 (version_value (env_schema_version e)) @
      be_bytes 4 (length (as_str (env_rule_set_id e))) @ as_str (env_rule_set_id e) @
      be_bytes 8 (env_rule_set_version e) @
      be_bytes 4 (length (as_str (env_issuer_key_id e))) @ as_str (env_issuer_key_id e) @
      i64_be_bytes (env_created_at_unix_ms e) @ i64_be_bytes (env_expires_at_unix_ms e) @
      [encoding_byte (env_payload_encoding e)] @
      be_bytes 8 (length (env_payload e)) @ env_payload e @ cy_sha256 Y (env_payload e)"
    and "hex (cy_sha256 Y (env_payload e)) = env_payload_sha256_hex e"
    and "env_schema_version e = schema_V1"
    and "length (as_str (env_rule_set_id e)) < 256 ^ 4" "length (as_str (env_issuer_key_id e)) < 256 ^ 4"
    and "length (env_payload e) < 256 ^ 8"
  using assms
  by (auto simp: signing_preimage_def Let_def rbind_Ok_iff push_string_Ok envelope_validate_unsigned_def
      validate_version_def split: if_splits)

lemma encoding_byte_inject [simp]: "encoding_byte a = encoding_byte b \<longleftrightarrow> a = b"
  by (cases a; cases b) (auto simp: encoding_byte_def)

lemmas loader_evals [evals] =
  trusted_rule_key_new_def accepted_version_restore_def key_scope_def rule_loader_new_def
  push_string_def encoding_byte_def signing_preimage_def find_key_def verify_envelope_def
  version_policy_def load_json_def

section \<open>An example envelope\<close>

text \<open>A reader that always yields the example envelope and rules, a hash that is constant and a
  verifier that accepts.\<close>

definition ld_envelope :: signed_rule_envelope where
  "ld_envelope = \<lparr>env_schema_version = schema_V1, env_rule_set_id = Identifier ''s'',
     env_rule_set_version = 2, env_issuer_key_id = Identifier ''k'', env_created_at_unix_ms = 0,
     env_expires_at_unix_ms = 100, env_payload_encoding = Json, env_payload = ''x'',
     env_payload_sha256_hex = hex (replicate 32 NUL),
     env_signature_base64url = replicate 86 CHR ''A''\<rparr>"

definition ld_readers :: readers where
  "ld_readers = \<lparr>rd_json = (\<lambda>_ _. Some JNull), rd_yaml = (\<lambda>_ _. None),
     rd_envelope = (\<lambda>_. Some ld_envelope), rd_rules = (\<lambda>_. Some (vr_rules ev_bundle))\<rparr>"

definition ld_crypto :: crypto where
  "ld_crypto = \<lparr>cy_sha256 = (\<lambda>_. replicate 32 NUL), cy_key_from_bytes = Some, cy_is_weak = (\<lambda>_. False),
     cy_b64url_decode = Some, cy_signature_from_slice = Some, cy_verify_strict = (\<lambda>_ _ _. True)\<rparr>"

definition ld_loader :: rule_loader where
  "ld_loader = \<lparr>rl_keys = [\<lparr>tk_rule_set_id = Identifier ''s'', tk_issuer_key_id = Identifier ''k'', tk_key = ''key''\<rparr>],
     rl_limits = V1\<rparr>"

definition ld_context :: load_context where
  "ld_context = \<lparr>lc_expected_rule_set_id = Identifier ''s'', lc_now_unix_ms = 7,
     lc_last_accepted = Some \<lparr>av_rule_set_id = Identifier ''s'', av_version = 1, av_preimage_sha256 = []\<rparr>\<rparr>"

definition ld_verified :: verified_rule_set where
  "ld_verified = \<lparr>vr_rules = vr_rules ev_bundle,
     vr_accepted = \<lparr>av_rule_set_id = Identifier ''s'', av_version = 2, av_preimage_sha256 = replicate 32 NUL\<rparr>,
     vr_issuer_key_id = Identifier ''k'', vr_created_at_unix_ms = 0, vr_expires_at_unix_ms = 100\<rparr>"

lemmas ld_defs = ld_envelope_def ld_readers_def ld_crypto_def ld_loader_def ld_context_def ld_verified_def

lemma ld_rules_checked: "check_rule_set ev_cel (vr_rules ev_bundle) V1 = Ok ()"
  by (simp add: evals ev_defs binding_key_Some)

lemma ld_envelope_valid: "envelope_validate ld_envelope V1 = Ok ()"
  using hex_lower [of "replicate 32 NUL"]
  by (simp add: evals ld_envelope_def length_hex list_all_iff)

lemma ld_preimage: "\<exists>p. signing_preimage ld_crypto ld_envelope V1 = Ok p"
  using ld_envelope_valid
  by (simp add: envelope_validate_def signing_preimage_def) (simp add: ld_envelope_def ld_crypto_def push_string_def)

lemma ld_loads: "load_json ld_readers ld_crypto ev_cel ld_loader ''doc'' ld_context = Ok ld_verified"
proof -
  obtain p where p: "signing_preimage ld_crypto ld_envelope V1 = Ok p" using ld_preimage by blast
  have envelope: "parse_envelope ld_readers ''doc'' V1 = Ok ld_envelope"
    by (simp add: evals ld_readers_def)
  have rules: "parse_rules ld_readers ''x'' Json V1 = Ok (vr_rules ev_bundle)"
    by (simp add: evals ld_readers_def)
  have valid: "rule_set_validate (vr_rules ev_bundle) V1 = Ok ()"
    by (simp add: evals ev_defs)
  show ?thesis
    using envelope rules valid p ld_envelope_valid ld_rules_checked
    by (simp add: load_json_def ld_loader_def ld_context_def ld_verified_def find_key_def verify_envelope_def
        version_policy_def)
      (simp add: ld_envelope_def ld_crypto_def require_def)
qed

section \<open>Properties\<close>

text \<open>C3: a bundle is only accepted when everything about it has been authenticated and is current.
  The envelope names the expected rule set, a trusted key scoped to that rule set and issuer
  verifies the signature over the preimage of the whole envelope, the payload has the signed
  digest, the clock lies in the validity interval, the version is not below the last accepted one
  and at the same version the content is the same; and the rules come from that payload, satisfy
  the contract and pass the static check.\<close>

theorem load_json_authenticated:
  assumes "load_json R Y cel L bytes ctx = Ok v"
  shows "\<exists>e key preimage raw sig.
    parse_envelope R bytes (rl_limits L) = Ok e \<and>
    key \<in> set (rl_keys L) \<and> tk_rule_set_id key = lc_expected_rule_set_id ctx \<and>
    tk_issuer_key_id key = vr_issuer_key_id v \<and>
    signing_preimage Y e (rl_limits L) = Ok preimage \<and>
    cy_b64url_decode Y (env_signature_base64url e) = Some raw \<and>
    cy_signature_from_slice Y raw = Some sig \<and> cy_verify_strict Y (tk_key key) preimage sig \<and>
    hex (cy_sha256 Y (env_payload e)) = env_payload_sha256_hex e \<and>
    0 \<le> lc_now_unix_ms ctx \<and> vr_created_at_unix_ms v \<le> lc_now_unix_ms ctx \<and>
    lc_now_unix_ms ctx < vr_expires_at_unix_ms v \<and>
    av_rule_set_id (vr_accepted v) = lc_expected_rule_set_id ctx \<and>
    av_preimage_sha256 (vr_accepted v) = cy_sha256 Y preimage \<and>
    0 < av_version (vr_accepted v) \<and>
    (case lc_last_accepted ctx of None \<Rightarrow> True
     | Some prev \<Rightarrow> av_rule_set_id prev = lc_expected_rule_set_id ctx \<and>
         (av_version prev < av_version (vr_accepted v) \<or> vr_accepted v = prev)) \<and>
    parse_rules R (env_payload e) (env_payload_encoding e) (rl_limits L) = Ok (vr_rules v) \<and>
    rule_set_validate (vr_rules v) (rl_limits L) = Ok () \<and> check_rule_set cel (vr_rules v) (rl_limits L) = Ok ()"
proof -
  from load_json_Ok [OF assms] obtain e key preimage where
    e: "parse_envelope R bytes (rl_limits L) = Ok e" "envelope_validate e (rl_limits L) = Ok ()"
    "env_rule_set_id e = lc_expected_rule_set_id ctx" "0 \<le> lc_now_unix_ms ctx"
    and key: "find_key (rl_keys L) e = Some key"
    and pre: "signing_preimage Y e (rl_limits L) = Ok preimage" "verify_envelope Y key preimage e = Ok ()"
    and time: "env_created_at_unix_ms e \<le> lc_now_unix_ms ctx" "lc_now_unix_ms ctx < env_expires_at_unix_ms e"
    and policy: "version_policy (lc_last_accepted ctx) (env_rule_set_version e) (cy_sha256 Y preimage) = Ok ()"
      "\<And>prev. lc_last_accepted ctx = Some prev \<Longrightarrow> av_rule_set_id prev = env_rule_set_id e"
    and rules: "parse_rules R (env_payload e) (env_payload_encoding e) (rl_limits L) = Ok (vr_rules v)"
      "rule_set_validate (vr_rules v) (rl_limits L) = Ok ()" "check_rule_set cel (vr_rules v) (rl_limits L) = Ok ()"
    and v: "vr_accepted v = \<lparr>av_rule_set_id = env_rule_set_id e, av_version = env_rule_set_version e,
        av_preimage_sha256 = cy_sha256 Y preimage\<rparr>"
      "vr_issuer_key_id v = env_issuer_key_id e" "vr_created_at_unix_ms v = env_created_at_unix_ms e"
      "vr_expires_at_unix_ms v = env_expires_at_unix_ms e" by metis
  from pre(2) obtain raw sig where sig: "cy_b64url_decode Y (env_signature_base64url e) = Some raw"
    "cy_signature_from_slice Y raw = Some sig" "cy_verify_strict Y (tk_key key) preimage sig"
    by (auto simp: verify_envelope_Ok)
  have pos: "0 < env_rule_set_version e"
    using e(2) by (simp add: envelope_validate_def envelope_validate_unsigned_def)
  have floor: "case lc_last_accepted ctx of None \<Rightarrow> True
     | Some prev \<Rightarrow> av_rule_set_id prev = lc_expected_rule_set_id ctx \<and>
         (av_version prev < av_version (vr_accepted v) \<or> vr_accepted v = prev)"
    using policy e(3) v(1)
    by (cases "lc_last_accepted ctx", simp, cases "the (lc_last_accepted ctx)")
      (auto simp: version_policy_def split: if_splits)
  show ?thesis
    using e key find_key_Some [OF key] pre(1) sig signing_preimage_Ok(2) [OF pre(1)] time v pos floor rules
    by (intro exI [of _ e] exI [of _ key] exI [of _ preimage] exI [of _ raw] exI [of _ sig]) simp
qed

theorem load_json_authenticated_witness:
  "load_json ld_readers ld_crypto ev_cel ld_loader ''doc'' ld_context = Ok ld_verified \<and>
   av_rule_set_id (vr_accepted ld_verified) = Identifier ''s'' \<and> 0 < av_version (vr_accepted ld_verified)"
  using load_json_authenticated [OF ld_loads] ld_loads by (auto simp: ld_context_def)

text \<open>C7: the signed bytes determine the envelope: two envelopes with the same signing preimage
  agree in every field except the signature itself, so a signature covers exactly one content.\<close>

theorem signing_preimage_inject:
  assumes "signing_preimage Y e l = Ok p" and "signing_preimage Y e' l' = Ok p"
    and "env_rule_set_version e \<le> u64_max" "env_rule_set_version e' \<le> u64_max"
    and "is_i64 (env_created_at_unix_ms e)" "is_i64 (env_created_at_unix_ms e')"
    and "is_i64 (env_expires_at_unix_ms e)" "is_i64 (env_expires_at_unix_ms e')"
  shows "e\<lparr>env_signature_base64url := s\<rparr> = e'\<lparr>env_signature_base64url := s\<rparr>"
proof -
  note E = signing_preimage_Ok [OF assms(1)] and E' = signing_preimage_Ok [OF assms(2)]
  define tail where "tail x = be_bytes 8 (length (env_payload x)) @ env_payload x @ cy_sha256 Y (env_payload x)" for x :: signed_rule_envelope
  define mid where "mid x = be_bytes 4 (length (as_str (env_issuer_key_id x))) @ as_str (env_issuer_key_id x) @
      i64_be_bytes (env_created_at_unix_ms x) @ i64_be_bytes (env_expires_at_unix_ms x) @
      [encoding_byte (env_payload_encoding x)] @ tail x" for x :: signed_rule_envelope
  have "be_bytes 4 (length (as_str (env_rule_set_id e))) @ as_str (env_rule_set_id e) @ be_bytes 8 (env_rule_set_version e) @ mid e =
      be_bytes 4 (length (as_str (env_rule_set_id e'))) @ as_str (env_rule_set_id e') @ be_bytes 8 (env_rule_set_version e') @ mid e'"
    using E(1,3) E'(1,3) by (simp add: mid_def tail_def schema_V1_def)
  from length_prefixed_inject [OF E(4) E'(4) this] have
    id: "as_str (env_rule_set_id e) = as_str (env_rule_set_id e')"
    and version: "be_bytes 8 (env_rule_set_version e) = be_bytes 8 (env_rule_set_version e')"
    and mid: "mid e = mid e'" by simp_all
  from length_prefixed_inject [OF E(5) E'(5) mid [unfolded mid_def]] have
    issuer: "as_str (env_issuer_key_id e) = as_str (env_issuer_key_id e')"
    and times: "i64_be_bytes (env_created_at_unix_ms e) = i64_be_bytes (env_created_at_unix_ms e')"
      "i64_be_bytes (env_expires_at_unix_ms e) = i64_be_bytes (env_expires_at_unix_ms e')"
    and enc: "env_payload_encoding e = env_payload_encoding e'"
    and tail: "tail e = tail e'" by simp_all
  from length_prefixed_inject [OF E(6) E'(6) tail [unfolded tail_def]] have
    payload: "env_payload e = env_payload e'" by simp
  have "env_rule_set_version e = env_rule_set_version e'"
    using version assms(3,4) be_bytes_inject [of "env_rule_set_version e" 8 "env_rule_set_version e'"]
    by (simp add: u64_max_def)
  moreover have "env_created_at_unix_ms e = env_created_at_unix_ms e'"
    "env_expires_at_unix_ms e = env_expires_at_unix_ms e'"
    using i64_be_bytes_inject times assms(5-8) by blast+
  moreover have "env_rule_set_id e = env_rule_set_id e'" "env_issuer_key_id e = env_issuer_key_id e'"
    using id issuer by (simp_all add: ident.expand)
  moreover have "env_payload_sha256_hex e = env_payload_sha256_hex e'" using E(2) E'(2) payload by simp
  ultimately show ?thesis using E(3) E'(3) enc payload by simp
qed

theorem signing_preimage_inject_witness:
  "\<exists>p. signing_preimage ld_crypto ld_envelope V1 = Ok p \<and>
     ld_envelope\<lparr>env_signature_base64url := []\<rparr> = ld_envelope\<lparr>env_signature_base64url := []\<rparr>"
proof -
  obtain p where p: "signing_preimage ld_crypto ld_envelope V1 = Ok p" using ld_preimage by blast
  from signing_preimage_inject [OF p p, of "[]"] p show ?thesis
    by (simp add: ld_envelope_def u64_max_def i64_defs)
qed

end
