(* ===== verification/Database.thy ===== *)
theory Database
  imports Prelude
begin

text \<open>
  Opening an agent database: \<open>openvibes-storage/src/db.rs\<close>. SQLite is a parameter: the record
  \<open>open_env\<close> holds what the file checks and pragmas report and, as \<open>oe_fault\<close>, the code the \<open>n\<close>-th
  later statement fails with (a full disk, a lock, a corrupt page). A schema or upgrade script is a
  function on the database that fails with an SQLite code when the tables do not let it run, and the
  header fields \<open>user_version\<close> and \<open>application_id\<close> are state. The migration loop runs until no upgrade is left, so it is a
  \<open>partial_function\<close> whose termination is proved for scripts that set \<open>user_version\<close> themselves.
\<close>

section \<open>Definitions\<close>

datatype storage_error =
    SE_InvalidLimits | SE_InvalidFinding | SE_InvalidBundle | SE_InvalidIdentity | SE_Rollback
  | SE_VersionConflict | SE_Full | SE_Corrupt | SE_UnsupportedSchema | SE_Unavailable
  | SE_InsecurePath

datatype sqlite_code = DiskFull | DatabaseCorrupt | NotADatabase | OtherCode

definition from_rusqlite :: "sqlite_code \<Rightarrow> storage_error" where
  "from_rusqlite code =
     (case code of DiskFull \<Rightarrow> SE_Full | DatabaseCorrupt \<Rightarrow> SE_Corrupt | NotADatabase \<Rightarrow> SE_Corrupt
      | OtherCode \<Rightarrow> SE_Unavailable)"

record 'c db =
  db_user_version :: int
  db_application_id :: int
  db_content :: 'c

type_synonym 'c script = "'c db \<Rightarrow> ('c db, sqlite_code) result"

record open_env =
  oe_check_file_before_open :: "(unit, storage_error) result"
  oe_open_with_flags :: "(unit, sqlite_code) result"
  oe_restrict_file :: "(unit, storage_error) result"
  oe_pragmas :: "(unit, sqlite_code) result"
  oe_quick_check :: "(string, sqlite_code) result"
  oe_fault :: "nat \<Rightarrow> sqlite_code option"

definition latest :: "'c script list \<Rightarrow> int" where
  "latest upgrades =
     1 + (if int (length upgrades) \<le> i64_max then int (length upgrades) else i64_max - 1)"

definition run_script :: "sqlite_code option \<Rightarrow> 'c script \<Rightarrow> ('c db, unit, sqlite_code) action" where
  "run_script fault script d =
     (case fault of
        Some c \<Rightarrow> (Err c, d)
      | None \<Rightarrow> (case script d of Ok d' \<Rightarrow> (Ok (), d') | Err e \<Rightarrow> (Err e, d)))"

text \<open>Each turn of the loop reads \<open>user_version\<close> (statement \<open>n\<close>) and runs one upgrade.\<close>

partial_function (option) upgrade_loop ::
  "(nat \<Rightarrow> sqlite_code option) \<Rightarrow> 'c script list \<Rightarrow> nat \<Rightarrow> 'c db \<Rightarrow> ((unit, storage_error) result \<times> 'c db) option" where
  "upgrade_loop F upgrades n d =
     (case F n of
        Some c \<Rightarrow> Some (Err (from_rusqlite c), d)
      | None \<Rightarrow>
          if 1 \<le> db_user_version d \<and> db_user_version d \<le> int (length upgrades)
          then
            (case run_script (F (n + 1)) (upgrades ! nat (db_user_version d - 1)) d of
               (Ok _, d') \<Rightarrow> upgrade_loop F upgrades (n + 2) d'
             | (Err e, d') \<Rightarrow> Some (Err (from_rusqlite e), d'))
          else Some (Ok (), d))"

text \<open>The batch of a fresh file stamps it and creates the tables; a file with foreign tables fails
  it and is not one of ours.\<close>

definition create_schema :: "sqlite_code option \<Rightarrow> int \<Rightarrow> 'c script \<Rightarrow> ('c db, unit, storage_error) action" where
  "create_schema fault application_id schema d =
     (case run_script fault (\<lambda>d. schema (d\<lparr>db_application_id := application_id\<rparr>)) d of
        (Ok _, d') \<Rightarrow> (Ok (), d')
      | (Err e, d') \<Rightarrow>
          (Err (case from_rusqlite e of SE_Unavailable \<Rightarrow> SE_Corrupt | other \<Rightarrow> other), d'))"

text \<open>Reading a header field: the statement fails or the value is as stored.\<close>

definition query :: "sqlite_code option \<Rightarrow> ('s, unit, storage_error) action" where
  "query fault s = (case fault of Some c \<Rightarrow> (Err (from_rusqlite c), s) | None \<Rightarrow> (Ok (), s))"

definition check_header ::
  "(nat \<Rightarrow> sqlite_code option) \<Rightarrow> int \<Rightarrow> 'c script \<Rightarrow> 'c script list \<Rightarrow> ('c db, unit, storage_error) action" where
  "check_header F application_id schema upgrades =
     abind (query (F 0)) (\<lambda>_ d.
       if db_user_version d = 0 then create_schema (F 1) application_id schema d
       else abind (query (F 1)) (\<lambda>_ d.
         if db_application_id d \<noteq> application_id \<and> db_application_id d \<noteq> 0 then (Err SE_Corrupt, d)
         else if \<not> (1 \<le> db_user_version d \<and> db_user_version d \<le> latest upgrades)
         then (Err SE_UnsupportedSchema, d)
         else (Ok (), d)) d)"

definition open_file :: "open_env \<Rightarrow> (unit, storage_error) result" where
  "open_file E =
     rbind (oe_check_file_before_open E) (\<lambda>_.
     rbind (map_err from_rusqlite (oe_open_with_flags E)) (\<lambda>_.
     rbind (oe_restrict_file E) (\<lambda>_.
     rbind (map_err from_rusqlite (oe_pragmas E)) (\<lambda>_.
     rbind (map_err from_rusqlite (oe_quick_check E)) (\<lambda>check.
       if check \<noteq> ''ok'' then Err SE_Corrupt else Ok ())))))"

definition open_database ::
  "open_env \<Rightarrow> int \<Rightarrow> 'c script \<Rightarrow> 'c script list \<Rightarrow> 'c db \<Rightarrow>
   ((unit, storage_error) result \<times> 'c db) option" where
  "open_database E application_id schema upgrades d =
     (case open_file E of
        Err e \<Rightarrow> Some (Err e, d)
      | Ok _ \<Rightarrow>
          (case abind (check_header (oe_fault E) application_id schema upgrades) (\<lambda>_. query (oe_fault E 2)) d of
             (Err e, d') \<Rightarrow> Some (Err e, d')
           | (Ok _, d') \<Rightarrow>
               if db_application_id d' \<noteq> application_id then Some (Err SE_Corrupt, d')
               else upgrade_loop (oe_fault E) upgrades 3 d'))"

text \<open>A transaction: SQLite aborts it with a code and nothing changes, or it commits.\<close>

definition txn :: "sqlite_code option \<Rightarrow> ('s \<Rightarrow> 'a \<times> 's) \<Rightarrow> ('s, 'a, storage_error) action" where
  "txn fault body s =
     (case fault of Some c \<Rightarrow> (Err (from_rusqlite c), s) | None \<Rightarrow> (case body s of (a, t) \<Rightarrow> (Ok a, t)))"

text \<open>A transaction whose statements may fail on the rows they meet: it is rolled back.\<close>

definition txn_try ::
  "sqlite_code option \<Rightarrow> ('s \<Rightarrow> ('a \<times> 's, sqlite_code) result) \<Rightarrow> ('s, 'a, storage_error) action" where
  "txn_try fault body s =
     (case fault of
        Some c \<Rightarrow> (Err (from_rusqlite c), s)
      | None \<Rightarrow> (case body s of Err c \<Rightarrow> (Err (from_rusqlite c), s) | Ok (a, t) \<Rightarrow> (Ok a, t)))"

text \<open>A sum stored in an \<open>INTEGER\<close> column of a \<open>STRICT\<close> table: past 64 bits SQLite computes a \<open>REAL\<close>,
  which the column refuses.\<close>

definition sql_add :: "int \<Rightarrow> int \<Rightarrow> (int, sqlite_code) result" where
  "sql_add a b = (if i64_min \<le> a + b \<and> a + b \<le> i64_max then Ok (a + b) else Err OtherCode)"

definition sql_int :: "nat \<Rightarrow> int" where
  "sql_int v = (if int v \<le> i64_max then int v else i64_max)"

lemma txn_cases:
  assumes "txn fault body s = (r, t)"
  obtains (fault) e where "r = Err e" "t = s" | (commit) a where "r = Ok a" "body s = (a, t)"
  using assms by (auto simp: txn_def split: option.splits prod.splits)

lemma txn_try_cases:
  assumes "txn_try fault body s = (r, t)"
  obtains (fault) e where "r = Err e" "t = s" | (commit) a where "r = Ok a" "body s = Ok (a, t)" "fault = None"
  using assms by (auto simp: txn_try_def split: option.splits prod.splits result.splits)

lemma sql_add_Ok: "sql_add a b = Ok c \<longleftrightarrow> c = a + b \<and> i64_min \<le> c \<and> c \<le> i64_max"
  by (auto simp: sql_add_def)

lemma query_cases: "query fault s = (r, t) \<Longrightarrow> t = s"
  by (auto simp: query_def split: option.splits)

section \<open>Scripts that stamp their version\<close>

text \<open>What the schema and upgrade scripts have to do, as the comment of \<open>open_database\<close> asks: the
  schema sets \<open>user_version\<close> to 1, upgrade \<open>n\<close> to \<open>n + 2\<close>, and no script touches the kind of the
  database. \<open>good\<close> is what else a store wants the scripts to keep.\<close>

locale migration =
  fixes schema :: "'c script" and upgrades :: "'c script list" and good :: "'c \<Rightarrow> bool"
  assumes schema_version: "schema d = Ok d' \<Longrightarrow>
      db_user_version d' = 1 \<and> db_application_id d' = db_application_id d \<and>
      (good (db_content d) \<longrightarrow> good (db_content d'))"
    and upgrade_version: "n < length upgrades \<Longrightarrow> (upgrades ! n) d = Ok d' \<Longrightarrow>
      db_user_version d' = int n + 2 \<and> db_application_id d' = db_application_id d \<and>
      (good (db_content d) \<longrightarrow> good (db_content d'))"
    and few: "int (length upgrades) < i64_max"
begin

lemma upgrade_ends:
  "db_user_version d \<ge> 1 \<Longrightarrow> db_user_version d \<le> int (length upgrades) + 1 \<Longrightarrow> good (db_content d) \<Longrightarrow>
   \<exists>r d'. upgrade_loop F upgrades n d = Some (r, d') \<and> db_application_id d' = db_application_id d \<and>
     good (db_content d') \<and> (r = Ok () \<longrightarrow> db_user_version d' = latest upgrades)"
proof (induction "nat (int (length upgrades) + 1 - db_user_version d)" arbitrary: d n rule: less_induct)
  case less
  show ?case
  proof (cases "F n = None \<and> db_user_version d \<le> int (length upgrades)")
    case False
    then show ?thesis using less.prems few
      by (subst upgrade_loop.simps) (auto simp: latest_def split: option.splits)
  next
    case True
    let ?i = "nat (db_user_version d - 1)"
    have n: "?i < length upgrades" "int ?i + 2 = db_user_version d + 1" using True less.prems by auto
    show ?thesis
    proof (cases "run_script (F (n + 1)) (upgrades ! ?i) d")
      case (Pair r d')
      show ?thesis
      proof (cases r)
        case (Err e)
        then have "d' = d" using Pair by (auto simp: run_script_def split: option.splits result.splits)
        then show ?thesis using True less.prems Err Pair by (subst upgrade_loop.simps) simp
      next
        case (Ok u)
        then have ran: "(upgrades ! ?i) d = Ok d'"
          using Pair by (auto simp: run_script_def split: option.splits result.splits)
        note step = upgrade_version [OF n(1) ran]
        have "\<exists>r d''. upgrade_loop F upgrades (n + 2) d' = Some (r, d'') \<and> db_application_id d'' = db_application_id d' \<and>
            good (db_content d'') \<and> (r = Ok () \<longrightarrow> db_user_version d'' = latest upgrades)"
          using less.hyps [of d' "n + 2"] step n(2) True less.prems by simp
        then show ?thesis using Ok Pair True less.prems step by (subst upgrade_loop.simps) simp
      qed
    qed
  qed
qed

lemma open_ends:
  "good (db_content d) \<Longrightarrow>
   \<exists>r d'. open_database E a schema upgrades d = Some (r, d') \<and> good (db_content d') \<and>
     (r = Ok () \<longrightarrow> db_user_version d' = latest upgrades \<and> db_application_id d' = a)"
proof -
  assume good: "good (db_content d)"
  show ?thesis
  proof (cases "open_file E")
    case (Err e)
    then show ?thesis using good by (simp add: open_database_def)
  next
    case Opened: (Ok u)
    obtain r d1 where h: "abind (check_header (oe_fault E) a schema upgrades) (\<lambda>_. query (oe_fault E 2)) d = (r, d1)"
      by (meson surj_pair)
    note unfold = abind_def check_header_def query_def create_schema_def run_script_def
    show ?thesis
    proof (cases r)
      case (Err e)
      have "good (db_content d1)" using h Err good schema_version [of "d\<lparr>db_application_id := a\<rparr>"]
        by (auto simp: unfold split: if_splits result.splits option.splits)
      then show ?thesis using h Err Opened by (simp add: open_database_def)
    next
      case (Ok v)
      have "good (db_content d1)" "1 \<le> db_user_version d1" "db_user_version d1 \<le> int (length upgrades) + 1"
        using h Ok good few schema_version [of "d\<lparr>db_application_id := a\<rparr>"]
        by (auto simp: unfold latest_def split: if_splits result.splits option.splits)
      from upgrade_ends [OF this(2,3,1), of "oe_fault E" 3] show ?thesis using h Ok Opened \<open>good (db_content d1)\<close>
        by (auto simp: open_database_def)
    qed
  qed
qed

end

lemmas database_evals [evals] =
  from_rusqlite_def latest_def run_script_def upgrade_loop.simps create_schema_def check_header_def
  open_file_def open_database_def sql_int_def txn_def txn_try_def sql_add_def query_def

end
