(* ===== verification/Rule_Store.thy ===== *)
theory Rule_Store
  imports Database Transitions Limits Contracts
begin

text \<open>
  Accepted rule bundles and their rollback floors: \<open>openvibes-storage/src/rules.rs\<close>. The table
  \<open>rule_bundles\<close> is a map from its primary key to the row; every SQL statement is the update it
  makes. A statement or transaction that SQLite aborts leaves the table as it was, so each operation,
  reads included, takes the fault SQLite reports, if any; opening takes its faults from \<open>open_env\<close>.
\<close>

section \<open>Definitions\<close>

record rule_row =
  rr_version :: int
  rr_preimage_sha256 :: string
  rr_envelope :: string
  rr_withdrawn :: int

type_synonym rule_table = "string \<Rightarrow> rule_row option"

record stored_rule_bundle =
  sb_version :: nat
  sb_preimage_sha256 :: string
  sb_envelope :: string

record rule_store =
  rs_table :: rule_table
  rs_limits :: resource_limits

definition RULES_APPLICATION_ID :: int where
  "RULES_APPLICATION_ID = 0x4F565231"

definition rules_schema_v1 :: "rule_table option script" where
  "rules_schema_v1 d =
     (case db_content d of
        Some _ \<Rightarrow> Err OtherCode
      | None \<Rightarrow> Ok (d\<lparr>db_content := Some Map.empty, db_user_version := 1\<rparr>))"

definition rules_upgrade_v2 :: "rule_table option script" where
  "rules_upgrade_v2 d =
     (case db_content d of
        None \<Rightarrow> Err OtherCode
      | Some t \<Rightarrow>
          Ok (d\<lparr>db_content := Some (\<lambda>k. map_option (\<lambda>r. r\<lparr>rr_withdrawn := 0\<rparr>) (t k)), db_user_version := 2\<rparr>))"

definition rule_store_open ::
  "open_env \<Rightarrow> resource_limits \<Rightarrow> rule_table option db \<Rightarrow>
   ((unit, storage_error) result \<times> rule_table option db) option" where
  "rule_store_open E l d =
     (if \<not> (1 \<le> document_bytes l \<and> document_bytes l \<le> document_bytes V1) then Some (Err SE_InvalidLimits, d)
      else open_database E RULES_APPLICATION_ID rules_schema_v1 [rules_upgrade_v2] d)"

definition rules_get ::
  "sqlite_code option \<Rightarrow> ident \<Rightarrow> rule_store \<Rightarrow> (stored_rule_bundle option, storage_error) result" where
  "rules_get fault rule_set_id s =
     (case fault of
        Some code \<Rightarrow> Err (from_rusqlite code)
      | None \<Rightarrow>
          (case rs_table s (as_str rule_set_id) of
             None \<Rightarrow> Ok None
           | Some r \<Rightarrow>
               if rr_version r > 0 \<and> length (rr_preimage_sha256 r) = 32 \<and>
                  int (length (rr_envelope r)) \<le> sql_int (document_bytes (rs_limits s)) \<and> rr_envelope r \<noteq> []
               then Ok (Some \<lparr>sb_version = nat (rr_version r), sb_preimage_sha256 = rr_preimage_sha256 r,
                              sb_envelope = rr_envelope r\<rparr>)
               else Err SE_Corrupt))"

definition accept ::
  "sqlite_code option \<Rightarrow> ident \<Rightarrow> stored_rule_bundle \<Rightarrow> (rule_store, unit, storage_error) action" where
  "accept fault rule_set_id b s =
     (if int (sb_version b) > i64_max \<or> sb_version b = 0 then (Err SE_InvalidBundle, s)
      else if sb_envelope b = [] \<or> length (sb_envelope b) > document_bytes (rs_limits s)
      then (Err SE_InvalidBundle, s)
      else
        let version = int (sb_version b); k = as_str rule_set_id;
          insert_or_replace = s\<lparr>rs_table := (rs_table s)(k \<mapsto>
            \<lparr>rr_version = version, rr_preimage_sha256 = sb_preimage_sha256 b,
             rr_envelope = sb_envelope b, rr_withdrawn = 0\<rparr>)\<rparr> in
        case fault of
          Some code \<Rightarrow> (Err (from_rusqlite code), s)
        | None \<Rightarrow>
            (case rs_table s k of
               None \<Rightarrow> (Ok (), insert_or_replace)
             | Some r \<Rightarrow>
                 if version < rr_version r then (Err SE_Rollback, s)
                 else if version = rr_version r then
                   if rr_preimage_sha256 r \<noteq> sb_preimage_sha256 b then (Err SE_VersionConflict, s)
                   else (Ok (), s\<lparr>rs_table := (rs_table s)(k \<mapsto> r\<lparr>rr_withdrawn := 0\<rparr>)\<rparr>)
                 else (Ok (), insert_or_replace)))"

definition withdraw :: "sqlite_code option \<Rightarrow> ident \<Rightarrow> (rule_store, unit, storage_error) action" where
  "withdraw fault rule_set_id s =
     (case fault of
        Some code \<Rightarrow> (Err (from_rusqlite code), s)
      | None \<Rightarrow>
          (case rs_table s (as_str rule_set_id) of
             None \<Rightarrow> (Ok (), s)
           | Some r \<Rightarrow>
               (Ok (), s\<lparr>rs_table := (rs_table s)(as_str rule_set_id \<mapsto> r\<lparr>rr_withdrawn := 1\<rparr>)\<rparr>)))"

definition is_withdrawn :: "sqlite_code option \<Rightarrow> ident \<Rightarrow> rule_store \<Rightarrow> (bool, storage_error) result" where
  "is_withdrawn fault rule_set_id s =
     (case fault of
        Some code \<Rightarrow> Err (from_rusqlite code)
      | None \<Rightarrow>
          (case rs_table s (as_str rule_set_id) of
             None \<Rightarrow> Ok False
           | Some r \<Rightarrow>
               if rr_withdrawn r = 0 then Ok False
               else if rr_withdrawn r = 1 then Ok True
               else Err SE_Corrupt))"

lemmas rule_store_evals [evals] =
  RULES_APPLICATION_ID_def rules_schema_v1_def rules_upgrade_v2_def rule_store_open_def rules_get_def
  accept_def withdraw_def is_withdrawn_def

section \<open>Runs of the store\<close>

text \<open>One step of the store's life: an operation, whatever SQLite reports, or a restart that opens
  the file again, possibly with other limits.\<close>

inductive store_step :: "rule_store \<Rightarrow> rule_store \<Rightarrow> bool" where
  step_accept: "accept fault rule_set_id b s = (r, t) \<Longrightarrow> length (sb_preimage_sha256 b) = 32 \<Longrightarrow> store_step s t"
| step_withdraw: "withdraw fault rule_set_id s = (r, t) \<Longrightarrow> store_step s t"
| step_reopen: "rule_store_open E l \<lparr>db_user_version = v, db_application_id = RULES_APPLICATION_ID,
      db_content = Some (rs_table s)\<rparr> = Some (Ok (), d) \<Longrightarrow> v \<in> {1, 2} \<Longrightarrow>
    db_content d = Some (rs_table t) \<Longrightarrow> rs_limits t = l \<Longrightarrow> store_step s t"

definition row_ok :: "rule_row \<Rightarrow> bool" where
  "row_ok r \<longleftrightarrow> 0 < rr_version r \<and> rr_version r \<le> i64_max \<and> length (rr_preimage_sha256 r) = 32 \<and>
     rr_envelope r \<noteq> [] \<and> length (rr_envelope r) \<le> document_bytes V1 \<and> rr_withdrawn r \<in> {0, 1}"

definition store_inv :: "rule_store \<Rightarrow> bool" where
  "store_inv s \<longleftrightarrow> (\<forall>k r. rs_table s k = Some r \<longrightarrow> row_ok r) \<and>
     1 \<le> document_bytes (rs_limits s) \<and> document_bytes (rs_limits s) \<le> document_bytes V1"

definition floors :: "rule_store \<Rightarrow> string \<Rightarrow> int" where
  "floors s k = (case rs_table s k of None \<Rightarrow> 0 | Some r \<Rightarrow> rr_version r)"

text \<open>The row of \<open>k\<close> is at version \<open>v\<close> with digest \<open>d\<close>, or has moved on to a later version.\<close>

definition floor_holds :: "string \<Rightarrow> int \<Rightarrow> string \<Rightarrow> rule_store \<Rightarrow> bool" where
  "floor_holds k v digest s \<longleftrightarrow>
     (case rs_table s k of None \<Rightarrow> False
      | Some r \<Rightarrow> v < rr_version r \<or> v = rr_version r \<and> rr_preimage_sha256 r = digest)"

text \<open>What a file holds about its bundles, the withdrawal mark left out.\<close>

definition key_rows :: "rule_table option \<Rightarrow> string \<Rightarrow> (int \<times> string \<times> string) option" where
  "key_rows c k = (case c of None \<Rightarrow> None
     | Some t \<Rightarrow> map_option (\<lambda>r. (rr_version r, rr_preimage_sha256 r, rr_envelope r)) (t k))"

lemma key_rows_simps [simp]:
  "key_rows (Some Map.empty) = key_rows None"
  "key_rows (Some (\<lambda>k. map_option (\<lambda>r. r\<lparr>rr_withdrawn := w\<rparr>) (t k))) = key_rows (Some t)"
  by (auto simp: key_rows_def option.map_comp comp_def)

interpretation rules_migration: migration rules_schema_v1 "[rules_upgrade_v2]" "\<lambda>c. key_rows c = rows"
  by unfold_locales
    (auto simp: rules_schema_v1_def rules_upgrade_v2_def i64_max_def split: option.splits)

lemma store_inv_upd:
  "store_inv s \<Longrightarrow> row_ok row \<Longrightarrow> rs_table t = (rs_table s)(k \<mapsto> row) \<Longrightarrow> rs_limits t = rs_limits s \<Longrightarrow> store_inv t"
  by (auto simp: store_inv_def split: if_splits)

lemma store_inv_row: "store_inv s \<Longrightarrow> rs_table s k = Some r \<Longrightarrow> row_ok r"
  by (auto simp: store_inv_def)

lemma row_ok_withdrawn: "row_ok r \<Longrightarrow> w \<in> {0, 1} \<Longrightarrow> row_ok (r\<lparr>rr_withdrawn := w\<rparr>)"
  by (auto simp: row_ok_def)

lemma upgraded_rows:
  assumes "upgrade_loop F [rules_upgrade_v2] n d = Some (Ok (), d')" "db_user_version d = v" "v \<in> {1, 2}" "db_content d = Some t"
  shows "db_content d' = Some (if v = 1 then \<lambda>k. map_option (\<lambda>r. r\<lparr>rr_withdrawn := 0\<rparr>) (t k) else t)"
proof -
  have stop: "d'' = d0" if "upgrade_loop F [rules_upgrade_v2] m d0 = Some (Ok (), d'')" "db_user_version d0 = 2" for m d0 d''
    using that by (subst (asm) upgrade_loop.simps) (auto split: option.splits)
  show ?thesis
  proof (cases "v = 2")
    case True
    then show ?thesis using stop [OF assms(1)] assms by simp
  next
    case False
    then have v: "v = 1" using assms(3) by simp
    obtain d0 where "upgrade_loop F [rules_upgrade_v2] (n + 2) d0 = Some (Ok (), d')" "rules_upgrade_v2 d = Ok d0"
      using assms(1,2) v
      by (subst (asm) upgrade_loop.simps) (auto simp: run_script_def split: option.splits result.splits)
    moreover from this have "db_user_version d0 = 2" using assms(4) by (auto simp: rules_upgrade_v2_def)
    ultimately have "d' = d0" "rules_upgrade_v2 d = Ok d0" using stop by blast+
    then show ?thesis using assms(4) v by (auto simp: rules_upgrade_v2_def)
  qed
qed

lemma reopen_rows:
  assumes "rule_store_open E l \<lparr>db_user_version = v, db_application_id = RULES_APPLICATION_ID,
      db_content = Some t\<rparr> = Some (Ok (), d)" and "v \<in> {1, 2}"
  shows "db_content d = Some (if v = 1 then \<lambda>k. map_option (\<lambda>r. r\<lparr>rr_withdrawn := 0\<rparr>) (t k) else t) \<and>
    1 \<le> document_bytes l \<and> document_bytes l \<le> document_bytes V1"
proof -
  let ?d = "\<lparr>db_user_version = v, db_application_id = RULES_APPLICATION_ID, db_content = Some t\<rparr>"
  have "upgrade_loop (oe_fault E) [rules_upgrade_v2] 3 ?d = Some (Ok (), d) \<and>
      1 \<le> document_bytes l \<and> document_bytes l \<le> document_bytes V1"
    using assms by (auto simp: rule_store_open_def open_database_def check_header_def abind_def query_def
        split: if_splits result.splits option.splits)
  then show ?thesis using upgraded_rows [of "oe_fault E" 3 ?d d v t] assms(2) by simp
qed

lemma accept_Err:
  assumes "accept fault i b s = (Err e, t)"
  shows "t = s \<and>
    (e = SE_InvalidBundle \<longleftrightarrow> sb_version b = 0 \<or> int (sb_version b) > i64_max \<or> sb_envelope b = [] \<or>
       length (sb_envelope b) > document_bytes (rs_limits s)) \<and>
    (e = SE_Rollback \<longrightarrow> int (sb_version b) < floors s (as_str i)) \<and>
    (e = SE_VersionConflict \<longrightarrow> int (sb_version b) = floors s (as_str i))"
  using assms
  by (auto simp: accept_def Let_def floors_def from_rusqlite_def split: if_splits option.splits sqlite_code.splits)

lemma accept_Ok:
  assumes "accept fault i b s = (Ok u, t)"
  shows "0 < sb_version b \<and> int (sb_version b) \<le> i64_max \<and> sb_envelope b \<noteq> [] \<and>
    length (sb_envelope b) \<le> document_bytes (rs_limits s) \<and> rs_limits t = rs_limits s \<and>
    (\<exists>row. rs_table t = (rs_table s)(as_str i \<mapsto> row) \<and> rr_version row = int (sb_version b) \<and>
      rr_preimage_sha256 row = sb_preimage_sha256 b \<and> rr_withdrawn row = 0 \<and>
      (case rs_table s (as_str i) of
         None \<Rightarrow> rr_envelope row = sb_envelope b
       | Some old \<Rightarrow> rr_version old < rr_version row \<and> rr_envelope row = sb_envelope b \<or>
           row = old\<lparr>rr_withdrawn := 0\<rparr>))"
  using assms by (auto simp: accept_def Let_def split: if_splits option.splits)

lemma accept_cases:
  assumes "accept fault i b s = (r, t)"
  shows "t = s \<or> r = Ok ()"
  using assms accept_Err [of fault i b s _ t] by (cases r) auto

lemma withdraw_cases:
  "withdraw fault i s = (r, t) \<Longrightarrow>
   t = s \<or> (\<exists>row. rs_table s (as_str i) = Some row \<and> rs_limits t = rs_limits s \<and>
     rs_table t = (rs_table s)(as_str i \<mapsto> row\<lparr>rr_withdrawn := 1\<rparr>))"
  by (auto simp: withdraw_def split: option.splits)

lemma store_inv_accept:
  assumes "store_inv s" "accept fault i b s = (r, t)" "length (sb_preimage_sha256 b) = 32"
  shows "store_inv t"
proof (cases "t = s")
  case False
  with accept_cases [OF assms(2)] assms(2) have "accept fault i b s = (Ok (), t)" by auto
  from accept_Ok [OF this] obtain row where row: "rs_table t = (rs_table s)(as_str i \<mapsto> row)"
    "rs_limits t = rs_limits s" "rr_version row = int (sb_version b)" "rr_preimage_sha256 row = sb_preimage_sha256 b"
    "rr_withdrawn row = 0" "0 < sb_version b" "int (sb_version b) \<le> i64_max" "sb_envelope b \<noteq> []"
    "length (sb_envelope b) \<le> document_bytes (rs_limits s)"
    and old: "rr_envelope row = sb_envelope b \<or> (\<exists>old. rs_table s (as_str i) = Some old \<and> row = old\<lparr>rr_withdrawn := 0\<rparr>)"
    by (auto split: option.splits)
  from old have "row_ok row"
  proof
    assume "rr_envelope row = sb_envelope b"
    then show ?thesis using row assms by (auto simp: row_ok_def store_inv_def)
  next
    assume "\<exists>old. rs_table s (as_str i) = Some old \<and> row = old\<lparr>rr_withdrawn := 0\<rparr>"
    then show ?thesis using store_inv_row [OF assms(1)] by (auto intro: row_ok_withdrawn)
  qed
  then show ?thesis using store_inv_upd [OF assms(1) _ row(1,2)] by blast
qed (use assms in simp)

lemma store_inv_step:
  assumes "store_step s t" and inv: "store_inv s"
  shows "store_inv t"
  using assms(1)
proof (cases rule: store_step.cases)
  case (step_accept fault i b r)
  then show ?thesis using store_inv_accept [OF inv] by blast
next
  case (step_withdraw fault i r)
  from withdraw_cases [OF this] show ?thesis
    using inv by (elim disjE exE conjE) (auto intro: store_inv_upd [OF inv row_ok_withdrawn [OF store_inv_row [OF inv]]])
next
  case (step_reopen E l v d)
  from reopen_rows [OF step_reopen(1,2)] show ?thesis
    using inv step_reopen(2-4) by (auto simp: store_inv_def row_ok_withdrawn split: if_splits)
qed

lemma floor_step:
  assumes "store_step s t" and h: "floor_holds k v digest s"
  shows "floor_holds k v digest t"
  using assms(1)
proof (cases rule: store_step.cases)
  case (step_accept fault i b r)
  from accept_cases [OF this(1)] step_accept(1) have "t = s \<or> accept fault i b s = (Ok (), t)" by auto
  then show ?thesis using h
    by (elim disjE) (auto dest!: accept_Ok simp: floor_holds_def split: if_splits option.splits)
next
  case (step_withdraw fault i r)
  from withdraw_cases [OF this] h show ?thesis
    by (auto simp: floor_holds_def split: if_splits option.splits)
next
  case (step_reopen E l u d)
  from reopen_rows [OF step_reopen(1,2)] step_reopen(2,3) h show ?thesis
    by (auto simp: floor_holds_def split: if_splits option.splits)
qed

lemma floors_step:
  assumes "store_step s t" "store_inv s"
  shows "floors s \<le> floors t"
proof (rule le_funI)
  fix k
  show "floors s k \<le> floors t k"
  proof (cases "rs_table s k")
    case None
    then show ?thesis using store_inv_step [OF assms]
      by (fastforce simp: floors_def store_inv_def row_ok_def split: option.splits)
  next
    case (Some r)
    then have "floor_holds k (rr_version r) (rr_preimage_sha256 r) s" by (simp add: floor_holds_def)
    from floor_step [OF assms(1) this] Some show ?thesis
      by (auto simp: floors_def floor_holds_def split: option.splits)
  qed
qed

interpretation rollback: stepping store_step "floor_holds k v digest"
  by unfold_locales (rule floor_step)

interpretation store: monotone_stepping store_step store_inv floors
  by unfold_locales (blast intro: store_inv_step floors_step)+

section \<open>An example store\<close>

definition st_bundle :: stored_rule_bundle where
  "st_bundle = \<lparr>sb_version = 2, sb_preimage_sha256 = replicate 32 NUL, sb_envelope = ''e''\<rparr>"

definition st_empty :: rule_store where
  "st_empty = \<lparr>rs_table = Map.empty, rs_limits = V1\<rparr>"

definition st_stored :: rule_store where
  "st_stored = \<lparr>rs_table = [''s'' \<mapsto> \<lparr>rr_version = 2, rr_preimage_sha256 = replicate 32 NUL,
     rr_envelope = ''e'', rr_withdrawn = 0\<rparr>], rs_limits = V1\<rparr>"

definition st_withdrawn :: rule_store where
  "st_withdrawn = \<lparr>rs_table = [''s'' \<mapsto> \<lparr>rr_version = 2, rr_preimage_sha256 = replicate 32 NUL,
     rr_envelope = ''e'', rr_withdrawn = 1\<rparr>], rs_limits = V1\<rparr>"

definition st_env :: open_env where
  "st_env = \<lparr>oe_check_file_before_open = Ok (), oe_open_with_flags = Ok (), oe_restrict_file = Ok (),
     oe_pragmas = Ok (), oe_quick_check = Ok ''ok'', oe_fault = (\<lambda>_. None)\<rparr>"

lemmas st_defs = st_bundle_def st_empty_def st_stored_def st_withdrawn_def st_env_def

lemma st_accepts: "accept None (Identifier ''s'') st_bundle st_empty = (Ok (), st_stored)"
  by (simp add: evals st_defs i64_max_def)

lemma st_withdraws: "withdraw None (Identifier ''s'') st_stored = (Ok (), st_withdrawn)"
  by (simp add: evals st_defs)

lemma st_run: "store_step\<^sup>*\<^sup>* st_stored st_withdrawn"
  using step_withdraw [OF st_withdraws] by blast

section \<open>Properties\<close>

text \<open>C11: the rollback floor survives every run. Once a set is stored at a version with a digest,
  whatever sequence of accepts, withdrawals, SQLite faults and restarts follows, the set stays
  stored, at a later version or at the same version with the same digest; floors never decrease
  and every row stays readable under the limits ceiling.\<close>

theorem rollback_floor_kept:
  assumes "store_step\<^sup>*\<^sup>* s t" and "store_inv s"
  shows "floors s \<le> floors t \<and> store_inv t \<and>
    (\<forall>k v d. floor_holds k v d s \<longrightarrow> floor_holds k v d t)"
  using store.gauge_run [OF assms] store.inv_run [OF assms] rollback.inv_run [OF assms(1)] by blast

theorem rollback_floor_kept_witness:
  "store_step\<^sup>*\<^sup>* st_stored st_withdrawn \<and> floors st_stored ''s'' = 2 \<and> floors st_withdrawn ''s'' \<ge> 2 \<and>
   floor_holds ''s'' 2 (replicate 32 NUL) st_withdrawn"
proof -
  have inv: "store_inv st_stored" by (auto simp: store_inv_def row_ok_def st_defs i64_max_def split: if_splits)
  have at: "floors st_stored ''s'' = 2" "floor_holds ''s'' 2 (replicate 32 NUL) st_stored"
    by (simp_all add: floors_def floor_holds_def st_defs)
  note kept = rollback_floor_kept [OF st_run inv]
  from kept have "floors st_stored ''s'' \<le> floors st_withdrawn ''s''" by (simp add: le_fun_def)
  then show ?thesis using kept st_run at by simp
qed

text \<open>C24: what accepting does on every branch. It succeeds exactly when the record is well formed,
  SQLite reports no fault and the version is above the floor or repeats the stored digest; then a
  read returns that version and digest and the set is not withdrawn. Otherwise the store is
  unchanged and the error names the reason.\<close>

theorem accept_spec:
  assumes "length (sb_preimage_sha256 b) = 32" "store_inv s" and "accept fault i b s = (r, t)"
  shows "case r of
      Ok _ \<Rightarrow> floor_holds (as_str i) (int (sb_version b)) (sb_preimage_sha256 b) t \<and>
        floors t (as_str i) = int (sb_version b) \<and> is_withdrawn None i t = Ok False \<and>
        rules_get None i t = (if floors s (as_str i) < int (sb_version b) then Ok (Some b) else rules_get None i s) \<and>
        (\<forall>j g. j \<noteq> i \<longrightarrow> rules_get g j t = rules_get g j s \<and> is_withdrawn g j t = is_withdrawn g j s)
    | Err e \<Rightarrow> t = s \<and>
        (e = SE_InvalidBundle \<longleftrightarrow> sb_version b = 0 \<or> int (sb_version b) > i64_max \<or> sb_envelope b = [] \<or>
           length (sb_envelope b) > document_bytes (rs_limits s)) \<and>
        (e = SE_Rollback \<longrightarrow> int (sb_version b) < floors s (as_str i)) \<and>
        (e = SE_VersionConflict \<longrightarrow> int (sb_version b) = floors s (as_str i))"
proof (cases r)
  case (Err e)
  then show ?thesis using accept_Err [of fault i b s e t] assms(3) by simp
next
  case (Ok u)
  have other: "as_str j \<noteq> as_str i" if "j \<noteq> i" for j using that by (metis ident.expand)
  from accept_Ok [OF assms(3) [unfolded Ok]] obtain row where
    b: "0 < sb_version b" "sb_envelope b \<noteq> []" "length (sb_envelope b) \<le> document_bytes (rs_limits s)"
    and t: "rs_table t = (rs_table s)(as_str i \<mapsto> row)" "rs_limits t = rs_limits s"
    and row: "rr_version row = int (sb_version b)" "rr_preimage_sha256 row = sb_preimage_sha256 b" "rr_withdrawn row = 0"
    and old: "case rs_table s (as_str i) of
         None \<Rightarrow> rr_envelope row = sb_envelope b
       | Some old \<Rightarrow> rr_version old < rr_version row \<and> rr_envelope row = sb_envelope b \<or>
           row = old\<lparr>rr_withdrawn := 0\<rparr>" by (elim conjE exE) simp
  have size: "int (length (sb_envelope b)) \<le> sql_int (document_bytes (rs_limits s))"
    using b(3) assms(2) by (simp add: sql_int_def store_inv_def i64_max_def)
  have "rules_get None i t = (if floors s (as_str i) < int (sb_version b) then Ok (Some b) else rules_get None i s)"
    using old t row b size assms(1)
    by (cases "rs_table s (as_str i)") (auto simp: rules_get_def floors_def)
  moreover have "rules_get g j t = rules_get g j s \<and> is_withdrawn g j t = is_withdrawn g j s" if "j \<noteq> i" for j g
    using other [OF that] t by (simp add: rules_get_def is_withdrawn_def split: option.splits)
  ultimately show ?thesis
    using Ok t(1) row by (simp add: floor_holds_def floors_def is_withdrawn_def)
qed

theorem accept_spec_witness:
  "rules_get None (Identifier ''s'') st_stored = Ok (Some st_bundle)"
proof -
  have "store_inv st_empty" "length (sb_preimage_sha256 st_bundle) = 32" by (simp_all add: store_inv_def st_defs)
  from accept_spec [OF this(2,1) st_accepts] show ?thesis by (simp add: floors_def st_empty_def st_bundle_def)
qed

text \<open>C25: opening the store always ends. Whatever the file holds, the migration loop reaches the
  current schema version or reports an error, and the versions, digests and envelopes in the file
  are the same afterwards.\<close>

theorem rule_store_open_ends:
  "\<exists>r d'. rule_store_open E l d = Some (r, d') \<and> key_rows (db_content d') = key_rows (db_content d) \<and>
     (case r of
        Ok _ \<Rightarrow> db_user_version d' = 2 \<and> db_application_id d' = RULES_APPLICATION_ID
      | Err _ \<Rightarrow> True)"
proof (cases "1 \<le> document_bytes l \<and> document_bytes l \<le> document_bytes V1")
  case True
  from rules_migration.open_ends [OF refl, where d = d and E = E and a = RULES_APPLICATION_ID] obtain r d' where
    "open_database E RULES_APPLICATION_ID rules_schema_v1 [rules_upgrade_v2] d = Some (r, d')"
    "key_rows (db_content d') = key_rows (db_content d)"
    "r = Ok () \<longrightarrow> db_user_version d' = latest [rules_upgrade_v2] \<and> db_application_id d' = RULES_APPLICATION_ID"
    by (elim exE conjE)
  then show ?thesis using True
    by (intro exI [of _ r] exI [of _ d']) (simp add: rule_store_open_def latest_def i64_max_def split: result.splits)
next
  case False
  then show ?thesis by (simp add: rule_store_open_def)
qed

end
