(* ===== verification/Finding_Queue.thy ===== *)
theory Finding_Queue
  imports Database Transitions Contracts Ordered_Map "HOL-Library.Sublist"
begin

text \<open>
  The finding queue: \<open>openvibes-storage/src/queue.rs\<close>. The table \<open>pending\<close> is the list of its rows in
  the order of the primary key \<open>seq\<close>, \<open>acknowledged\<close> a map, \<open>counters\<close> an ordered map; every SQL
  statement is the update it makes. SQLite is a parameter: \<open>qe_full\<close> tells when an insert would pass
  the page limit, \<open>qe_fault\<close> gives the code the \<open>n\<close>-th transaction of a call aborts with (an aborted
  transaction changes nothing), \<open>qe_random\<close> is \<open>random()\<close> for a row. \<open>serde_json\<close> is \<open>qe_encode\<close> and
  \<open>qe_decode\<close>. The tables are \<open>STRICT\<close>, so a statement whose sum leaves 64 bits fails and its
  transaction is rolled back.
\<close>

section \<open>Definitions\<close>

record pending_row =
  pr_seq :: int
  pr_finding_id :: string
  pr_body :: string
  pr_enqueued_at_ms :: int
  pr_attempts :: int
  pr_next_attempt_ms :: int

record sqlite_queue =
  sq_pending :: "pending_row list"
  sq_acknowledged :: "string \<Rightarrow> int option"
  sq_counters :: "(string, int) btree_map"
  sq_limits :: resource_limits
  sq_clock_skew_ms :: int

record queue_env =
  qe_full :: "sqlite_queue \<Rightarrow> pending_row \<Rightarrow> bool"
  qe_fault :: "nat \<Rightarrow> sqlite_code option"
  qe_random :: "string \<Rightarrow> int"
  qe_encode :: "finding \<Rightarrow> string option"
  qe_decode :: "string \<Rightarrow> finding option"
  qe_json_length :: "detection \<Rightarrow> nat option"

datatype 'e delivery_error = DE_Transport 'e | DE_InvalidAcknowledgement | DE_Queue storage_error

definition MAX_REJECTION_REASONS :: nat where "MAX_REJECTION_REASONS = 15"
definition DAY_MS :: int where "DAY_MS = 86400000"
definition BATCH_WRAPPER_BYTES :: nat where "BATCH_WRAPPER_BYTES = 16 * 1024"

definition seconds_ms :: "nat \<Rightarrow> int" where
  "seconds_ms seconds = (let ms = int (min u64_max (seconds * 1000)) in if ms \<le> i64_max then ms else i64_max)"

definition queue_validate_limits :: "resource_limits \<Rightarrow> (unit, storage_error) result" where
  "queue_validate_limits l =
     (if 1 \<le> delivery_batch_items l \<and> delivery_batch_items l \<le> delivery_batch_items V1 \<and>
         1 \<le> queue_bytes l \<and> queue_bytes l \<le> queue_bytes V1 \<and>
         1 \<le> retention_days l \<and> retention_days l \<le> retention_days V1 \<and>
         1 \<le> document_bytes l \<and> document_bytes l \<le> document_bytes V1 \<and>
         1 \<le> retry_initial_seconds l \<and> retry_initial_seconds l \<le> retry_max_seconds l \<and>
         retry_max_seconds l \<le> retry_max_seconds V1
      then Ok () else Err SE_InvalidLimits)"

definition max_page_count :: "resource_limits \<Rightarrow> int \<Rightarrow> nat" where
  "max_page_count l page_size = max (queue_bytes l div max (nat \<bar>page_size\<bar>) 1) 1"

definition set_clock_skew :: "int \<Rightarrow> sqlite_queue \<Rightarrow> sqlite_queue" where
  "set_clock_skew skew_ms q = q\<lparr>sq_clock_skew_ms := max skew_ms 0\<rparr>"

definition cutoff_ms :: "int \<Rightarrow> sqlite_queue \<Rightarrow> int" where
  "cutoff_ms now q =
     i64_saturating_sub (i64_saturating_sub now (sq_clock_skew_ms q))
       (int (retention_days (sq_limits q)) * DAY_MS)"

definition pruned :: "int \<Rightarrow> sqlite_queue \<Rightarrow> sqlite_queue" where
  "pruned now q =
     q\<lparr>sq_pending := filter (\<lambda>r. \<not> pr_enqueued_at_ms r < cutoff_ms now q) (sq_pending q),
       sq_acknowledged := (\<lambda>i. case sq_acknowledged q i of None \<Rightarrow> None
         | Some t \<Rightarrow> if t < cutoff_ms now q then None else Some t)\<rparr>"

definition prune :: "sqlite_code option \<Rightarrow> int \<Rightarrow> (sqlite_queue, unit, storage_error) action" where
  "prune fault now = txn fault (\<lambda>q. ((), pruned now q))"

definition bump :: "string \<Rightarrow> (string, int) btree_map \<Rightarrow> ((string, int) btree_map, sqlite_code) result" where
  "bump name counters =
     (case bt_get counters name of
        None \<Rightarrow> Ok (bt_insert name 1 counters)
      | Some v \<Rightarrow> rbind (sql_add v 1) (\<lambda>n. Ok (bt_insert name n counters)))"

definition drop_oldest :: "sqlite_code option \<Rightarrow> (sqlite_queue, bool, storage_error) action" where
  "drop_oldest fault = txn_try fault (\<lambda>q.
     case sq_pending q of
       [] \<Rightarrow> Ok (False, q)
     | _ # rest \<Rightarrow>
         rbind (bump ''dropped'' (sq_counters q)) (\<lambda>counters.
           Ok (True, q\<lparr>sq_pending := rest, sq_counters := counters\<rparr>)))"

definition next_seq :: "pending_row list \<Rightarrow> int" where
  "next_seq rows = (if rows = [] then 1 else pr_seq (last rows) + 1)"

definition new_row :: "string \<Rightarrow> string \<Rightarrow> int \<Rightarrow> sqlite_queue \<Rightarrow> pending_row" where
  "new_row fid body now q =
     \<lparr>pr_seq = next_seq (sq_pending q), pr_finding_id = fid, pr_body = body, pr_enqueued_at_ms = now,
      pr_attempts = 0, pr_next_attempt_ms = now\<rparr>"

text \<open>The loop of \<open>enqueue\<close>. Each attempt is one transaction and each drop another; a drop removes a
  row, so the loop ends.\<close>

function enqueue_loop ::
  "queue_env \<Rightarrow> nat \<Rightarrow> string \<Rightarrow> string \<Rightarrow> int \<Rightarrow> sqlite_queue \<Rightarrow>
   (bool, storage_error) result \<times> sqlite_queue" where
  "enqueue_loop E n fid body now q =
     (case qe_fault E n of
        Some c \<Rightarrow> (Err (from_rusqlite c), q)
      | None \<Rightarrow>
          if sq_acknowledged q fid \<noteq> None then (Ok False, q)
          else if list_ex (\<lambda>r. pr_finding_id r = fid) (sq_pending q) then (Ok False, q)
          else if \<not> qe_full E q (new_row fid body now q)
          then (Ok True, q\<lparr>sq_pending := sq_pending q @ [new_row fid body now q]\<rparr>)
          else
            (case drop_oldest (qe_fault E (n + 1)) q of
               (Err e, q') \<Rightarrow> (Err e, q')
             | (Ok False, q') \<Rightarrow> (Err SE_Full, q')
             | (Ok True, q') \<Rightarrow> enqueue_loop E (n + 2) fid body now q'))"
  by pat_completeness auto
termination
  by (relation "measure (\<lambda>(E, n, fid, body, now, q). length (sq_pending q))")
    (auto simp: drop_oldest_def txn_try_def rbind_def split: option.splits list.splits result.splits)

declare enqueue_loop.simps [simp del]

definition enqueue ::
  "queue_env \<Rightarrow> finding \<Rightarrow> int \<Rightarrow> (sqlite_queue, bool, storage_error) action" where
  "enqueue E finding now q =
     (if \<not> is_ok (finding_validate (qe_json_length E) finding (sq_limits q)) then (Err SE_InvalidFinding, q)
      else
        case qe_encode E finding of
          None \<Rightarrow> (Err SE_InvalidFinding, q)
        | Some body \<Rightarrow>
            if length body > document_bytes (sq_limits q) then (Err SE_InvalidFinding, q)
            else abind (prune (qe_fault E 0) now)
              (\<lambda>_. enqueue_loop E 1 (as_str (fd_finding_id finding)) body now) q)"

definition queue_len :: "sqlite_queue \<Rightarrow> nat" where
  "queue_len q = length (sq_pending q)"

definition queue_is_empty :: "sqlite_queue \<Rightarrow> bool" where
  "queue_is_empty q \<longleftrightarrow> queue_len q = 0"

record queue_stats =
  qs_pending :: nat
  qs_oldest_enqueued_at_ms :: "int option"
  qs_bytes :: nat
  qs_dropped_total :: nat
  qs_rejected_total :: "(string, nat) btree_map"

fun stats_counters :: "(string \<times> int) list \<Rightarrow> queue_stats \<Rightarrow> queue_stats" where
  "stats_counters [] s = s"
| "stats_counters ((name, value) # rest) s =
     stats_counters rest
       (if name = ''dropped'' then s\<lparr>qs_dropped_total := nat (max value 0)\<rparr>
        else case strip_prefix ''rejected:'' name of
          Some reason \<Rightarrow> s\<lparr>qs_rejected_total := bt_insert reason (nat (max value 0)) (qs_rejected_total s)\<rparr>
        | None \<Rightarrow> s)"

definition queue_stats_of :: "int \<Rightarrow> int \<Rightarrow> int \<Rightarrow> sqlite_queue \<Rightarrow> queue_stats" where
  "queue_stats_of page_count freelist_count page_size q =
     stats_counters (sq_counters q)
       \<lparr>qs_pending = length (sq_pending q),
        qs_oldest_enqueued_at_ms =
          (case map pr_enqueued_at_ms (sq_pending q) of [] \<Rightarrow> None | t # ts \<Rightarrow> Some (foldl min t ts)),
        qs_bytes = nat (max ((page_count - freelist_count) * page_size) 0),
        qs_dropped_total = 0, qs_rejected_total = []\<rparr>"

section \<open>Delivery\<close>

definition due :: "int \<Rightarrow> resource_limits \<Rightarrow> pending_row \<Rightarrow> bool" where
  "due now l r \<longleftrightarrow>
     pr_next_attempt_ms r \<le> now \<or> pr_next_attempt_ms r > now + seconds_ms (retry_max_seconds l)"

definition due_rows :: "int \<Rightarrow> sqlite_queue \<Rightarrow> pending_row list" where
  "due_rows now q = take (delivery_batch_items (sq_limits q)) (filter (due now (sq_limits q)) (sq_pending q))"

text \<open>A stored record is only used when it is within the size limit, parses, names its own row and
  satisfies the contract.\<close>

definition row_finding :: "queue_env \<Rightarrow> resource_limits \<Rightarrow> pending_row \<Rightarrow> finding option" where
  "row_finding E l r =
     (if int (length (pr_body r)) \<le> sql_int (document_bytes l) then
        (case qe_decode E (pr_body r) of
           None \<Rightarrow> None
         | Some f \<Rightarrow>
             if as_str (fd_finding_id f) = pr_finding_id r \<and> is_ok (finding_validate (qe_json_length E) f l)
             then Some f else None)
      else None)"

fun batch_loop ::
  "queue_env \<Rightarrow> resource_limits \<Rightarrow> nat \<Rightarrow> pending_row list \<Rightarrow> finding list \<Rightarrow> nat \<Rightarrow> int list \<Rightarrow>
   finding list \<times> int list" where
  "batch_loop E l budget [] batch bytes invalid = (batch, invalid)"
| "batch_loop E l budget (r # rows) batch bytes invalid =
     (case row_finding E l r of
        Some f \<Rightarrow>
          if batch \<noteq> [] \<and> bytes + length (pr_body r) + 1 > budget then (batch, invalid)
          else batch_loop E l budget rows (batch @ [f]) (bytes + length (pr_body r) + 1) invalid
      | None \<Rightarrow> batch_loop E l budget rows batch bytes (invalid @ [pr_seq r]))"

fun delete_invalid :: "queue_env \<Rightarrow> nat \<Rightarrow> int list \<Rightarrow> (sqlite_queue, unit, storage_error) action" where
  "delete_invalid E n [] q = (Ok (), q)"
| "delete_invalid E n (seq # seqs) q =
     abind (txn (qe_fault E n) (\<lambda>q. ((), q\<lparr>sq_pending := filter (\<lambda>r. pr_seq r \<noteq> seq) (sq_pending q)\<rparr>)))
       (\<lambda>_. delete_invalid E (n + 1) seqs) q"

definition due_batch :: "queue_env \<Rightarrow> int \<Rightarrow> (sqlite_queue, finding list, storage_error) action" where
  "due_batch E now q =
     (case qe_fault E 1 of
        Some c \<Rightarrow> (Err (from_rusqlite c), q)
      | None \<Rightarrow>
          (case batch_loop E (sq_limits q) (document_bytes (sq_limits q) - BATCH_WRAPPER_BYTES)
                  (due_rows now q) [] 0 [] of
             (batch, invalid) \<Rightarrow> abind (delete_invalid E 3 invalid) (\<lambda>_ q. (Ok batch, q)) q))"

text \<open>\<open><<\<close>, \<open>/\<close> and \<open>%\<close> as SQLite computes them on 64-bit integers.\<close>

definition sql_wrap :: "int \<Rightarrow> int" where
  "sql_wrap v = (v + 2 ^ 63) mod 2 ^ 64 - 2 ^ 63"

definition sql_shl :: "int \<Rightarrow> int \<Rightarrow> int" where
  "sql_shl a n = (if 0 \<le> n then sql_wrap (a * 2 ^ nat n) else a div 2 ^ nat (- n))"

definition sql_div :: "int \<Rightarrow> int \<Rightarrow> int" where
  "sql_div a b = sgn a * sgn b * (\<bar>a\<bar> div \<bar>b\<bar>)"

definition sql_rem :: "int \<Rightarrow> int \<Rightarrow> int" where
  "sql_rem a b = sgn a * (\<bar>a\<bar> mod \<bar>b\<bar>)"

definition retry_delay :: "resource_limits \<Rightarrow> int \<Rightarrow> int" where
  "retry_delay l attempts =
     min (seconds_ms (retry_max_seconds l)) (sql_shl (seconds_ms (retry_initial_seconds l)) (min attempts 20))"

definition next_attempt :: "resource_limits \<Rightarrow> int \<Rightarrow> int \<Rightarrow> int \<Rightarrow> (int, sqlite_code) result" where
  "next_attempt l now attempts random =
     (let delay = retry_delay l attempts in
      rbind (sql_add now (sql_div delay 2)) (\<lambda>t. sql_add t \<bar>sql_rem random (sql_div delay 2 + 1)\<bar>))"

definition reschedule_row ::
  "queue_env \<Rightarrow> resource_limits \<Rightarrow> int \<Rightarrow> string \<Rightarrow> pending_row \<Rightarrow> (pending_row, sqlite_code) result" where
  "reschedule_row E l now fid r =
     (if pr_finding_id r = fid
      then
        rbind (sql_add (pr_attempts r) 1) (\<lambda>attempts.
        rbind (next_attempt l now (pr_attempts r) (qe_random E fid)) (\<lambda>t.
          Ok (r\<lparr>pr_attempts := attempts, pr_next_attempt_ms := t\<rparr>)))
      else Ok r)"

definition reschedule :: "queue_env \<Rightarrow> int \<Rightarrow> string \<Rightarrow> sqlite_queue \<Rightarrow> (sqlite_queue, sqlite_code) result" where
  "reschedule E now fid q =
     rbind (rmap (reschedule_row E (sq_limits q) now fid) (sq_pending q)) (\<lambda>rs. Ok (q\<lparr>sq_pending := rs\<rparr>))"

definition acknowledge :: "int \<Rightarrow> string \<Rightarrow> sqlite_queue \<Rightarrow> sqlite_queue" where
  "acknowledge now fid q =
     q\<lparr>sq_pending := filter (\<lambda>r. pr_finding_id r \<noteq> fid) (sq_pending q),
       sq_acknowledged := (sq_acknowledged q)(fid \<mapsto> now)\<rparr>"

definition like_rejected :: "string \<Rightarrow> bool" where
  "like_rejected name \<longleftrightarrow> to_ascii_lowercase (take 9 name) = ''rejected:''"

definition count_rejection :: "string \<Rightarrow> sqlite_queue \<Rightarrow> (sqlite_queue, sqlite_code) result" where
  "count_rejection reason q =
     (let named = ''rejected:'' @ reason;
        known = bt_get (sq_counters q) named \<noteq> None;
        reasons = length (filter (\<lambda>(name, _). like_rejected name \<and> name \<noteq> ''rejected:other'') (sq_counters q));
        key = (if known \<or> reasons < MAX_REJECTION_REASONS then named else ''rejected:other'')
      in rbind (bump key (sq_counters q)) (\<lambda>counters. Ok (q\<lparr>sq_counters := counters\<rparr>)))"

fun settle ::
  "queue_env \<Rightarrow> int \<Rightarrow> ident list \<Rightarrow> finding list \<Rightarrow> nat \<Rightarrow> sqlite_queue \<Rightarrow> (nat \<times> sqlite_queue, sqlite_code) result" where
  "settle E now accepted [] delivered q = Ok (delivered, q)"
| "settle E now accepted (f # fs) delivered q =
     (if fd_finding_id f \<in> set accepted
      then settle E now accepted fs (delivered + 1) (acknowledge now (as_str (fd_finding_id f)) q)
      else rbind (reschedule E now (as_str (fd_finding_id f)) q) (settle E now accepted fs delivered))"

fun count_rejections ::
  "finding list \<Rightarrow> rejected_finding list \<Rightarrow> sqlite_queue \<Rightarrow> (sqlite_queue, sqlite_code) result" where
  "count_rejections batch [] q = Ok q"
| "count_rejections batch (refused # rejected) q =
     (if rj_finding_id refused \<in> fd_finding_id ` set batch
      then rbind (count_rejection (as_str (rj_reason refused)) q) (count_rejections batch rejected)
      else count_rejections batch rejected q)"

definition accepted_by ::
  "resource_limits \<Rightarrow> (delivery_acknowledgement, 'e) result \<Rightarrow> ident list" where
  "accepted_by l outcome =
     (case outcome of
        Ok ack \<Rightarrow> if is_ok (acknowledgement_validate ack l) then ack_accepted_finding_ids ack else []
      | Err _ \<Rightarrow> [])"

definition rejected_by ::
  "resource_limits \<Rightarrow> (delivery_acknowledgement, 'e) result \<Rightarrow> rejected_finding list" where
  "rejected_by l outcome =
     (case outcome of
        Ok ack \<Rightarrow> if is_ok (acknowledgement_validate ack l) then ack_rejected_findings ack else []
      | Err _ \<Rightarrow> [])"

definition record_outcome ::
  "queue_env \<Rightarrow> int \<Rightarrow> finding list \<Rightarrow> (delivery_acknowledgement, 'e) result \<Rightarrow> sqlite_queue \<Rightarrow>
   (nat \<times> sqlite_queue, sqlite_code) result" where
  "record_outcome E now batch outcome q =
     rbind (settle E now (accepted_by (sq_limits q) outcome) batch 0 q) (\<lambda>(delivered, q1).
     rbind (count_rejections batch (rejected_by (sq_limits q) outcome) q1) (\<lambda>q2. Ok (delivered, q2)))"

definition deliver ::
  "queue_env \<Rightarrow> int \<Rightarrow> (finding list \<Rightarrow> (delivery_acknowledgement, 'e) result) \<Rightarrow> sqlite_queue \<Rightarrow>
   (nat, 'e delivery_error) result \<times> sqlite_queue" where
  "deliver E now send q =
     (case abind (prune (qe_fault E 0) now) (\<lambda>_. due_batch E now) q of
        (Err e, q1) \<Rightarrow> (Err (DE_Queue e), q1)
      | (Ok batch, q1) \<Rightarrow>
          if batch = [] then (Ok 0, q1)
          else
            let outcome = send batch in
            (case txn_try (qe_fault E 2) (record_outcome E now batch outcome) q1 of
               (Err e, q2) \<Rightarrow> (Err (DE_Queue e), q2)
             | (Ok delivered, q2) \<Rightarrow>
                 (case outcome of
                    Err error \<Rightarrow> (Err (DE_Transport error), q2)
                  | Ok ack \<Rightarrow>
                      if \<not> is_ok (acknowledgement_validate ack (sq_limits q1))
                      then (Err DE_InvalidAcknowledgement, q2)
                      else (Ok delivered, q2))))"

section \<open>Opening the queue\<close>

record queue_tables =
  qt_pending :: "pending_row list"
  qt_acknowledged :: "string \<Rightarrow> int option"
  qt_counters :: "(string, int) btree_map option"

definition QUEUE_APPLICATION_ID :: int where
  "QUEUE_APPLICATION_ID = 0x4F565131"

definition queue_schema_v1 :: "queue_tables option script" where
  "queue_schema_v1 d =
     (case db_content d of
        Some _ \<Rightarrow> Err OtherCode
      | None \<Rightarrow> Ok (d\<lparr>db_content := Some \<lparr>qt_pending = [], qt_acknowledged = Map.empty, qt_counters = None\<rparr>,
                      db_user_version := 1\<rparr>))"

definition queue_upgrade_v2 :: "queue_tables option script" where
  "queue_upgrade_v2 d =
     (case db_content d of
        None \<Rightarrow> Ok (d\<lparr>db_content := Some \<lparr>qt_pending = [], qt_acknowledged = Map.empty, qt_counters = Some []\<rparr>,
                      db_user_version := 2\<rparr>)
      | Some t \<Rightarrow>
          (case qt_counters t of
             Some _ \<Rightarrow> Err OtherCode
           | None \<Rightarrow> Ok (d\<lparr>db_content := Some (t\<lparr>qt_counters := Some []\<rparr>), db_user_version := 2\<rparr>)))"

definition queue_open ::
  "open_env \<Rightarrow> resource_limits \<Rightarrow> queue_tables option db \<Rightarrow>
   ((unit, storage_error) result \<times> queue_tables option db) option" where
  "queue_open E l d =
     (case queue_validate_limits l of
        Err e \<Rightarrow> Some (Err e, d)
      | Ok _ \<Rightarrow> open_database E QUEUE_APPLICATION_ID queue_schema_v1 [queue_upgrade_v2] d)"

text \<open>What the file holds, the counters left out: opening never loses a pending finding.\<close>

definition queued :: "queue_tables option \<Rightarrow> pending_row list \<times> (string \<Rightarrow> int option)" where
  "queued c = (case c of None \<Rightarrow> ([], Map.empty) | Some t \<Rightarrow> (qt_pending t, qt_acknowledged t))"

interpretation queue_migration: migration queue_schema_v1 "[queue_upgrade_v2]" "\<lambda>c. queued c = tables"
  by unfold_locales
    (auto simp: queue_schema_v1_def queue_upgrade_v2_def queued_def i64_max_def split: option.splits)

section \<open>The invariant\<close>

text \<open>Rows are in key order with distinct keys and identifiers, an acknowledged finding is not
  pending, and at most fifteen rejection reasons are named.\<close>

definition named_reasons :: "(string, int) btree_map \<Rightarrow> nat" where
  "named_reasons counters = length (filter (\<lambda>(name, _). like_rejected name \<and> name \<noteq> ''rejected:other'') counters)"

definition rows_inv :: "pending_row list \<Rightarrow> (string \<Rightarrow> int option) \<Rightarrow> bool" where
  "rows_inv rs ack \<longleftrightarrow>
     sorted_wrt (<) (map pr_seq rs) \<and> distinct (map pr_finding_id rs) \<and>
     list_all (\<lambda>r. ack (pr_finding_id r) = None \<and> 0 \<le> pr_attempts r) rs"

definition queue_inv :: "sqlite_queue \<Rightarrow> bool" where
  "queue_inv q \<longleftrightarrow> rows_inv (sq_pending q) (sq_acknowledged q) \<and> bt_invar (sq_counters q) \<and>
     named_reasons (sq_counters q) \<le> MAX_REJECTION_REASONS"

lemma rows_inv_filter:
  assumes "rows_inv rs ack" and "\<And>i. ack i = None \<Longrightarrow> i \<in> pr_finding_id ` set (filter P rs) \<Longrightarrow> ack' i = None"
  shows "rows_inv (filter P rs) ack'"
  using assms unfolding rows_inv_def
  by (auto simp: sorted_wrt_filter distinct_map_filter list_all_iff sorted_wrt_map)

lemma rows_inv_map:
  assumes "rows_inv rs ack"
    and "\<And>r. pr_seq (f r) = pr_seq r \<and> pr_finding_id (f r) = pr_finding_id r"
    and "\<And>r. 0 \<le> pr_attempts r \<Longrightarrow> 0 \<le> pr_attempts (f r)"
  shows "rows_inv (map f rs) ack"
  using assms by (auto simp: rows_inv_def list_all_iff comp_def)

lemma rows_inv_append:
  assumes "rows_inv rs ack" "ack (pr_finding_id r) = None" "pr_finding_id r \<notin> pr_finding_id ` set rs"
    "pr_seq r = next_seq rs" "0 \<le> pr_attempts r"
  shows "rows_inv (rs @ [r]) ack"
  using assms
  by (cases rs rule: rev_cases) (auto simp: rows_inv_def sorted_wrt_append next_seq_def)

lemma inv_pruned: "queue_inv q \<Longrightarrow> queue_inv (pruned now q)"
  by (auto simp: queue_inv_def pruned_def intro!: rows_inv_filter)

lemma named_reasons_insert:
  "bt_invar m \<Longrightarrow> named_reasons (bt_insert k v m) =
     (if bt_get m k = None \<and> like_rejected k \<and> k \<noteq> ''rejected:other'' then Suc (named_reasons m) else named_reasons m)"
  by (induction k v m rule: bt_insert.induct, auto simp: named_reasons_def bt_get_def bt_invar_def bt_keys_def)
    (fastforce dest: map_of_SomeD)+

lemma like_rejected_named [simp]: "like_rejected (''rejected:'' @ reason)" "\<not> like_rejected ''dropped''"
  by (simp_all add: like_rejected_def to_ascii_lowercase_def to_ascii_lower_def is_ascii_uppercase_def)

lemma bump_Ok:
  "bump name m = Ok m' \<Longrightarrow> \<exists>n. m' = bt_insert name n m \<and> n = (case bt_get m name of None \<Rightarrow> 1 | Some v \<Rightarrow> v + 1)"
  by (auto simp: bump_def rbind_Ok_iff sql_add_Ok split: option.splits)

lemma count_rejection_Ok:
  assumes "count_rejection reason q = Ok q'"
  shows "\<exists>m. q' = q\<lparr>sq_counters := m\<rparr> \<and> (queue_inv q \<longrightarrow> queue_inv q')"
proof -
  let ?key = "if bt_get (sq_counters q) (''rejected:'' @ reason) \<noteq> None \<or> named_reasons (sq_counters q) < MAX_REJECTION_REASONS
    then ''rejected:'' @ reason else ''rejected:other''"
  have "rbind (bump ?key (sq_counters q)) (\<lambda>counters. Ok (q\<lparr>sq_counters := counters\<rparr>)) = Ok q'"
    using assms by (simp only: count_rejection_def Let_def named_reasons_def)
  then obtain m where m: "bump ?key (sq_counters q) = Ok m" "q' = q\<lparr>sq_counters := m\<rparr>" by (auto simp: rbind_Ok_iff)
  from bump_Ok [OF m(1)] obtain n where n: "m = bt_insert ?key n (sq_counters q)" by blast
  have "queue_inv q'" if "queue_inv q"
    using that unfolding m(2) n queue_inv_def by (auto simp: bt.invar_update named_reasons_insert)
  then show ?thesis using m(2) by blast
qed

text \<open>The committed drop of one row.\<close>

definition dropped_total :: "sqlite_queue \<Rightarrow> int" where
  "dropped_total q = (case bt_get (sq_counters q) ''dropped'' of None \<Rightarrow> 0 | Some v \<Rightarrow> v)"

definition dropped_one :: "sqlite_queue \<Rightarrow> sqlite_queue" where
  "dropped_one q = q\<lparr>sq_pending := tl (sq_pending q),
     sq_counters := bt_insert ''dropped'' (dropped_total q + 1) (sq_counters q)\<rparr>"

lemma drop_oldest_cases:
  assumes "drop_oldest fault q = (r, q')"
  obtains (fault) e where "r = Err e" "q' = q" | (none) "r = Ok False" "q' = q" "sq_pending q = []"
  | (dropped) "r = Ok True" "sq_pending q \<noteq> []" "q' = dropped_one q"
proof -
  from assms [unfolded drop_oldest_def] show ?thesis
  proof (cases rule: txn_try_cases)
    case (commit a)
    then show ?thesis
    proof (cases "sq_pending q")
      case (Cons row rest)
      with commit obtain m where m: "bump ''dropped'' (sq_counters q) = Ok m" "a = True"
        "q' = q\<lparr>sq_pending := rest, sq_counters := m\<rparr>" by (auto simp: rbind_Ok_iff)
      have "m = bt_insert ''dropped'' (dropped_total q + 1) (sq_counters q)"
        using bump_Ok [OF m(1)] by (auto simp: dropped_total_def split: option.splits)
      then show ?thesis using that(3) commit(1) m Cons by (simp add: dropped_one_def)
    qed (use that(2) in simp)
  qed (use that(1) in simp)
qed

lemma dropped_one_simps [simp]:
  "sq_pending (dropped_one q) = tl (sq_pending q)" "sq_acknowledged (dropped_one q) = sq_acknowledged q"
  "sq_limits (dropped_one q) = sq_limits q"
  by (simp_all add: dropped_one_def)

lemma inv_dropped_one: "queue_inv q \<Longrightarrow> queue_inv (dropped_one q)"
  by (cases "sq_pending q") (auto simp: dropped_one_def queue_inv_def rows_inv_def bt.invar_update named_reasons_insert)

lemma dropped_total_one: "queue_inv q \<Longrightarrow> dropped_total (dropped_one q) = dropped_total q + 1"
  by (simp add: dropped_total_def dropped_one_def queue_inv_def bt.lookup_update)

lemma drops:
  "queue_inv q \<Longrightarrow> queue_inv ((dropped_one ^^ k) q) \<and> sq_pending ((dropped_one ^^ k) q) = drop k (sq_pending q) \<and>
   sq_acknowledged ((dropped_one ^^ k) q) = sq_acknowledged q \<and> dropped_total ((dropped_one ^^ k) q) = dropped_total q + int k"
  by (induction k) (simp_all add: inv_dropped_one dropped_total_one tl_drop drop_Suc)

text \<open>The loop drops rows exactly while the new row does not fit.\<close>

definition row_full :: "queue_env \<Rightarrow> string \<Rightarrow> string \<Rightarrow> int \<Rightarrow> sqlite_queue \<Rightarrow> bool" where
  "row_full E fid body now q \<longleftrightarrow> qe_full E q (new_row fid body now q)"

lemma enqueue_loop_spec:
  "enqueue_loop E n fid body now q = (r, q') \<Longrightarrow>
   \<exists>k. k \<le> length (sq_pending q) \<and> (\<forall>i<k. row_full E fid body now ((dropped_one ^^ i) q)) \<and>
     (case r of
        Ok True \<Rightarrow> \<not> row_full E fid body now ((dropped_one ^^ k) q) \<and> sq_acknowledged q fid = None \<and>
          fid \<notin> pr_finding_id ` set (sq_pending q) \<and>
          q' = ((dropped_one ^^ k) q)\<lparr>sq_pending := sq_pending ((dropped_one ^^ k) q) @ [new_row fid body now ((dropped_one ^^ k) q)]\<rparr>
      | Ok False \<Rightarrow> q' = q \<and> k = 0 \<and> (sq_acknowledged q fid \<noteq> None \<or> fid \<in> pr_finding_id ` set (sq_pending q))
      | Err _ \<Rightarrow> q' = (dropped_one ^^ k) q)"
proof (induction E n fid body now q rule: enqueue_loop.induct)
  case (1 E n fid body now q)
  let ?new = "sq_acknowledged q fid = None \<and> fid \<notin> pr_finding_id ` set (sq_pending q)"
  show ?case
  proof (cases "qe_fault E n = None \<and> ?new \<and> row_full E fid body now q")
    case False
    then show ?thesis using "1.prems"
      by (subst (asm) enqueue_loop.simps, intro exI [of _ 0])
        (auto simp: list_ex_iff row_full_def split: option.splits if_splits)
  next
    case True
    obtain d q1 where d: "drop_oldest (qe_fault E (n + 1)) q = (d, q1)" by (meson surj_pair)
    have loop: "enqueue_loop E n fid body now q =
        (case d of Err e \<Rightarrow> (Err e, q1) | Ok False \<Rightarrow> (Err SE_Full, q1) | Ok True \<Rightarrow> enqueue_loop E (n + 2) fid body now q1)"
      using True d by (subst enqueue_loop.simps) (auto simp: list_ex_iff row_full_def split: result.splits bool.splits)
    from d show ?thesis
    proof (cases rule: drop_oldest_cases)
      case dropped
      have run: "enqueue_loop E (n + 2) fid body now q1 = (r, q')" using "1.prems" loop dropped(1) by simp
      have new1: "sq_acknowledged q1 fid = None \<and> fid \<notin> pr_finding_id ` set (sq_pending q1)"
        using True dropped(2,3) by (cases "sq_pending q") auto
      have "\<not> list_ex (\<lambda>r. pr_finding_id r = fid) (sq_pending q)" using True by (auto simp: list_ex_iff)
      then obtain k where k: "k \<le> length (sq_pending q1)" "\<forall>i<k. row_full E fid body now ((dropped_one ^^ i) q1)"
        and r: "case r of
          Ok True \<Rightarrow> \<not> row_full E fid body now ((dropped_one ^^ k) q1) \<and> sq_acknowledged q1 fid = None \<and>
            fid \<notin> pr_finding_id ` set (sq_pending q1) \<and>
            q' = ((dropped_one ^^ k) q1)\<lparr>sq_pending := sq_pending ((dropped_one ^^ k) q1) @ [new_row fid body now ((dropped_one ^^ k) q1)]\<rparr>
        | Ok False \<Rightarrow> q' = q1 \<and> k = 0 \<and> (sq_acknowledged q1 fid \<noteq> None \<or> fid \<in> pr_finding_id ` set (sq_pending q1))
        | Err _ \<Rightarrow> q' = (dropped_one ^^ k) q1"
        using "1.IH" [of "Ok True" q1 True] True d dropped(1) run by (auto simp: row_full_def)
      have step: "(dropped_one ^^ i) q1 = (dropped_one ^^ Suc i) q" for i using dropped(3) by (simp add: funpow_swap1)
      have "\<forall>i < Suc k. row_full E fid body now ((dropped_one ^^ i) q)"
        using k(2) True unfolding step by (auto simp: less_Suc_eq_0_disj)
      then show ?thesis using k(1) r new1 True dropped(2) unfolding step [of k]
        by (intro exI [of _ "Suc k"]) (cases "sq_pending q"; auto simp: dropped(3) split: result.splits bool.splits)
    qed (use "1.prems" loop in \<open>auto intro: exI [of _ 0]\<close>)
  qed
qed

lemma inv_enqueue_loop: "queue_inv q \<Longrightarrow> enqueue_loop E n fid body now q = (r, q') \<Longrightarrow> queue_inv q'"
proof -
  assume q: "queue_inv q" and run: "enqueue_loop E n fid body now q = (r, q')"
  from enqueue_loop_spec [OF run] obtain k where k: "q' = q \<or> q' = (dropped_one ^^ k) q \<or>
      sq_acknowledged q fid = None \<and> fid \<notin> pr_finding_id ` set (sq_pending q) \<and>
      q' = ((dropped_one ^^ k) q)\<lparr>sq_pending := sq_pending ((dropped_one ^^ k) q) @ [new_row fid body now ((dropped_one ^^ k) q)]\<rparr>"
    by (elim exE conjE) (cases r, rename_tac k b, case_tac b, auto)
  note d = drops [OF q, of k]
  have "fid \<notin> pr_finding_id ` set (drop k (sq_pending q))" if "fid \<notin> pr_finding_id ` set (sq_pending q)"
    using that by (auto dest: in_set_dropD)
  then show ?thesis using k d q by (elim disjE conjE) (simp_all add: queue_inv_def new_row_def rows_inv_append)
qed

lemma inv_enqueue: "queue_inv q \<Longrightarrow> enqueue E f now q = (r, q') \<Longrightarrow> queue_inv q'"
  using inv_pruned [of q now] inv_enqueue_loop
  by (auto simp: enqueue_def abind_def prune_def txn_def split: if_splits option.splits prod.splits result.splits)

section \<open>Delivery, row by row\<close>

text \<open>What identifies a row through a delivery: everything except its retry schedule.\<close>

definition row_key :: "pending_row \<Rightarrow> int \<times> string \<times> string \<times> int" where
  "row_key r = (pr_seq r, pr_finding_id r, pr_body r, pr_enqueued_at_ms r)"

definition rows :: "sqlite_queue \<Rightarrow> (int \<times> string \<times> string \<times> int) list" where
  "rows q = map row_key (sq_pending q)"

definition settled :: "ident list \<Rightarrow> finding list \<Rightarrow> string set" where
  "settled accepted fs = {as_str (fd_finding_id f) | f. f \<in> set fs \<and> fd_finding_id f \<in> set accepted}"

lemma row_key_update [simp]: "row_key (r\<lparr>pr_attempts := a, pr_next_attempt_ms := n\<rparr>) = row_key r"
  by (simp add: row_key_def)

lemma reschedule_row_Ok:
  "reschedule_row E l now fid r = Ok r' \<Longrightarrow> row_key r' = row_key r \<and> (0 \<le> pr_attempts r \<longrightarrow> 0 \<le> pr_attempts r')"
  by (auto simp: reschedule_row_def rbind_Ok_iff sql_add_Ok split: if_splits)

lemma reschedule_Ok:
  assumes "reschedule E now fid q = Ok q'"
  shows "rows q' = rows q \<and> sq_acknowledged q' = sq_acknowledged q \<and> sq_counters q' = sq_counters q \<and>
    sq_limits q' = sq_limits q \<and> (queue_inv q \<longrightarrow> queue_inv q')"
proof -
  from assms obtain rs where rs: "list_all2 (\<lambda>r r'. reschedule_row E (sq_limits q) now fid r = Ok r') (sq_pending q) rs"
      "q' = q\<lparr>sq_pending := rs\<rparr>"
    by (auto simp: reschedule_def rbind_Ok_iff rmap_Ok_iff)
  from rs(1) have keys: "map row_key rs = map row_key (sq_pending q)"
    by (induction rule: list_all2_induct) (auto dest: reschedule_row_Ok)
  from rs(1) have attempts: "list_all (\<lambda>r. 0 \<le> pr_attempts r) (sq_pending q) \<Longrightarrow> list_all (\<lambda>r. 0 \<le> pr_attempts r) rs"
    by (induction rule: list_all2_induct) (auto dest: reschedule_row_Ok)
  have fst: "map pr_seq xs = map (\<lambda>(s, i, b, e). s) (map row_key xs)"
    "map pr_finding_id xs = map (\<lambda>(s, i, b, e). i) (map row_key xs)" for xs by (simp_all add: row_key_def)
  have same: "map pr_seq rs = map pr_seq (sq_pending q)" "map pr_finding_id rs = map pr_finding_id (sq_pending q)"
    unfolding fst keys by simp_all
  have split: "rows_inv xs ack \<longleftrightarrow> sorted_wrt (<) (map pr_seq xs) \<and> distinct (map pr_finding_id xs) \<and>
      list_all (\<lambda>i. ack i = None) (map pr_finding_id xs) \<and> list_all (\<lambda>r. 0 \<le> pr_attempts r) xs" for xs ack
    by (auto simp: rows_inv_def list_all_iff)
  have "rows_inv rs ack" if "rows_inv (sq_pending q) ack" for ack
    using that same attempts unfolding split by simp
  then show ?thesis using rs(2) keys by (simp add: rows_def queue_inv_def)
qed

lemma rows_acknowledge: "rows (acknowledge now fid q) = filter (\<lambda>(s, i, b, e). i \<noteq> fid) (rows q)"
  by (simp add: rows_def acknowledge_def filter_map comp_def row_key_def)

lemma kept_fields [simp]:
  "sq_acknowledged (acknowledge now fid q) = (sq_acknowledged q)(fid \<mapsto> now)"
  "sq_counters (acknowledge now fid q) = sq_counters q"
  "sq_limits (acknowledge now fid q) = sq_limits q"
  by (simp_all add: acknowledge_def)

lemma inv_acknowledge: "queue_inv q \<Longrightarrow> queue_inv (acknowledge now fid q)"
  by (auto simp: queue_inv_def acknowledge_def intro!: rows_inv_filter)

lemma settle_spec:
  "settle E now accepted fs n q = Ok (m, q') \<Longrightarrow>
   rows q' = filter (\<lambda>(s, i, b, e). i \<notin> settled accepted fs) (rows q) \<and>
   sq_acknowledged q' = (\<lambda>i. if i \<in> settled accepted fs then Some now else sq_acknowledged q i) \<and>
   sq_counters q' = sq_counters q \<and> sq_limits q' = sq_limits q \<and>
   m = n + length (filter (\<lambda>f. fd_finding_id f \<in> set accepted) fs) \<and> (queue_inv q \<longrightarrow> queue_inv q')"
proof (induction fs arbitrary: n q)
  case Nil
  then show ?case by (simp add: settled_def)
next
  case (Cons f fs)
  let ?id = "as_str (fd_finding_id f)"
  show ?case
  proof (cases "fd_finding_id f \<in> set accepted")
    case True
    have more: "settled accepted (f # fs) = insert ?id (settled accepted fs)" using True by (auto simp: settled_def)
    have "settle E now accepted fs (n + 1) (acknowledge now ?id q) = Ok (m, q')" using Cons.prems True by simp
    from Cons.IH [OF this] show ?thesis
      by (auto simp: more True rows_acknowledge inv_acknowledge conj_commute split_def)
  next
    case False
    have same: "settled accepted (f # fs) = settled accepted fs" using False by (auto simp: settled_def)
    obtain q1 where q1: "reschedule E now ?id q = Ok q1" "settle E now accepted fs n q1 = Ok (m, q')"
      using Cons.prems False by (auto simp: rbind_Ok_iff)
    from Cons.IH [OF q1(2)] reschedule_Ok [OF q1(1)] show ?thesis by (simp add: same False cong: if_cong)
  qed
qed

lemma count_rejections_spec:
  "count_rejections batch rejected q = Ok q' \<Longrightarrow>
   sq_pending q' = sq_pending q \<and> sq_acknowledged q' = sq_acknowledged q \<and> (queue_inv q \<longrightarrow> queue_inv q')"
proof (induction rejected arbitrary: q)
  case (Cons refused rejected)
  show ?case
  proof (cases "rj_finding_id refused \<in> fd_finding_id ` set batch")
    case True
    then obtain q1 where q1: "count_rejection (as_str (rj_reason refused)) q = Ok q1" "count_rejections batch rejected q1 = Ok q'"
      using Cons.prems by (auto simp: rbind_Ok_iff)
    from count_rejection_Ok [OF q1(1)] Cons.IH [OF q1(2)] show ?thesis by auto
  qed (use Cons in simp)
qed simp

lemma record_outcome_spec:
  assumes "record_outcome E now batch outcome q = Ok (m, q')"
  shows "rows q' = filter (\<lambda>(s, i, b, e). i \<notin> settled (accepted_by (sq_limits q) outcome) batch) (rows q) \<and>
    sq_acknowledged q' = (\<lambda>i. if i \<in> settled (accepted_by (sq_limits q) outcome) batch then Some now
      else sq_acknowledged q i) \<and>
    m = length (filter (\<lambda>f. fd_finding_id f \<in> set (accepted_by (sq_limits q) outcome)) batch) \<and>
    (queue_inv q \<longrightarrow> queue_inv q')"
proof -
  obtain q1 where s: "settle E now (accepted_by (sq_limits q) outcome) batch 0 q = Ok (m, q1)"
      "count_rejections batch (rejected_by (sq_limits q) outcome) q1 = Ok q'"
    using assms by (auto simp: record_outcome_def rbind_Ok_iff)
  then show ?thesis using settle_spec [OF s(1)] count_rejections_spec [OF s(2)] by (simp add: rows_def)
qed

lemma delete_invalid_spec:
  "delete_invalid E n seqs q = (r, q') \<Longrightarrow>
   \<exists>S. S \<subseteq> set seqs \<and> q' = q\<lparr>sq_pending := filter (\<lambda>r. pr_seq r \<notin> S) (sq_pending q)\<rparr>"
proof (induction seqs arbitrary: n q)
  case Nil
  then show ?case by (intro exI [of _ "{}"]) simp
next
  case (Cons x seqs)
  show ?case
  proof (cases "qe_fault E n")
    case (Some c)
    then show ?thesis using Cons.prems by (intro exI [of _ "{}"]) (simp add: txn_def abind_def)
  next
    case None
    let ?q = "q\<lparr>sq_pending := filter (\<lambda>r. pr_seq r \<noteq> x) (sq_pending q)\<rparr>"
    have "delete_invalid E (n + 1) seqs ?q = (r, q')" using Cons.prems None by (simp add: txn_def abind_def)
    from Cons.IH [OF this] obtain S where "S \<subseteq> set seqs"
      "q' = ?q\<lparr>sq_pending := filter (\<lambda>r. pr_seq r \<notin> S) (sq_pending ?q)\<rparr>" by blast
    then show ?thesis by (intro exI [of _ "insert x S"]) (auto intro: filter_cong)
  qed
qed

text \<open>The rows a batch is made of: the oldest usable ones, as far as the byte budget goes.\<close>

lemma batch_loop_spec:
  "batch_loop E l budget rs batch bytes invalid = (batch', invalid') \<Longrightarrow>
   set invalid' \<subseteq> set invalid \<union> {pr_seq r | r. r \<in> set rs \<and> row_finding E l r = None} \<and>
   (\<exists>sel. prefix sel (filter (\<lambda>r. row_finding E l r \<noteq> None) rs) \<and>
     batch' = batch @ map (\<lambda>r. the (row_finding E l r)) sel \<and>
     (sel = [] \<or> batch = [] \<and> length sel = 1 \<or> bytes + sum_list (map (\<lambda>r. length (pr_body r) + 1) sel) \<le> budget))"
proof (induction rs arbitrary: batch bytes invalid)
  case Nil
  then show ?case by simp
next
  case (Cons r rs)
  show ?case
  proof (cases "row_finding E l r")
    case None
    then have "batch_loop E l budget rs batch bytes (invalid @ [pr_seq r]) = (batch', invalid')"
      using Cons.prems by simp
    from Cons.IH [OF this] None show ?thesis by auto
  next
    case (Some f)
    show ?thesis
    proof (cases "batch \<noteq> [] \<and> bytes + length (pr_body r) + 1 > budget")
      case True
      then show ?thesis using Cons.prems Some by auto
    next
      case False
      then have "batch_loop E l budget rs (batch @ [f]) (bytes + length (pr_body r) + 1) invalid = (batch', invalid')"
        using Cons.prems Some by auto
      from Cons.IH [OF this] obtain sel where
        inv: "set invalid' \<subseteq> set invalid \<union> {pr_seq r | r. r \<in> set rs \<and> row_finding E l r = None}"
        and sel: "prefix sel (filter (\<lambda>r. row_finding E l r \<noteq> None) rs)"
        "batch' = (batch @ [f]) @ map (\<lambda>r. the (row_finding E l r)) sel"
        "sel = [] \<or> bytes + length (pr_body r) + 1 + sum_list (map (\<lambda>r. length (pr_body r) + 1) sel) \<le> budget"
        by (elim conjE exE) auto
      have "prefix (r # sel) (filter (\<lambda>r. row_finding E l r \<noteq> None) (r # rs))" using sel(1) Some by simp
      moreover have "batch' = batch @ map (\<lambda>r. the (row_finding E l r)) (r # sel)" using sel(2) Some by simp
      moreover have "batch = [] \<and> length (r # sel) = 1 \<or>
          bytes + sum_list (map (\<lambda>r. length (pr_body r) + 1) (r # sel)) \<le> budget"
        using sel(3) False by auto
      moreover have "set invalid' \<subseteq> set invalid \<union> {pr_seq x | x. x \<in> set (r # rs) \<and> row_finding E l x = None}"
        using inv by auto
      ultimately show ?thesis by (intro conjI exI [of _ "r # sel"]) simp_all
    qed
  qed
qed

lemma due_batch_spec:
  assumes "due_batch E now q = (r, q')"
  shows "(\<exists>S. S \<subseteq> {pr_seq x | x. x \<in> set (due_rows now q) \<and> row_finding E (sq_limits q) x = None} \<and>
      q' = q\<lparr>sq_pending := filter (\<lambda>r. pr_seq r \<notin> S) (sq_pending q)\<rparr>) \<and>
    (\<forall>batch. r = Ok batch \<longrightarrow> (\<exists>sel.
      prefix sel (filter (\<lambda>r. row_finding E (sq_limits q) r \<noteq> None) (due_rows now q)) \<and>
      batch = map (\<lambda>r. the (row_finding E (sq_limits q) r)) sel \<and>
      (length sel \<le> 1 \<or>
       sum_list (map (\<lambda>r. length (pr_body r) + 1) sel) \<le> document_bytes (sq_limits q) - BATCH_WRAPPER_BYTES)))"
proof (cases "qe_fault E 1")
  case (Some c)
  then have "q' = q" "\<And>batch. r \<noteq> Ok batch" using assms by (auto simp: due_batch_def)
  then show ?thesis by (intro conjI exI [of _ "{}"]) simp_all
next
  case None
  let ?budget = "document_bytes (sq_limits q) - BATCH_WRAPPER_BYTES"
  obtain b inv where b: "batch_loop E (sq_limits q) ?budget (due_rows now q) [] 0 [] = (b, inv)" by (meson surj_pair)
  obtain d q1 where d: "delete_invalid E 3 inv q = (d, q1)" by (meson surj_pair)
  have q1: "q' = q1" and r: "r = Ok batch \<Longrightarrow> batch = b" for batch
    using assms None b d by (cases d; simp add: due_batch_def abind_def)+
  from batch_loop_spec [OF b] obtain sel where inv: "set inv \<subseteq> {pr_seq x | x. x \<in> set (due_rows now q) \<and> row_finding E (sq_limits q) x = None}"
    and sel: "prefix sel (filter (\<lambda>r. row_finding E (sq_limits q) r \<noteq> None) (due_rows now q))"
    "b = map (\<lambda>r. the (row_finding E (sq_limits q) r)) sel"
    "length sel \<le> 1 \<or> sum_list (map (\<lambda>r. length (pr_body r) + 1) sel) \<le> ?budget"
    by (elim conjE exE) (auto simp: le_Suc_eq)
  from delete_invalid_spec [OF d] obtain S where S: "S \<subseteq> set inv"
    "q1 = q\<lparr>sq_pending := filter (\<lambda>r. pr_seq r \<notin> S) (sq_pending q)\<rparr>" by (elim conjE exE)
  show ?thesis
  proof (intro conjI allI impI)
    show "\<exists>S. S \<subseteq> {pr_seq x | x. x \<in> set (due_rows now q) \<and> row_finding E (sq_limits q) x = None} \<and>
      q' = q\<lparr>sq_pending := filter (\<lambda>r. pr_seq r \<notin> S) (sq_pending q)\<rparr>"
      using S q1 subset_trans [OF S(1) inv] by (intro exI [of _ S] conjI) simp_all
  next
    fix batch assume "r = Ok batch"
    then show "\<exists>sel.
      prefix sel (filter (\<lambda>r. row_finding E (sq_limits q) r \<noteq> None) (due_rows now q)) \<and>
      batch = map (\<lambda>r. the (row_finding E (sq_limits q) r)) sel \<and>
      (length sel \<le> 1 \<or> sum_list (map (\<lambda>r. length (pr_body r) + 1) sel) \<le> ?budget)"
      using sel r by (intro exI [of _ sel] conjI) simp_all
  qed
qed

text \<open>One delivery as its stages: pruning, the batch, and the record of its outcome.\<close>

lemma deliver_stages:
  assumes "deliver E now send q = (r, q')"
  shows "\<exists>q0 q1. (q0 = q \<or> q0 = pruned now q) \<and> (q1 = q0 \<or> (\<exists>d. due_batch E now q0 = (d, q1))) \<and>
    (q' = q1 \<or> (\<exists>batch m. due_batch E now q0 = (Ok batch, q1) \<and> batch \<noteq> [] \<and>
       record_outcome E now batch (send batch) q1 = Ok (m, q') \<and> (\<forall>n. r = Ok n \<longrightarrow> n = m)))"
proof (cases "qe_fault E 0")
  case (Some c)
  then show ?thesis using assms by (auto simp: deliver_def abind_def prune_def txn_def)
next
  case None
  obtain d q1 where d: "due_batch E now (pruned now q) = (d, q1)" by (meson surj_pair)
  show ?thesis
  proof (cases d)
    case (Err e)
    then show ?thesis using assms None d by (auto simp: deliver_def abind_def prune_def txn_def)
  next
    case (Ok batch)
    have "q' = q1 \<or> batch \<noteq> [] \<and> (\<exists>m. record_outcome E now batch (send batch) q1 = Ok (m, q') \<and> (\<forall>n. r = Ok n \<longrightarrow> n = m))"
    proof (cases "batch = []")
      case True
      then show ?thesis using assms None d Ok by (auto simp: deliver_def abind_def prune_def txn_def Let_def)
    next
      case False
      obtain s q2 where s: "txn_try (qe_fault E 2) (record_outcome E now batch (send batch)) q1 = (s, q2)" by (meson surj_pair)
      then have q2: "q' = q2" "\<And>n. r = Ok n \<Longrightarrow> s = Ok n"
        using assms None d Ok False
        by (auto simp: deliver_def abind_def prune_def txn_def Let_def split: result.splits if_splits)
      from s show ?thesis by (cases rule: txn_try_cases) (use False q2 in auto)
    qed
    then show ?thesis using d Ok by (intro exI [of _ "pruned now q"] exI [of _ q1]) auto
  qed
qed

section \<open>Runs of the queue\<close>

lemma seq_unique: "queue_inv q \<Longrightarrow> inj_on pr_seq (set (sq_pending q))"
  by (simp add: queue_inv_def rows_inv_def strict_sorted_iff distinct_map)

lemma pruned_simps [simp]:
  "sq_limits (pruned now q) = sq_limits q" "sq_counters (pruned now q) = sq_counters q"
  "set (sq_pending (pruned now q)) = {r \<in> set (sq_pending q). \<not> pr_enqueued_at_ms r < cutoff_ms now q}"
  by (auto simp: pruned_def)

lemma inv_deleted:
  "queue_inv q \<Longrightarrow> queue_inv (q\<lparr>sq_pending := filter P (sq_pending q)\<rparr>)"
  by (auto simp: queue_inv_def intro!: rows_inv_filter)

lemma inv_deliver:
  assumes "queue_inv q" "deliver E now send q = (r, q')"
  shows "queue_inv q'"
proof -
  from deliver_stages [OF assms(2)] obtain q0 q1 where q0: "q0 = q \<or> q0 = pruned now q"
    and q1: "q1 = q0 \<or> (\<exists>d. due_batch E now q0 = (d, q1))"
    and q': "q' = q1 \<or> (\<exists>batch m. record_outcome E now batch (send batch) q1 = Ok (m, q'))" by blast
  have "queue_inv q0" using q0 assms(1) inv_pruned by blast
  then have "queue_inv q1" using q1 due_batch_spec [of E now q0 _ q1] inv_deleted by (elim disjE exE conjE) auto
  then show ?thesis using q' record_outcome_spec by blast
qed

text \<open>One step of the queue's life: an operation with whatever SQLite, the platform and the clock do,
  or a restart with other limits.\<close>

inductive queue_step :: "sqlite_queue \<Rightarrow> sqlite_queue \<Rightarrow> bool" where
  step_enqueue: "enqueue E f now q = (r, q') \<Longrightarrow> queue_step q q'"
| step_deliver: "deliver E now (send :: finding list \<Rightarrow> (delivery_acknowledgement, string) result) q = (r, q') \<Longrightarrow>
    queue_step q q'"
| step_skew: "queue_step q (set_clock_skew skew q)"
| step_limits: "queue_validate_limits l = Ok () \<Longrightarrow> queue_step q (q\<lparr>sq_limits := l, sq_clock_skew_ms := 0\<rparr>)"

interpretation queue: stepping queue_step queue_inv
proof
  fix q q' :: sqlite_queue
  assume "queue_step q q'" and inv: "queue_inv q"
  then show "queue_inv q'"
  proof (cases rule: queue_step.cases)
    case (step_enqueue E f now r)
    then show ?thesis using inv inv_enqueue by blast
  next
    case (step_deliver E now send r)
    then show ?thesis using inv inv_deliver by blast
  qed (use inv in \<open>auto simp: queue_inv_def set_clock_skew_def\<close>)
qed

lemma sql_rem_bounds: "0 < k \<Longrightarrow> 0 \<le> \<bar>sql_rem a k\<bar> \<and> \<bar>sql_rem a k\<bar> < k"
  by (auto simp: sql_rem_def abs_mult sgn_if)

lemma sql_div_half: "0 \<le> d \<Longrightarrow> sql_div d 2 = d div 2"
  by (auto simp: sql_div_def sgn_if)

lemma seconds_ms_V1: "n \<le> 3600 \<Longrightarrow> seconds_ms n = int n * 1000"
  by (simp add: seconds_ms_def Let_def u64_max_def i64_max_def)

lemma retry_delay_exact:
  assumes "queue_validate_limits l = Ok ()" "0 \<le> attempts"
  shows "retry_delay l attempts =
    min (int (retry_max_seconds l) * 1000) (int (retry_initial_seconds l) * 1000 * 2 ^ nat (min attempts 20))"
proof -
  let ?n = "nat (min attempts 20)"
  have l: "retry_initial_seconds l \<le> 3600" "retry_max_seconds l \<le> 3600"
    using assms(1) by (auto simp: queue_validate_limits_def split: if_splits)
  have p: "(2::int) ^ ?n \<le> 2 ^ 20" by (rule power_increasing) auto
  have "int (retry_initial_seconds l) * 1000 * 2 ^ ?n \<le> 3600000 * 2 ^ 20"
    using l p by (intro mult_mono) auto
  then have "sql_wrap (int (retry_initial_seconds l) * 1000 * 2 ^ ?n) = int (retry_initial_seconds l) * 1000 * 2 ^ ?n"
    by (simp add: sql_wrap_def)
  then show ?thesis using l assms(2) by (simp add: retry_delay_def sql_shl_def seconds_ms_V1)
qed

lemma delete_invalid_works: "(\<And>n. qe_fault E n = None) \<Longrightarrow> \<exists>q'. delete_invalid E n seqs q = (Ok (), q')"
  by (induction seqs arbitrary: n q) (auto simp: abind_def txn_def)

lemma batch_loop_nonempty:
  "batch \<noteq> [] \<or> filter (\<lambda>r. row_finding E l r \<noteq> None) rs \<noteq> [] \<Longrightarrow>
   fst (batch_loop E l budget rs batch bytes invalid) \<noteq> []"
  by (induction rs arbitrary: batch bytes invalid) (auto split: option.splits if_splits)

lemma due_batch_works:
  assumes "\<And>n. qe_fault E n = None" "filter (\<lambda>r. row_finding E (sq_limits q) r \<noteq> None) (due_rows now q) \<noteq> []"
  shows "\<exists>batch q'. due_batch E now q = (Ok batch, q') \<and> batch \<noteq> []"
proof -
  obtain b inv where b: "batch_loop E (sq_limits q) (document_bytes (sq_limits q) - BATCH_WRAPPER_BYTES)
      (due_rows now q) [] 0 [] = (b, inv)" by (meson surj_pair)
  have "b \<noteq> []" using batch_loop_nonempty [of "[]" E "sq_limits q" "due_rows now q"] assms(2) b by (metis fst_conv)
  moreover obtain q' where "delete_invalid E 3 inv q = (Ok (), q')" using delete_invalid_works [OF assms(1)] by blast
  ultimately show ?thesis using b assms(1) by (simp add: due_batch_def abind_def)
qed

lemma batch_rows:
  assumes "due_batch E now q = (Ok batch, q')" and "queue_inv q"
  shows "length batch \<le> delivery_batch_items (sq_limits q) \<and>
    (\<forall>f \<in> set batch. \<exists>r \<in> set (sq_pending q'). pr_finding_id r = as_str (fd_finding_id f))"
proof -
  let ?l = "sq_limits q"
  from due_batch_spec [OF assms(1)] obtain S sel where
    S: "S \<subseteq> {pr_seq x | x. x \<in> set (due_rows now q) \<and> row_finding E ?l x = None}"
    and q': "q' = q\<lparr>sq_pending := filter (\<lambda>r. pr_seq r \<notin> S) (sq_pending q)\<rparr>"
    and sel: "prefix sel (filter (\<lambda>r. row_finding E ?l r \<noteq> None) (due_rows now q))"
    and batch: "batch = map (\<lambda>r. the (row_finding E ?l r)) sel" by (elim conjE exE allE [of _ batch]) auto
  have due: "set (due_rows now q) \<subseteq> set (sq_pending q)"
    using set_take_subset by (fastforce simp: due_rows_def)
  have "length sel \<le> length (due_rows now q)" using prefix_length_le [OF sel] length_filter_le le_trans by blast
  also have "\<dots> \<le> delivery_batch_items ?l" by (simp add: due_rows_def)
  finally have "length batch \<le> delivery_batch_items ?l" using batch by simp
  moreover have "\<exists>r \<in> set (sq_pending q'). pr_finding_id r = as_str (fd_finding_id f)" if f: "f \<in> set batch" for f
  proof -
    from f batch obtain r where r: "r \<in> set sel" "f = the (row_finding E ?l r)" by auto
    from r(1) set_mono_prefix [OF sel] have row: "r \<in> set (due_rows now q)" "row_finding E ?l r = Some f"
      using r(2) by auto
    have "pr_seq r \<notin> S"
    proof
      assume "pr_seq r \<in> S"
      then obtain x where "x \<in> set (due_rows now q)" "row_finding E ?l x = None" "pr_seq x = pr_seq r" using S by auto
      then have "x = r" using inj_onD [OF seq_unique [OF assms(2)], of x r] subsetD [OF due] row(1) by blast
      then show False using \<open>row_finding E ?l x = None\<close> row(2) by simp
    qed
    then have "r \<in> set (sq_pending q')" using row(1) due q' by auto
    moreover have "pr_finding_id r = as_str (fd_finding_id f)"
      using row(2) by (auto simp: row_finding_def split: if_splits option.splits)
    ultimately show ?thesis by blast
  qed
  ultimately show ?thesis by blast
qed

definition counters_room :: "nat \<Rightarrow> (string, int) btree_map \<Rightarrow> bool" where
  "counters_room n m \<longleftrightarrow> int n \<le> i64_max \<and> list_all (\<lambda>(_, v). 0 \<le> v \<and> v + int n \<le> i64_max) m"

lemma bump_works: "counters_room (Suc n) m \<Longrightarrow> \<exists>m'. bump name m = Ok m' \<and> counters_room n m'"
proof -
  assume room: "counters_room (Suc n) m"
  let ?v = "case bt_get m name of None \<Rightarrow> 1 | Some v \<Rightarrow> v + 1"
  have v: "0 \<le> ?v" "?v + int n \<le> i64_max"
    using room by (auto simp: counters_room_def list_all_iff split: option.splits dest!: bt_get_in_set)
  have "bump name m = Ok (bt_insert name ?v m)"
    using v by (auto simp: bump_def sql_add_def i64_min_def split: option.splits)
  moreover have "counters_room n (bt_insert name ?v m)"
    using room v set_bt_insert [of name ?v m] by (fastforce simp: counters_room_def list_all_iff)
  ultimately show ?thesis by blast
qed

lemma count_rejections_works:
  "counters_room (length rejected) (sq_counters q) \<Longrightarrow> \<exists>q'. count_rejections batch rejected q = Ok q'"
proof (induction rejected arbitrary: q)
  case (Cons refused rejected)
  have less: "counters_room (length rejected) (sq_counters q)"
    using Cons.prems by (auto simp: counters_room_def list_all_iff)
  show ?case
  proof (cases "rj_finding_id refused \<in> fd_finding_id ` set batch")
    case True
    have "\<exists>q1. rbind (bump key (sq_counters q)) (\<lambda>counters. Ok (q\<lparr>sq_counters := counters\<rparr>)) = Ok q1 \<and>
        counters_room (length rejected) (sq_counters q1)" for key
      using bump_works [of "length rejected" "sq_counters q" key] Cons.prems by auto
    then have "\<exists>q1. count_rejection reason q = Ok q1 \<and> counters_room (length rejected) (sq_counters q1)" for reason
      by (simp only: count_rejection_def Let_def)
    then obtain q1 where q1: "count_rejection (as_str (rj_reason refused)) q = Ok q1"
      "counters_room (length rejected) (sq_counters q1)" by blast
    then show ?thesis using Cons.IH [OF q1(2)] True by simp
  qed (use Cons.IH [OF less] in simp)
qed simp

lemma settle_works:
  "fd_finding_id ` set fs \<subseteq> set accepted \<Longrightarrow> \<exists>q'. settle E now accepted fs n q = Ok (n + length fs, q')"
  by (induction fs arbitrary: n q) (auto, metis add_Suc)

lemma record_outcome_works:
  assumes "send batch = Ok ack" "is_ok (acknowledgement_validate ack (sq_limits q))"
    and "fd_finding_id ` set batch \<subseteq> set (ack_accepted_finding_ids ack)"
    and "counters_room (delivery_batch_items (sq_limits q)) (sq_counters q)"
  shows "\<exists>q'. record_outcome E now batch (send batch) q = Ok (length batch, q')"
proof -
  have outc: "accepted_by (sq_limits q) (send batch) = ack_accepted_finding_ids ack"
    "rejected_by (sq_limits q) (send batch) = ack_rejected_findings ack"
    using assms(1,2) by (simp_all add: accepted_by_def rejected_by_def)
  obtain q1 where q1: "settle E now (ack_accepted_finding_ids ack) batch 0 q = Ok (length batch, q1)"
    using settle_works [OF assms(3), of E now 0 q] by auto
  have "sq_counters q1 = sq_counters q" using settle_spec [OF q1] by blast
  moreover have "length (ack_rejected_findings ack) \<le> delivery_batch_items (sq_limits q)"
    using assms(2) by (auto simp: acknowledgement_validate_def is_ok_iff)
  ultimately have "counters_room (length (ack_rejected_findings ack)) (sq_counters q1)"
    using assms(4) by (force simp: counters_room_def list_all_iff)
  from count_rejections_works [OF this, of batch] q1 show ?thesis by (auto simp: record_outcome_def outc)
qed

text \<open>The rows deleted before a batch is sent are the unreadable ones.\<close>

lemma batch_stage:
  assumes "q1 = q0 \<or> (\<exists>d. due_batch E now q0 = (d, q1))"
  shows "\<exists>S. S \<subseteq> {pr_seq x | x. x \<in> set (sq_pending q0) \<and> row_finding E (sq_limits q0) x = None} \<and>
    q1 = q0\<lparr>sq_pending := filter (\<lambda>r. pr_seq r \<notin> S) (sq_pending q0)\<rparr>"
  using assms
proof (elim disjE exE)
  fix d assume d: "due_batch E now q0 = (d, q1)"
  have "set (due_rows now q0) \<subseteq> set (sq_pending q0)"
    using set_take_subset by (fastforce simp: due_rows_def)
  then have "{pr_seq x | x. x \<in> set (due_rows now q0) \<and> row_finding E (sq_limits q0) x = None} \<subseteq>
      {pr_seq x | x. x \<in> set (sq_pending q0) \<and> row_finding E (sq_limits q0) x = None}" by auto
  then show ?thesis using conjunct1 [OF due_batch_spec [OF d]] by (elim exE conjE) (intro exI conjI, rule subset_trans)
qed (intro exI [of _ "{}"], simp)

lemma usable_stays:
  assumes "queue_inv q0" "S \<subseteq> {pr_seq x | x. x \<in> set (sq_pending q0) \<and> row_finding E l x = None}"
    and "row \<in> set (sq_pending q0)" "row_finding E l row \<noteq> None"
  shows "row \<in> set (filter (\<lambda>r. pr_seq r \<notin> S) (sq_pending q0))"
  using assms inj_onD [OF seq_unique [OF assms(1)]] by fastforce

lemmas finding_queue_evals [evals] =
  MAX_REJECTION_REASONS_def DAY_MS_def BATCH_WRAPPER_BYTES_def seconds_ms_def
  queue_validate_limits_def max_page_count_def set_clock_skew_def cutoff_ms_def pruned_def
  prune_def bump_def drop_oldest_def next_seq_def new_row_def enqueue_def queue_len_def
  queue_is_empty_def queue_stats_of_def due_def due_rows_def row_finding_def due_batch_def
  sql_wrap_def sql_shl_def sql_div_def sql_rem_def retry_delay_def next_attempt_def
  reschedule_row_def reschedule_def acknowledge_def like_rejected_def count_rejection_def
  accepted_by_def rejected_by_def record_outcome_def deliver_def QUEUE_APPLICATION_ID_def
  queue_schema_v1_def queue_upgrade_v2_def queue_open_def queued_def named_reasons_def
  row_key_def rows_def settled_def dropped_total_def dropped_one_def row_full_def enqueue_loop.simps

section \<open>An example queue\<close>

definition qx_finding :: finding where
  "qx_finding = \<lparr>fd_detection = None, fd_schema_version = schema_V1, fd_finding_id = Identifier ''f'',
     fd_scan_id = Identifier ''s'', fd_rule_set_id = None, fd_rule_id = Identifier ''r'', fd_rule_version = 1,
     fd_observed_at_unix_ms = 5, fd_severity = High, fd_confidence = Confidence 50, fd_message = ''m'', fd_evidence = []\<rparr>"

definition qx_env :: queue_env where
  "qx_env = \<lparr>qe_full = (\<lambda>_ _. False), qe_fault = (\<lambda>_. None), qe_random = (\<lambda>_. 0),
     qe_encode = (\<lambda>_. Some ''b''), qe_decode = (\<lambda>_. Some qx_finding), qe_json_length = (\<lambda>_. Some 0)\<rparr>"

definition qx_empty :: sqlite_queue where
  "qx_empty = \<lparr>sq_pending = [], sq_acknowledged = Map.empty, sq_counters = [], sq_limits = V1, sq_clock_skew_ms = 0\<rparr>"

definition qx_queue :: sqlite_queue where
  "qx_queue = qx_empty\<lparr>sq_pending := [\<lparr>pr_seq = 1, pr_finding_id = ''f'', pr_body = ''b'', pr_enqueued_at_ms = 7,
     pr_attempts = 0, pr_next_attempt_ms = 7\<rparr>]\<rparr>"

definition qx_send :: "finding list \<Rightarrow> (delivery_acknowledgement, string) result" where
  "qx_send batch = Ok \<lparr>ack_schema_version = schema_V1, ack_accepted_finding_ids = map fd_finding_id batch,
     ack_rejected_findings = [], ack_acknowledged_at_unix_ms = 9\<rparr>"

definition qx_delivered :: sqlite_queue where
  "qx_delivered = qx_empty\<lparr>sq_acknowledged := [''f'' \<mapsto> 8]\<rparr>"

lemmas qx_defs = qx_finding_def qx_env_def qx_empty_def qx_queue_def qx_send_def qx_delivered_def

lemma qx_enqueues: "enqueue qx_env qx_finding 7 qx_empty = (Ok True, qx_queue)"
  by (simp add: evals qx_defs i64_defs)

lemma qx_delivers: "deliver qx_env 8 qx_send qx_queue = (Ok 1, qx_delivered)"
proof -
  have pruned: "prune None 8 qx_queue = (Ok (), qx_queue)"
    by (simp add: prune_def pruned_def txn_def cutoff_ms_def DAY_MS_def qx_defs i64_saturating_sub_def clamp_i64_def
        i64_defs)
  have usable: "row_finding qx_env V1 r = Some qx_finding" if "pr_finding_id r = ''f''" "pr_body r = ''b''" for r
    using that by (simp add: evals qx_defs)
  have due: "due_rows 8 qx_queue = sq_pending qx_queue" by (simp add: due_rows_def due_def qx_queue_def qx_empty_def)
  have fields: "qe_fault qx_env n = None" "sq_limits qx_queue = V1" for n by (simp_all add: qx_defs)
  have batch: "due_batch qx_env 8 qx_queue = (Ok [qx_finding], qx_queue)"
    by (simp add: due_batch_def fields due) (simp add: qx_queue_def usable abind_def)
  show ?thesis
    by (simp add: deliver_def abind_def pruned batch fields) (simp add: evals qx_defs)
qed

lemma qx_inv: "queue_inv qx_empty" "queue_inv qx_queue"
  by (simp_all add: queue_inv_def rows_inv_def named_reasons_def bt_invar_def bt_keys_def qx_defs)

section \<open>Properties\<close>

text \<open>C10: delivery loses nothing. Whatever the platform answers and whichever transaction SQLite
  aborts, the rows after a delivery are rows from before, in the same order, and a row only leaves
  because it is past retention, because its record can never be delivered, or because a valid
  acknowledgement of the batch it was sent in names it; then its identifier is remembered.\<close>

theorem deliver_loses_nothing:
  assumes "deliver E now send q = (r, q')" and "queue_inv q"
  shows "subseq (rows q') (rows q) \<and>
    (\<forall>row \<in> set (sq_pending q).
       row_key row \<in> set (rows q') \<or>
       pr_enqueued_at_ms row < cutoff_ms now q \<or>
       row_finding E (sq_limits q) row = None \<or>
       (\<exists>batch ack. send batch = Ok ack \<and> is_ok (acknowledgement_validate ack (sq_limits q)) \<and>
          (\<exists>f \<in> set batch. as_str (fd_finding_id f) = pr_finding_id row \<and> fd_finding_id f \<in> set (ack_accepted_finding_ids ack)) \<and>
          sq_acknowledged q' (pr_finding_id row) = Some now))"
proof -
  from deliver_stages [OF assms(1)] obtain q0 q1 where q0: "q0 = q \<or> q0 = pruned now q"
    and q1: "q1 = q0 \<or> (\<exists>d. due_batch E now q0 = (d, q1))"
    and q': "q' = q1 \<or> (\<exists>batch m. record_outcome E now batch (send batch) q1 = Ok (m, q'))" by blast
  have limits: "sq_limits q0 = sq_limits q" and inv0: "queue_inv q0" using q0 assms(2) inv_pruned by auto
  have sub0: "subseq (sq_pending q0) (sq_pending q)" using q0 by (auto simp: pruned_def subseq_filter_left)
  from batch_stage [OF q1] obtain S where S: "S \<subseteq> {pr_seq x | x. x \<in> set (sq_pending q0) \<and> row_finding E (sq_limits q) x = None}"
    and q1_def: "q1 = q0\<lparr>sq_pending := filter (\<lambda>r. pr_seq r \<notin> S) (sq_pending q0)\<rparr>" unfolding limits by (elim exE conjE)
  have sub1: "subseq (rows q1) (rows q)"
    unfolding rows_def q1_def using subseq_map [OF subseq_order.trans [OF subseq_filter_left sub0]] by simp
  have step1: "row \<in> set (sq_pending q1) \<or> pr_enqueued_at_ms row < cutoff_ms now q \<or> row_finding E (sq_limits q) row = None"
    if "row \<in> set (sq_pending q)" for row
    using usable_stays [OF inv0 S, of row] that q0 q1_def by (cases "row \<in> set (sq_pending q0)") auto
  show ?thesis
  proof (cases "q' = q1")
    case True
    then show ?thesis using sub1 step1 by (auto simp: rows_def)
  next
    case False
    with q' obtain batch m where rec: "record_outcome E now batch (send batch) q1 = Ok (m, q')" by blast
    have l1: "sq_limits q1 = sq_limits q" using q1_def limits by simp
    note spec = record_outcome_spec [OF rec, unfolded l1]
    have acked: "\<exists>ack. send batch = Ok ack \<and> is_ok (acknowledgement_validate ack (sq_limits q)) \<and>
          (\<exists>f \<in> set batch. as_str (fd_finding_id f) = i \<and> fd_finding_id f \<in> set (ack_accepted_finding_ids ack))"
      if "i \<in> settled (accepted_by (sq_limits q) (send batch)) batch" for i
      using that by (cases "send batch") (auto simp: settled_def accepted_by_def split: if_splits)
    have "subseq (rows q') (rows q)"
      unfolding conjunct1 [OF spec] by (rule subseq_order.trans [OF subseq_filter_left sub1])
    moreover have "row_key row \<in> set (rows q') \<or> pr_finding_id row \<in> settled (accepted_by (sq_limits q) (send batch)) batch"
      if "row \<in> set (sq_pending q1)" for row
      using spec that by (auto simp: rows_def row_key_def)
    moreover have "sq_acknowledged q' i = Some now" if "i \<in> settled (accepted_by (sq_limits q) (send batch)) batch" for i
      using spec that by simp
    ultimately show ?thesis using step1 acked by (intro conjI ballI) blast+
  qed
qed

theorem deliver_loses_nothing_witness:
  "subseq (rows qx_delivered) (rows qx_queue) \<and> sq_acknowledged qx_delivered ''f'' = Some 8"
  using deliver_loses_nothing [OF qx_delivers qx_inv(2)] by (simp add: qx_defs)







text \<open>C18: the queue invariant holds through every run: keys increase, identifiers are distinct, a
  finding acknowledged within retention is never pending again, attempts are not negative and at
  most fifteen rejection reasons are kept by name.\<close>

theorem queue_run_inv: "queue_step\<^sup>*\<^sup>* q q' \<Longrightarrow> queue_inv q \<Longrightarrow> queue_inv q'"
  by (rule queue.inv_run)

theorem queue_run_inv_witness:
  "queue_step\<^sup>*\<^sup>* qx_empty qx_delivered \<and> queue_inv qx_delivered"
proof -
  have "queue_step qx_empty qx_queue" "queue_step qx_queue qx_delivered"
    by (rule step_enqueue [OF qx_enqueues], rule step_deliver [OF qx_delivers])
  then have "queue_step\<^sup>*\<^sup>* qx_empty qx_delivered" by (meson converse_rtranclp_into_rtranclp rtranclp.rtrancl_refl)
  with queue_run_inv [OF this qx_inv(1)] show ?thesis by blast
qed

text \<open>C23: a finding that was not acknowledged waits between half and all of the capped exponential
  delay, for every limit set the queue accepts, every attempt count and every random number: the
  shift does not wrap. The statement fails, and the transaction with it, only when the latest
  possible time is past the largest 64-bit integer.\<close>

theorem next_attempt_bounds:
  assumes "queue_validate_limits l = Ok ()" and "0 \<le> attempts" and "i64_min \<le> now"
  defines "delay \<equiv> min (int (retry_max_seconds l) * 1000)
    (int (retry_initial_seconds l) * 1000 * 2 ^ nat (min attempts 20))"
  shows "case next_attempt l now attempts random of
      Ok t \<Rightarrow> now + delay div 2 \<le> t \<and> t \<le> now + delay \<and> t \<le> i64_max
    | Err _ \<Rightarrow> now + delay > i64_max"
proof -
  have d: "retry_delay l attempts = delay" unfolding delay_def by (rule retry_delay_exact [OF assms(1,2)])
  have "0 \<le> delay" by (simp add: delay_def)
  then have "0 < delay div 2 + 1" by simp
  moreover have "delay div 2 + delay div 2 \<le> delay" by simp
  ultimately show ?thesis using sql_rem_bounds [of "delay div 2 + 1" random] \<open>0 \<le> delay\<close> assms(3)
    unfolding next_attempt_def Let_def d sql_div_half [OF \<open>0 \<le> delay\<close>]
    by (auto simp: sql_add_def rbind_def split: result.splits if_splits)
qed

theorem next_attempt_bounds_witness:
  "(case next_attempt V1 100 1 (-7) of Ok t \<Rightarrow> 15100 \<le> t \<and> t \<le> 30100 \<and> t \<le> i64_max | Err _ \<Rightarrow> False) \<and>
   (case next_attempt V1 i64_max 1 (-7) of Ok _ \<Rightarrow> False | Err _ \<Rightarrow> True)"
proof -
  have "queue_validate_limits V1 = Ok ()" by (simp add: queue_validate_limits_def)
  note b = next_attempt_bounds [OF this, of 1]
  from b [of 100 "-7"] b [of i64_max "-7"] show ?thesis
    by (auto simp: i64_defs split: result.splits)
qed

text \<open>C21: delivery makes progress. When SQLite works, some due record is usable and the platform
  accepts what it is sent, a delivery returns how many findings it delivered, at least the oldest
  usable due one; each of them has left the queue and is remembered as acknowledged, the queue is
  shorter, and every other usable row within retention is still there.\<close>

theorem deliver_progress:
  assumes "\<And>n. qe_fault E n = None" and "queue_inv q" and "queue_validate_limits (sq_limits q) = Ok ()"
    and "list_all (\<lambda>(_, v). 0 \<le> v \<and> v + int (delivery_batch_items (sq_limits q)) \<le> i64_max) (sq_counters q)"
    and usable: "filter (\<lambda>r. row_finding E (sq_limits q) r \<noteq> None) (due_rows now (pruned now q)) = row # rest"
    and accepts: "\<And>batch. length batch \<le> delivery_batch_items (sq_limits q) \<Longrightarrow>
      \<exists>ack. send batch = Ok ack \<and> is_ok (acknowledgement_validate ack (sq_limits q)) \<and>
        fd_finding_id ` set batch \<subseteq> set (ack_accepted_finding_ids ack)"
  shows "\<exists>batch q'. deliver E now send q = (Ok (length batch), q') \<and> batch \<noteq> [] \<and>
    Some (hd batch) = row_finding E (sq_limits q) row \<and>
    (\<forall>f \<in> set batch. as_str (fd_finding_id f) \<notin> pr_finding_id ` set (sq_pending q') \<and>
       sq_acknowledged q' (as_str (fd_finding_id f)) = Some now) \<and>
    queue_len q' < queue_len q \<and>
    (\<forall>r \<in> set (sq_pending (pruned now q)). row_finding E (sq_limits q) r \<noteq> None \<longrightarrow>
       pr_finding_id r \<notin> (\<lambda>f. as_str (fd_finding_id f)) ` set batch \<longrightarrow> row_key r \<in> set (rows q'))"
proof -
  let ?q0 = "pruned now q" and ?l = "sq_limits q"
  have inv0: "queue_inv ?q0" using assms(2) by (rule inv_pruned)
  from due_batch_works [of E ?q0 now] assms(1) usable obtain batch q1 where
    d: "due_batch E now ?q0 = (Ok batch, q1)" "batch \<noteq> []" by auto
  note rows = batch_rows [OF d(1) inv0, simplified]
  from accepts [OF conjunct1 [OF rows]] obtain ack where ack: "send batch = Ok ack"
    "is_ok (acknowledgement_validate ack ?l)" "fd_finding_id ` set batch \<subseteq> set (ack_accepted_finding_ids ack)"
    by (elim exE conjE)
  have "row \<in> set (filter (\<lambda>r. row_finding E ?l r \<noteq> None) (due_rows now ?q0))" unfolding usable by simp
  then have "row_finding E ?l row \<noteq> None" by simp
  with conjunct2 [OF due_batch_spec [OF d(1)], rule_format, OF refl] usable d(2)
  have head: "Some (hd batch) = row_finding E ?l row" by (auto simp: prefix_Cons)
  from batch_stage [of q1 ?q0 E now] d(1) obtain S where
    S: "S \<subseteq> {pr_seq x | x. x \<in> set (sq_pending ?q0) \<and> row_finding E ?l x = None}"
    "q1 = ?q0\<lparr>sq_pending := filter (\<lambda>r. pr_seq r \<notin> S) (sq_pending ?q0)\<rparr>" by auto
  then have l1: "sq_limits q1 = ?l" "sq_counters q1 = sq_counters q" and len1: "length (sq_pending q1) \<le> length (sq_pending q)"
    by (auto simp: pruned_def intro: le_trans [OF length_filter_le])
  have "counters_room (delivery_batch_items (sq_limits q1)) (sq_counters q1)"
    using assms(3,4) by (simp add: l1 counters_room_def queue_validate_limits_def i64_max_def split: if_splits)
  with record_outcome_works [of send batch ack q1 E now] ack l1 obtain q' where
    rec: "record_outcome E now batch (send batch) q1 = Ok (length batch, q')" by auto
  have acc: "settled (accepted_by (sq_limits q1) (send batch)) batch = (\<lambda>f. as_str (fd_finding_id f)) ` set batch"
    using ack l1 by (auto simp: accepted_by_def settled_def)
  note spec = record_outcome_spec [OF rec, unfolded acc]
  have gone: "as_str (fd_finding_id f) \<notin> pr_finding_id ` set (sq_pending q')" if "f \<in> set batch" for f
  proof
    assume "as_str (fd_finding_id f) \<in> pr_finding_id ` set (sq_pending q')"
    then obtain s b e where "(s, as_str (fd_finding_id f), b, e) \<in> set (rows q')" by (auto simp: rows_def row_key_def image_iff)
    then show False using spec that by auto
  qed
  obtain r where r: "r \<in> set (sq_pending q1)" "pr_finding_id r = as_str (fd_finding_id (hd batch))"
    using rows d(2) by (meson hd_in_set)
  then have "length (rows q') < length (rows q1)"
    unfolding conjunct1 [OF spec] using d(2) by (intro length_filter_less [of "row_key r"]) (auto simp: rows_def row_key_def)
  then have "queue_len q' < queue_len q" using len1 by (simp add: queue_len_def rows_def)
  moreover have "deliver E now send q = (Ok (length batch), q')"
    using assms(1) d rec ack l1 by (simp add: deliver_def abind_def prune_def txn_def txn_try_def Let_def)
  moreover have "row_key r \<in> set (rows q')" if "r \<in> set (sq_pending ?q0)" "row_finding E ?l r \<noteq> None"
    "pr_finding_id r \<notin> (\<lambda>f. as_str (fd_finding_id f)) ` set batch" for r
    using usable_stays [OF inv0 S(1) that(1,2)] that(3) spec S(2) by (auto simp: rows_def row_key_def)
  ultimately show ?thesis using d(2) head gone spec by (intro exI [of _ batch] exI [of _ q']) simp
qed

theorem deliver_progress_witness:
  "\<exists>batch q'. deliver qx_env 8 qx_send qx_queue = (Ok (length batch), q') \<and> hd batch = qx_finding \<and>
     sq_acknowledged q' ''f'' = Some 8 \<and> queue_len q' < queue_len qx_queue"
proof -
  let ?row = "hd (sq_pending qx_queue)"
  have due: "filter (\<lambda>r. row_finding qx_env (sq_limits qx_queue) r \<noteq> None) (due_rows 8 (pruned 8 qx_queue)) = [?row]"
    by (simp add: pruned_def cutoff_ms_def due_rows_def due_def qx_queue_def qx_empty_def DAY_MS_def
        i64_saturating_sub_def clamp_i64_def i64_defs)
      (simp add: evals qx_finding_def qx_env_def)
  have row: "row_finding qx_env (sq_limits qx_queue) ?row = Some qx_finding" by (simp add: evals qx_defs)
  have accepts: "\<exists>ack. qx_send batch = Ok ack \<and> is_ok (acknowledgement_validate ack (sq_limits qx_queue)) \<and>
      fd_finding_id ` set batch \<subseteq> set (ack_accepted_finding_ids ack)"
    if "length batch \<le> delivery_batch_items (sq_limits qx_queue)" for batch
    using that by (simp add: qx_defs evals)
  have env: "queue_validate_limits (sq_limits qx_queue) = Ok ()" "\<And>n. qe_fault qx_env n = None"
    "list_all (\<lambda>(_, v). 0 \<le> v \<and> v + int (delivery_batch_items (sq_limits qx_queue)) \<le> i64_max) (sq_counters qx_queue)"
    and id: "as_str (fd_finding_id qx_finding) = ''f''"
    by (simp_all add: qx_defs queue_validate_limits_def)
  from deliver_progress [OF env(2) qx_inv(2) env(1,3) due accepts] obtain batch q' where
      "deliver qx_env 8 qx_send qx_queue = (Ok (length batch), q')" "batch \<noteq> []" "hd batch = qx_finding"
      "queue_len q' < queue_len qx_queue" "\<forall>f \<in> set batch. sq_acknowledged q' (as_str (fd_finding_id f)) = Some 8"
    unfolding row by blast
  then show ?thesis using id by (metis hd_in_set)
qed

end
