(* ===== verification/Text.thy ===== *)
theory Text
  imports Prelude
begin

text \<open>
  UTF-8 text: slices of a Rust string at character boundaries are Rust strings, ASCII bytes are
  always boundaries, and concatenation keeps validity. The components that cut, mask or join text
  rest on these lemmas.
\<close>

lemma valid_utf8_hd: "valid_utf8 (c # s) \<Longrightarrow> \<not> is_continuation c"
  by (auto simp: is_continuation_def byte_between_def split: if_splits)

lemma ascii_not_continuation: "byte c < 128 \<Longrightarrow> \<not> is_continuation c"
  by (simp add: is_continuation_def)

text \<open>The ways a valid string starts: with a character of one to four bytes.\<close>

lemma valid_utf8_cases:
  assumes "valid_utf8 s" "s \<noteq> []"
  obtains a t where "s = a # t" "byte a < 128" "valid_utf8 t"
  | a u t where "s = a # u @ t" "\<not> byte a < 128" "list_all is_continuation u" "u \<noteq> []" "valid_utf8 t"
      "\<And>t'. valid_utf8 (a # u @ t') \<longleftrightarrow> valid_utf8 t'"
proof (cases s)
  case (Cons a s1)
  note v = assms(1) [unfolded Cons]
  show ?thesis
  proof (cases "byte a < 128")
    case True
    then show ?thesis using that(1) Cons v by simp
  next
    case big: False
    show ?thesis
    proof (cases "byte_between 194 223 a")
      case True
      then obtain b t where "s1 = b # t" "is_continuation b" "valid_utf8 t" using v big by (auto split: list.splits)
      then show ?thesis using that(2) [of a "[b]" t] Cons big True by simp
    next
      case two: False
      show ?thesis
      proof (cases "byte_between 224 239 a")
        case True
        then obtain b c t where s: "s1 = b # c # t" "is_continuation c" "valid_utf8 t"
          and b: "byte_between (if byte a = 224 then 160 else 128) (if byte a = 237 then 159 else 191) b"
          using v big two by (auto split: list.splits)
        then have "is_continuation b" by (auto simp: byte_between_def is_continuation_def split: if_splits)
        then show ?thesis using that(2) [of a "[b, c]" t] Cons big two True s b by simp
      next
        case three: False
        then have four: "byte_between 240 244 a" using v big two by (auto split: if_splits)
        then obtain b c d t where s: "s1 = b # c # d # t" "is_continuation c" "is_continuation d" "valid_utf8 t"
          and b: "byte_between (if byte a = 240 then 144 else 128) (if byte a = 244 then 143 else 191) b"
          using v big two three by (auto split: list.splits)
        then have "is_continuation b" by (auto simp: byte_between_def is_continuation_def split: if_splits)
        then show ?thesis using that(2) [of a "[b, c, d]" t] Cons big two three four s b by simp
      qed
    qed
  qed
qed (use assms in simp)

lemma valid_utf8_split:
  "valid_utf8 s \<Longrightarrow> is_char_boundary s i \<Longrightarrow> i \<le> length s \<Longrightarrow> valid_utf8 (take i s) \<and> valid_utf8 (drop i s)"
proof (induction "length s" arbitrary: s i rule: less_induct)
  case less
  show ?case
  proof (cases "s = [] \<or> i = 0 \<or> i = length s")
    case True
    then show ?thesis using less.prems by auto
  next
    case False
    then have "s \<noteq> []" by simp
    from less.prems(1) this show ?thesis
    proof (cases rule: valid_utf8_cases)
      case (1 a t)
      have "is_char_boundary t (i - 1)"
        using less.prems(2) False 1 by (cases i) (auto simp: is_char_boundary_def)
      then show ?thesis using less.hyps [of t "i - 1"] 1 less.prems(3) False by (cases i) auto
    next
      case (2 a u t)
      have "length u < i"
      proof (rule ccontr)
        assume "\<not> length u < i"
        then have "s ! i \<in> set u" using False 2(1) by (auto simp: nth_Cons' nth_append)
        then show False using less.prems(2) False 2(3) by (auto simp: is_char_boundary_def list_all_iff)
      qed
      then obtain k where k: "i = Suc (length u + k)" using less_iff_Suc_add by auto
      have "is_char_boundary t k"
        using less.prems(2) False 2(1) k by (auto simp: is_char_boundary_def nth_append)
      then have "valid_utf8 (take k t) \<and> valid_utf8 (drop k t)"
        using less.hyps [of t k] 2 less.prems(3) k by auto
      then show ?thesis using 2(1) 2(6) [of "take k t"] k by simp
    qed
  qed
qed

lemma valid_utf8_append: "valid_utf8 s \<Longrightarrow> valid_utf8 t \<Longrightarrow> valid_utf8 (s @ t)"
proof (induction "length s" arbitrary: s rule: less_induct)
  case less
  show ?case
  proof (cases "s = []")
    case False
    from less.prems(1) this show ?thesis
    proof (cases rule: valid_utf8_cases)
      case (1 a s')
      then show ?thesis using less by simp
    next
      case (2 a u s')
      then have "valid_utf8 (s' @ t)" using less by simp
      then show ?thesis using 2(1) 2(6) [of "s' @ t"] by simp
    qed
  qed (use less in simp)
qed

lemma valid_utf8_ascii: "list_all (\<lambda>c. byte c < 128) s \<Longrightarrow> valid_utf8 s"
  by (induction s) auto

lemma str_slice_valid: "valid_utf8 s \<Longrightarrow> str_slice s a b = Some t \<Longrightarrow> valid_utf8 t"
proof -
  assume s: "valid_utf8 s" and t: "str_slice s a b = Some t"
  then have ab: "a \<le> b" "b \<le> length s" "is_char_boundary s a" "is_char_boundary s b" "t = drop a (take b s)"
    by (auto simp: str_slice_def drop_take split: if_splits)
  have "is_char_boundary (take b s) a" using ab by (auto simp: is_char_boundary_def)
  then show ?thesis using valid_utf8_split [of "take b s" a] valid_utf8_split [OF s ab(4,2)] ab by simp
qed

text \<open>An ASCII byte starts a character, and so does the byte after it.\<close>

lemma boundary_at_ascii: "i < length s \<Longrightarrow> byte (s ! i) < 128 \<Longrightarrow> is_char_boundary s i"
  by (simp add: is_char_boundary_def ascii_not_continuation)

lemma boundary_after_ascii:
  "valid_utf8 s \<Longrightarrow> i < length s \<Longrightarrow> byte (s ! i) < 128 \<Longrightarrow> is_char_boundary s (Suc i)"
proof -
  assume s: "valid_utf8 s" and i: "i < length s" "byte (s ! i) < 128"
  have "valid_utf8 (drop i s)" using valid_utf8_split [OF s boundary_at_ascii [OF i]] i by simp
  then have tail: "valid_utf8 (drop (Suc i) s)"
    using i by (metis Cons_nth_drop_Suc valid_utf8.simps(2))
  show ?thesis
  proof (cases "Suc i < length s")
    case True
    then have "drop (Suc i) s = s ! Suc i # drop (Suc (Suc i)) s" by (simp add: Cons_nth_drop_Suc)
    then show ?thesis using valid_utf8_hd tail True by (metis is_char_boundary_def)
  qed (use i in \<open>auto simp: is_char_boundary_def\<close>)
qed

lemma floor_boundary_valid: "valid_utf8 s \<Longrightarrow> i \<le> length s \<Longrightarrow> valid_utf8 (take (floor_boundary s i) s)"
  using valid_utf8_split [OF _ floor_boundary_boundary] floor_boundary_le le_trans by blast

lemma basename_valid: "valid_utf8 s \<Longrightarrow> valid_utf8 (basename s)"
proof -
  assume s: "valid_utf8 s"
  show ?thesis
  proof (cases "rfind_byte (\<lambda>c. c = CHR ''/'') s")
    case (Some i)
    from rfind_byte_Some [OF this] have "is_char_boundary s (Suc i)" "Suc i \<le> length s"
      by (auto intro!: boundary_after_ascii [OF s])
    then show ?thesis using valid_utf8_split [OF s] Some by (simp add: basename_def)
  qed (use s in \<open>simp add: basename_def\<close>)
qed

end
