(* ===== verification/Lossy.thy ===== *)
theory Lossy
  imports Text
begin

text \<open>
  \<open>String::from_utf8_lossy\<close>, \<open>String::truncate\<close> at a character boundary and \<open>[String]::join\<close>: how the
  agent turns the bytes the kernel reports into text. Each maximal ill-formed part of the input
  becomes one U+FFFD. The result is always well formed, well-formed input is unchanged, and the
  text is at most three times as long as the bytes.
\<close>

section \<open>Definitions\<close>

definition REPLACEMENT :: string where
  "REPLACEMENT = [CHR 0xEF, CHR 0xBF, CHR 0xBD]"

text \<open>How many bytes the character or the ill-formed part at the start of the input takes, and
  whether it is a character.\<close>

definition utf8_chunk :: "char \<Rightarrow> string \<Rightarrow> nat \<times> bool" where
  "utf8_chunk a s =
     (if byte a < 128 then (1, True)
      else if byte_between 194 223 a then
        (case s of b # _ \<Rightarrow> if is_continuation b then (2, True) else (1, False) | [] \<Rightarrow> (1, False))
      else if byte_between 224 239 a then
        (case s of
           b # s' \<Rightarrow>
             if byte_between (if byte a = 224 then 160 else 128) (if byte a = 237 then 159 else 191) b
             then (case s' of c # _ \<Rightarrow> if is_continuation c then (3, True) else (2, False) | [] \<Rightarrow> (2, False))
             else (1, False)
         | [] \<Rightarrow> (1, False))
      else if byte_between 240 244 a then
        (case s of
           b # s' \<Rightarrow>
             if byte_between (if byte a = 240 then 144 else 128) (if byte a = 244 then 143 else 191) b
             then
               (case s' of
                  c # s'' \<Rightarrow>
                    if is_continuation c
                    then (case s'' of d # _ \<Rightarrow> if is_continuation d then (4, True) else (3, False) | [] \<Rightarrow> (3, False))
                    else (2, False)
                | [] \<Rightarrow> (2, False))
             else (1, False)
         | [] \<Rightarrow> (1, False))
      else (1, False))"

lemma utf8_chunk_pos: "0 < fst (utf8_chunk a s)"
  by (simp add: utf8_chunk_def split: list.splits)

function lossy :: "string \<Rightarrow> string" where
  "lossy [] = []"
| "lossy (a # s) =
     (case utf8_chunk a s of (n, good) \<Rightarrow>
        (if good then take n (a # s) else REPLACEMENT) @ lossy (drop n (a # s)))"
  by pat_completeness auto
termination
  by (relation "measure length") (use utf8_chunk_pos in \<open>force simp: prod_eq_iff\<close>)+

declare lossy.simps(2) [simp del]

definition cut_text :: "string \<Rightarrow> nat \<Rightarrow> string \<times> bool" where
  "cut_text t n = (if length t \<le> n then (t, False) else (take (floor_boundary t n) t, True))"

fun join_spaces :: "string list \<Rightarrow> string" where
  "join_spaces [] = []"
| "join_spaces [x] = x"
| "join_spaces (x # y # xs) = x @ '' '' @ join_spaces (y # xs)"

section \<open>Lemmas\<close>

lemma utf8_chunk_le: "fst (utf8_chunk a s) \<le> Suc (length s)"
  by (auto simp: utf8_chunk_def split: list.splits)

lemma utf8_chunk_good:
  assumes "utf8_chunk a s = (n, True)"
  shows "valid_utf8 (take n (a # s))" and "n \<le> Suc (length s)"
  using assms by (auto simp: utf8_chunk_def eval_nat_numeral split: if_splits list.splits)

lemma utf8_chunk_valid:
  assumes "valid_utf8 (a # s)"
  shows "\<exists>n. utf8_chunk a s = (n, True) \<and> valid_utf8 (drop n (a # s))"
  using assms by (auto simp: utf8_chunk_def split: if_splits list.splits)

lemma valid_replacement: "valid_utf8 REPLACEMENT"
  by (simp add: REPLACEMENT_def byte_between_def is_continuation_def)

lemma lossy_valid: "valid_utf8 (lossy s)"
proof (induction s rule: lossy.induct)
  case (2 a s)
  obtain n good where c: "utf8_chunk a s = (n, good)" by fastforce
  from "2.IH" [OF c [symmetric]] utf8_chunk_good [of a s n] c show ?case
    by (simp add: lossy.simps(2) valid_utf8_append valid_replacement)
qed simp

lemma lossy_id: "valid_utf8 s \<Longrightarrow> lossy s = s"
proof (induction s rule: lossy.induct)
  case (2 a s)
  obtain n where c: "utf8_chunk a s = (n, True)" "valid_utf8 (drop n (a # s))"
    using utf8_chunk_valid [OF "2.prems"] by blast
  with "2.IH" [OF c(1) [symmetric]] show ?case by (simp add: lossy.simps(2))
qed simp

lemma length_lossy: "length (lossy s) \<le> 3 * length s"
proof (induction s rule: lossy.induct)
  case (2 a s)
  obtain n good where c: "utf8_chunk a s = (n, good)" by fastforce
  then have n: "0 < n" "n \<le> Suc (length s)" using utf8_chunk_pos [of a s] utf8_chunk_le [of a s] by simp_all
  have "length (if good then take n (a # s) else REPLACEMENT) \<le> 3 * n"
    using n by (auto simp: REPLACEMENT_def)
  moreover have "length (lossy (drop n (a # s))) \<le> 3 * (Suc (length s) - n)"
    using "2.IH" [OF c [symmetric]] by simp
  moreover have "lossy (a # s) = (if good then take n (a # s) else REPLACEMENT) @ lossy (drop n (a # s))"
    by (simp add: lossy.simps(2) c)
  ultimately have "length (lossy (a # s)) \<le> 3 * n + 3 * (Suc (length s) - n)" by simp
  also have "\<dots> = 3 * Suc (length s)" using n by simp
  finally show ?case by simp
qed simp

lemma lossy_empty_iff [simp]: "lossy s = [] \<longleftrightarrow> s = []"
proof (cases s)
  case (Cons a t)
  obtain n good where c: "utf8_chunk a t = (n, good)" by fastforce
  then have "0 < n" using utf8_chunk_pos [of a t] by simp
  then show ?thesis using Cons c by (simp add: lossy.simps(2) REPLACEMENT_def)
qed simp

text \<open>Replacing introduces no byte below 128.\<close>

lemma set_lossy: "c \<in> set (lossy s) \<Longrightarrow> c \<in> set s \<or> c \<in> set REPLACEMENT"
proof (induction s rule: lossy.induct)
  case (2 a s)
  obtain n good where c: "utf8_chunk a s = (n, good)" by fastforce
  have "set (take n (a # s)) \<subseteq> set (a # s)" "set (drop n (a # s)) \<subseteq> set (a # s)"
    by (rule set_take_subset, rule set_drop_subset)
  then show ?case using "2.IH" [OF c [symmetric]] "2.prems" c
    by (auto simp: lossy.simps(2) split: if_splits)
qed simp

lemma lossy_no_NUL: "NUL \<notin> set s \<Longrightarrow> NUL \<notin> set (lossy s)"
  using set_lossy by (fastforce simp: REPLACEMENT_def)

lemma cut_text_spec:
  assumes "cut_text t n = (u, b)"
  shows "length u \<le> n" "valid_utf8 t \<Longrightarrow> valid_utf8 u" "prefix u t" "b \<longleftrightarrow> u \<noteq> t"
proof -
  have f: "floor_boundary t n \<le> n" by (rule floor_boundary_le)
  show "length u \<le> n" using assms f by (auto simp: cut_text_def split: if_splits)
  show "valid_utf8 t \<Longrightarrow> valid_utf8 u"
    using assms by (auto simp: cut_text_def floor_boundary_valid split: if_splits)
  show "prefix u t" using assms by (auto simp: cut_text_def take_is_prefix split: if_splits)
  show "b \<longleftrightarrow> u \<noteq> t"
  proof (cases "length t \<le> n")
    case True
    then show ?thesis using assms by (auto simp: cut_text_def)
  next
    case False
    then have "length (take (floor_boundary t n) t) < length t" using f by simp
    then show ?thesis using assms False by (auto simp: cut_text_def)
  qed
qed

lemma valid_join_spaces: "list_all valid_utf8 xs \<Longrightarrow> valid_utf8 (join_spaces xs)"
  by (induction xs rule: join_spaces.induct) (auto intro!: valid_utf8_append)

lemma length_join_spaces: "length (join_spaces xs) = sum_list (map length xs) + (length xs - 1)"
  by (induction xs rule: join_spaces.induct) auto

lemmas lossy_evals [evals] =
  REPLACEMENT_def utf8_chunk_def lossy.simps(2) cut_text_def

end
