(* ===== verification/Alarm_Mask.thy ===== *)
theory Alarm_Mask
  imports Text "HOL-Library.Product_Lexorder"
begin

text \<open>
  Secret masking and argument capping: \<open>openvibes-core/src/alarm_mask.rs\<close>. Every rule marks secret
  byte ranges of a word and each run of marked bytes becomes \<open>***\<close>. String slices are \<open>str_slice\<close>,
  so a slice off a character boundary, which panics in the source, is \<open>None\<close> here, and that masking
  a Rust string never panics is a theorem.
\<close>

section \<open>Definitions\<close>

definition ALARM_ARGS :: nat where "ALARM_ARGS = 256"
definition ALARM_ARGS_BYTES :: nat where "ALARM_ARGS_BYTES = 4096"

definition MASK :: string where "MASK = ''***''"

definition P_PROGRAMS :: "string list" where
  "P_PROGRAMS = [''mysql'', ''mariadb'', ''mysqldump'', ''mariadb-dump'', ''mysqladmin'', ''sshpass'']"

definition SHELLS :: "string list" where
  "SHELLS = [''sh'', ''bash'', ''dash'', ''zsh'', ''ash'', ''su'', ''runuser'']"

definition LONG_FLAG_SUFFIXES :: "string list" where
  "LONG_FLAG_SUFFIXES =
     [''password'', ''passwd'', ''pass'', ''passphrase'', ''token'', ''secret'', ''key'']"

definition SHORT_FLAG_SUFFIXES :: "string list" where
  "SHORT_FLAG_SUFFIXES = [''password'', ''passwd'', ''passphrase'', ''storepass'', ''keypass'']"

definition PAIR_SUFFIXES :: "string list" where
  "PAIR_SUFFIXES =
     [''PASSWORD'', ''PASSWD'', ''PASS'', ''PWD'', ''PASSPHRASE'', ''SECRET'', ''TOKEN'', ''KEY'', ''AUTH'']"

definition SECRET_HEADERS :: "string list" where
  "SECRET_HEADERS = [''authorization'', ''proxy-authorization'', ''cookie'', ''x-api-key'', ''private-token'']"

definition HEADER_SUFFIXES :: "string list" where
  "HEADER_SUFFIXES = [''token'', ''key'', ''secret'']"

definition SCRIPT_SHELLS :: "string list" where
  "SCRIPT_SHELLS = [''sh'', ''bash'', ''dash'', ''zsh'', ''ash'']"

definition SHELL_OPTIONS_WITH_VALUE :: "string list" where
  "SHELL_OPTIONS_WITH_VALUE = [''-o'', ''+o'', ''-O'', ''+O'', ''--rcfile'', ''--init-file'']"

datatype next_word = Plain | Secret | UserPassword

record mask_context =
  mc_p_program :: bool
  mc_sshpass :: bool
  mc_next :: next_word

type_synonym marks = "(nat \<times> nat) list"

definition is_c_flag :: "string \<Rightarrow> bool" where
  "is_c_flag word \<longleftrightarrow>
     (case strip_prefix ''-'' word of
        None \<Rightarrow> False
      | Some flags \<Rightarrow>
          \<not> starts_with flags ''-'' \<and> flags \<noteq> [] \<and> list_all is_ascii_alphabetic flags \<and>
          list_ex (\<lambda>c. c = CHR ''c'') flags)"

subsection \<open>Which arguments are scripts\<close>

text \<open>The loop after a shell word: options are skipped up to the \<open>-c\<close> whose next word is the script.\<close>

function shell_script :: "string list \<Rightarrow> nat \<Rightarrow> nat option" where
  "shell_script args j =
     (if j < length args then
        let option = args ! j in
        if is_c_flag option then Some (j + 1)
        else if \<not> (option \<noteq> ''--'' \<and> (starts_with option ''-'' \<or> starts_with option ''+'')) then None
        else shell_script args (j + (if option \<in> set SHELL_OPTIONS_WITH_VALUE then 2 else 1))
      else None)"
  by pat_completeness auto
termination by (relation "measure (\<lambda>(args, j). length args - j)") (auto split: if_splits)

declare shell_script.simps [simp del]

definition exe_is_shell :: "string \<Rightarrow> string list \<Rightarrow> bool" where
  "exe_is_shell program args \<longleftrightarrow>
     program \<in> set SHELLS \<or>
     program = ''busybox'' \<and> (case args of [] \<Rightarrow> False | argv0 # _ \<Rightarrow> basename argv0 \<in> set SHELLS)"

definition word_scripts :: "string list \<Rightarrow> nat \<Rightarrow> nat list" where
  "word_scripts args i =
     (let name = basename (args ! i) in
      if name \<in> set SCRIPT_SHELLS then
        (case shell_script args (i + 1) of Some k \<Rightarrow> [k] | None \<Rightarrow> [])
      else if name = ''su'' \<or> name = ''runuser'' then
        map (\<lambda>k. k + 1) (filter (\<lambda>k. is_c_flag (args ! k)) [i + 1..<length args])
      else [])"

definition script_arguments :: "string \<Rightarrow> string list \<Rightarrow> nat list" where
  "script_arguments program args =
     filter (\<lambda>k. k < length args)
       ((if exe_is_shell program args
         then filter (\<lambda>i. is_c_flag (args ! (i - 1))) [1..<length args] else []) @
        concat (map (word_scripts args) [0..<length args]))"

subsection \<open>Marking the secrets of a word\<close>

definition flag_value ::
  "string \<Rightarrow> string \<Rightarrow> nat \<Rightarrow> string list \<Rightarrow> mask_context \<Rightarrow> marks \<Rightarrow> (mask_context \<times> marks) option" where
  "flag_value word rest offset sfx ctx marks =
     Option.bind
       (case find_byte (\<lambda>c. c = CHR ''='') rest of
          Some eq \<Rightarrow> Option.bind (str_slice rest 0 eq) (\<lambda>name. Some (name, Some (offset + eq + 1)))
        | None \<Rightarrow> Some (rest, None))
       (\<lambda>(name, value_at).
          Some (if name = [] \<or> \<not> list_ex (ends_with name) sfx then (ctx, marks)
                else
                  (case value_at of
                     Some at \<Rightarrow> (ctx, if at < length word then marks @ [(at, length word)] else marks)
                   | None \<Rightarrow> (ctx\<lparr>mc_next := Secret\<rparr>, marks))))"

definition mark_user_password :: "string \<Rightarrow> nat \<Rightarrow> marks \<Rightarrow> marks" where
  "mark_user_password v offset marks =
     (case find_byte (\<lambda>c. c = CHR '':'') v of
        Some colon \<Rightarrow>
          if colon + 1 < length v then marks @ [(offset + colon + 1, offset + length v)] else marks
      | None \<Rightarrow> marks)"

definition header_name_byte :: "char \<Rightarrow> bool" where
  "header_name_byte b \<longleftrightarrow> is_ascii_alphanumeric b \<or> b = CHR ''-'' \<or> b = CHR ''_''"

definition mark_header :: "string \<Rightarrow> nat \<Rightarrow> marks \<Rightarrow> marks option" where
  "mark_header word at marks =
     Option.bind (str_slice word at (length word)) (\<lambda>header.
       case find_byte (\<lambda>c. c = CHR '':'') header of
         None \<Rightarrow> Some marks
       | Some colon \<Rightarrow>
           Option.bind (str_slice header 0 colon) (\<lambda>raw.
             let name = to_ascii_lowercase raw;
               valid = (name \<noteq> [] \<and> list_all header_name_byte name);
               secret = (name \<in> set SECRET_HEADERS \<or> list_ex (ends_with name) HEADER_SUFFIXES);
               after = at + colon + 1;
               start = after + length (takeWhile (\<lambda>c. c = CHR '' '') (drop after word))
             in Some (if \<not> valid \<or> \<not> secret then marks
                      else if start < length word then marks @ [(start, length word)] else marks)))"

definition match_indices :: "string \<Rightarrow> string \<Rightarrow> nat list" where
  "match_indices word pat = filter (\<lambda>i. starts_with (drop i word) pat) [0..<length word]"

definition mark_pair :: "string \<Rightarrow> nat \<Rightarrow> marks \<Rightarrow> marks option" where
  "mark_pair word eq marks =
     (let name_start = (case rfind_byte (\<lambda>b. b \<in> set ''=,&?;'') (take eq word) of None \<Rightarrow> 0 | Some i \<Rightarrow> i + 1)
      in Option.bind (str_slice word name_start eq) (\<lambda>raw.
        let name = to_ascii_uppercase raw;
          value_end = (case find_byte (\<lambda>b. b \<in> set '',&;'') (drop (eq + 1) word) of
            None \<Rightarrow> length word | Some i \<Rightarrow> eq + 1 + i)
        in Some (if name = [] \<or> \<not> list_ex (ends_with name) PAIR_SUFFIXES then marks
                 else if value_end > eq + 1 then marks @ [(eq + 1, value_end)] else marks)))"

definition mark_url :: "string \<Rightarrow> nat \<Rightarrow> marks \<Rightarrow> marks option" where
  "mark_url word scheme_end marks =
     (let start = scheme_end + 3 in
      Option.bind (str_slice word start (length word)) (\<lambda>tail.
        let authority_end = (case find_byte (\<lambda>b. b \<in> set ''/?#'') tail of None \<Rightarrow> length word | Some i \<Rightarrow> start + i)
        in Option.bind (str_slice word start authority_end) (\<lambda>authority.
          case rfind_byte (\<lambda>b. b = CHR ''@'') authority of
            None \<Rightarrow> Some marks
          | Some at \<Rightarrow>
              Option.bind (str_slice authority 0 at) (\<lambda>userinfo.
                Some (case find_byte (\<lambda>b. b = CHR '':'') userinfo of
                  Some colon \<Rightarrow> if colon + 1 < at then marks @ [(start + colon + 1, start + at)] else marks
                | None \<Rightarrow> marks)))))"

fun mark_all :: "(nat \<Rightarrow> marks \<Rightarrow> marks option) \<Rightarrow> nat list \<Rightarrow> marks \<Rightarrow> marks option" where
  "mark_all f [] marks = Some marks"
| "mark_all f (i # is) marks = Option.bind (f i marks) (mark_all f is)"

definition mark_pairs :: "string \<Rightarrow> marks \<Rightarrow> marks option" where
  "mark_pairs word = mark_all (mark_pair word) (match_indices word ''='')"

definition mark_urls :: "string \<Rightarrow> marks \<Rightarrow> marks option" where
  "mark_urls word = mark_all (mark_url word) (match_indices word ''://'')"

definition mark_p_value :: "string \<Rightarrow> mask_context \<Rightarrow> mask_context \<times> marks" where
  "mark_p_value word ctx =
     (if mc_p_program ctx \<and> starts_with word ''-p'' \<and> \<not> starts_with word ''--'' then
        if length word > 2 then (ctx, [(2, length word)])
        else if mc_sshpass ctx then (ctx\<lparr>mc_next := Secret\<rparr>, [])
        else (ctx, [])
      else (ctx, []))"

definition mark_flag :: "string \<Rightarrow> mask_context \<times> marks \<Rightarrow> (mask_context \<times> marks) option" where
  "mark_flag word cm =
     (case cm of (ctx, marks) \<Rightarrow>
        (case strip_prefix ''--'' (to_ascii_lowercase word) of
           Some rest \<Rightarrow> flag_value word rest 2 LONG_FLAG_SUFFIXES ctx marks
         | None \<Rightarrow>
             (case strip_prefix ''-'' (to_ascii_lowercase word) of
                Some rest \<Rightarrow> flag_value word rest 1 SHORT_FLAG_SUFFIXES ctx marks
              | None \<Rightarrow> Some (ctx, marks))))"

definition mark_user :: "string \<Rightarrow> mask_context \<times> marks \<Rightarrow> (mask_context \<times> marks) option" where
  "mark_user word cm =
     (case cm of (ctx, marks) \<Rightarrow>
        let lower = to_ascii_lowercase word in
        if lower = ''-u'' \<or> lower = ''--user'' \<or> lower = ''--proxy-user''
        then Some (ctx\<lparr>mc_next := UserPassword\<rparr>, marks)
        else
          (case find (starts_with lower) [''--user='', ''--proxy-user=''] of
             Some pre \<Rightarrow>
               Option.bind (str_slice word (length pre) (length word))
                 (\<lambda>v. Some (ctx, mark_user_password v (length pre) marks))
           | None \<Rightarrow>
               if starts_with lower ''-u'' \<and> \<not> starts_with lower ''--'' \<and> length word > 2
               then Option.bind (str_slice word 2 (length word)) (\<lambda>v. Some (ctx, mark_user_password v 2 marks))
               else Some (ctx, marks)))"

definition header_at :: "string \<Rightarrow> nat" where
  "header_at word =
     (let lower = to_ascii_lowercase word in
      if starts_with lower ''--header='' then 9
      else if starts_with lower ''-h'' \<and> \<not> starts_with lower ''--'' \<and> length word > 2 then 2
      else 0)"

definition mark_pass :: "string \<Rightarrow> marks \<Rightarrow> marks" where
  "mark_pass word marks =
     (if length word > 5 \<and> starts_with word ''pass:'' then marks @ [(5, length word)] else marks)"

definition program_name :: "string \<Rightarrow> string" where
  "program_name word =
     basename (case List.map_filter (\<lambda>p. strip_prefix p word) [''$('', ''('', [CHR 0x60], [CHR 0x27], [CHR 0x22]] of
       [] \<Rightarrow> word | t # _ \<Rightarrow> t)"

definition note_program :: "string \<Rightarrow> bool \<Rightarrow> mask_context \<Rightarrow> mask_context" where
  "note_program word may_be_program ctx =
     (if may_be_program \<and> program_name word \<in> set P_PROGRAMS
      then ctx\<lparr>mc_p_program := True, mc_sshpass := mc_sshpass ctx \<or> program_name word = ''sshpass''\<rparr>
      else ctx)"

definition mark_word :: "string \<Rightarrow> mask_context \<Rightarrow> bool \<Rightarrow> (mask_context \<times> marks) option" where
  "mark_word word ctx0 may_be_program =
     (let this = mc_next ctx0; ctx = ctx0\<lparr>mc_next := Plain\<rparr> in
      case this of
        Secret \<Rightarrow> Some (ctx, [(0, length word)])
      | UserPassword \<Rightarrow> Some (ctx, mark_user_password word 0 [])
      | Plain \<Rightarrow>
          Option.bind (mark_flag word (mark_p_value word ctx)) (\<lambda>cm.
          Option.bind (mark_user word cm) (\<lambda>(ctx, marks).
          Option.bind (mark_header word (header_at word) marks) (\<lambda>marks.
          Option.bind (mark_pairs word (mark_pass word marks)) (\<lambda>marks.
          Option.bind (mark_urls word marks) (\<lambda>marks.
          Some (note_program word may_be_program ctx, marks)))))))"

subsection \<open>Replacing the marked runs\<close>

fun merge_runs :: "marks \<Rightarrow> marks" where
  "merge_runs ((s, e) # (s', e') # ms) =
     (if s' \<le> e then merge_runs ((s, max e e') # ms) else (s, e) # merge_runs ((s', e') # ms))"
| "merge_runs ms = ms"

fun emit_runs :: "string \<Rightarrow> nat \<Rightarrow> marks \<Rightarrow> string option" where
  "emit_runs t pos [] = str_slice t pos (length t)"
| "emit_runs t pos ((s, e) # rs) =
     Option.bind (str_slice t pos s) (\<lambda>a. Option.bind (emit_runs t e rs) (\<lambda>b. Some (a @ MASK @ b)))"

definition replace_marked :: "string \<Rightarrow> marks \<Rightarrow> string option" where
  "replace_marked t marks = (if marks = [] then Some t else emit_runs t 0 (merge_runs (sort marks)))"

fun word_ranges_loop :: "nat \<Rightarrow> nat option \<Rightarrow> string \<Rightarrow> marks" where
  "word_ranges_loop i start [] = (case start of Some s \<Rightarrow> [(s, i)] | None \<Rightarrow> [])"
| "word_ranges_loop i start (b # bs) =
     (case (is_ascii_whitespace b, start) of
        (True, Some s) \<Rightarrow> (s, i) # word_ranges_loop (i + 1) None bs
      | (False, None) \<Rightarrow> word_ranges_loop (i + 1) (Some i) bs
      | _ \<Rightarrow> word_ranges_loop (i + 1) start bs)"

definition word_ranges :: "string \<Rightarrow> marks" where
  "word_ranges t = word_ranges_loop 0 None t"

fun mask_script_loop :: "string \<Rightarrow> marks \<Rightarrow> mask_context \<Rightarrow> marks \<Rightarrow> marks option" where
  "mask_script_loop script [] ctx marks = Some marks"
| "mask_script_loop script ((start, end) # ranges) ctx marks =
     Option.bind (str_slice script start end) (\<lambda>word.
     Option.bind (mark_word word ctx True) (\<lambda>(ctx, ms).
     mask_script_loop script ranges ctx (marks @ map (\<lambda>(a, b). (start + a, start + b)) ms)))"

definition mask_script :: "string \<Rightarrow> string option" where
  "mask_script script =
     Option.bind (mask_script_loop script (word_ranges script)
         \<lparr>mc_p_program = False, mc_sshpass = False, mc_next = Plain\<rparr> [])
       (replace_marked script)"

fun mask_args_loop :: "nat list \<Rightarrow> nat \<Rightarrow> string list \<Rightarrow> mask_context \<Rightarrow> string list option" where
  "mask_args_loop scripts i [] ctx = Some []"
| "mask_args_loop scripts i (arg # args) ctx =
     (if i \<in> set scripts then
        Option.bind (mask_script arg) (\<lambda>m.
        Option.bind (mask_args_loop scripts (i + 1) args (ctx\<lparr>mc_next := Plain\<rparr>)) (\<lambda>ms. Some (m # ms)))
      else
        Option.bind (mark_word arg ctx (i > 0)) (\<lambda>(ctx, marks).
        Option.bind (replace_marked arg marks) (\<lambda>m.
        Option.bind (mask_args_loop scripts (i + 1) args ctx) (\<lambda>ms. Some (m # ms)))))"

definition mask_args :: "string \<Rightarrow> string list \<Rightarrow> string list option" where
  "mask_args exe args =
     mask_args_loop (script_arguments (basename exe) args) 0 args
       \<lparr>mc_p_program = basename exe \<in> set P_PROGRAMS, mc_sshpass = (basename exe = ''sshpass''), mc_next = Plain\<rparr>"

subsection \<open>Capping\<close>

fun cap_args_loop :: "nat \<Rightarrow> nat \<Rightarrow> string list \<Rightarrow> string list \<Rightarrow> string list \<times> bool" where
  "cap_args_loop n_args used kept [] = (kept, length kept < n_args)"
| "cap_args_loop n_args used kept (arg # args) =
     (if length kept = ALARM_ARGS then (kept, True)
      else
        let extra = length arg + (if kept = [] then 0 else 1) in
        if used + extra \<le> ALARM_ARGS_BYTES then cap_args_loop n_args (used + extra) (kept @ [arg]) args
        else
          ((if kept = [] then [take (floor_boundary arg ALARM_ARGS_BYTES) arg] else kept), True))"

definition cap_args :: "string list \<Rightarrow> string list \<times> bool" where
  "cap_args args = cap_args_loop (length args) 0 [] args"

section \<open>Marks lie on character boundaries\<close>

definition mark_ok :: "string \<Rightarrow> nat \<times> nat \<Rightarrow> bool" where
  "mark_ok w m \<longleftrightarrow> (case m of (a, b) \<Rightarrow>
     a \<le> b \<and> b \<le> length w \<and> is_char_boundary w a \<and> is_char_boundary w b)"

lemma mark_ok_pair [simp]:
  "mark_ok w (a, b) \<longleftrightarrow> a \<le> b \<and> b \<le> length w \<and> is_char_boundary w a \<and> is_char_boundary w b"
  by (simp add: mark_ok_def)

abbreviation marks_ok :: "string \<Rightarrow> marks \<Rightarrow> bool" where
  "marks_ok w \<equiv> list_all (mark_ok w)"

lemma slice_ok: "mark_ok w (a, b) \<Longrightarrow> str_slice w a b = Some (take (b - a) (drop a w))"
  by (simp add: mark_ok_def str_slice_def)

lemma find_byte_boundary:
  assumes "find_byte P w = Some i" "\<And>c. P c \<Longrightarrow> byte c < 128"
  shows "i < length w \<and> is_char_boundary w i \<and> byte (w ! i) < 128"
  using find_byte_Some [OF assms(1)] assms(2) boundary_at_ascii by blast

lemma rfind_byte_boundary:
  assumes "rfind_byte P w = Some i" "\<And>c. P c \<Longrightarrow> byte c < 128"
  shows "i < length w \<and> is_char_boundary w i \<and> byte (w ! i) < 128"
  using rfind_byte_Some [OF assms(1)] assms(2) boundary_at_ascii by blast

text \<open>Boundaries of a suffix are boundaries of the word.\<close>

lemma boundary_drop:
  "is_char_boundary w k \<Longrightarrow> k \<le> length w \<Longrightarrow> is_char_boundary (drop k w) i \<Longrightarrow> is_char_boundary w (k + i)"
  by (auto simp: is_char_boundary_def)

lemma lower_ascii: "byte (to_ascii_lower c) < 128 \<longleftrightarrow> byte c < 128"
  by (auto simp: to_ascii_lower_def is_ascii_uppercase_def)

text \<open>A word whose lower-cased form starts with an ASCII prefix has a boundary after it.\<close>

lemma boundary_after_prefix:
  assumes "valid_utf8 w" "starts_with (to_ascii_lowercase w) p" "list_all (\<lambda>c. byte c < 128) p"
  shows "length p \<le> length w \<and> is_char_boundary w (length p)"
proof (cases p rule: rev_cases)
  case (snoc p' c)
  have take: "take (length p) (to_ascii_lowercase w) = p" using assms(2) by (simp add: starts_with_def)
  then have len: "length p \<le> length w"
    by (metis length_take length_to_ascii_lowercase min.cobounded1 min_def)
  have i: "length p' < length w" using len snoc by simp
  have "to_ascii_lowercase w ! length p' = p ! length p'" using take snoc by (metis length_append_singleton lessI nth_take)
  then have "to_ascii_lower (w ! length p') = c" using i snoc by (simp add: to_ascii_lowercase_def nth_append)
  then have "byte (w ! length p') < 128" using assms(3) snoc lower_ascii by (auto simp: list_all_iff)
  from boundary_after_ascii [OF assms(1) i this] len show ?thesis by (simp add: snoc)
qed simp

lemma mark_user_password_ok:
  assumes "valid_utf8 w" "is_char_boundary w k" "k \<le> length w" "marks_ok w ms"
  shows "marks_ok w (mark_user_password (drop k w) k ms)"
proof (cases "find_byte (\<lambda>c. c = CHR '':'') (drop k w)")
  case (Some i)
  from find_byte_boundary [OF Some] have i: "i < length (drop k w)" "byte (drop k w ! i) < 128" by auto
  have "valid_utf8 (drop k w)" using valid_utf8_split [OF assms(1,2,3)] by simp
  from boundary_drop [OF assms(2,3) boundary_after_ascii [OF this i]] have "is_char_boundary w (k + i + 1)" by simp
  then show ?thesis using Some assms i by (auto simp: mark_user_password_def mark_ok_def)
qed (use assms in \<open>simp add: mark_user_password_def\<close>)

lemma flag_value_ok:
  assumes "valid_utf8 w" "rest = drop k (to_ascii_lowercase w)" "k \<le> length w" "marks_ok w ms"
  shows "\<exists>ctx' ms'. flag_value w rest k sfx ctx ms = Some (ctx', ms') \<and> marks_ok w ms'"
proof (cases "find_byte (\<lambda>c. c = CHR ''='') rest")
  case None
  then show ?thesis using assms by (simp add: flag_value_def)
next
  case (Some eq)
  from find_byte_boundary [OF Some] have eq: "eq < length rest" "is_char_boundary rest eq" "byte (rest ! eq) < 128" by auto
  have i: "k + eq < length w" using eq assms(2,3) by simp
  have "byte (w ! (k + eq)) < 128"
    using eq(3) assms(2,3) i by (simp add: to_ascii_lowercase_def lower_ascii drop_map)
  from boundary_after_ascii [OF assms(1) i this] have "mark_ok w (k + eq + 1, length w)" if "k + eq + 1 < length w"
    using that by (simp add: mark_ok_def)
  moreover have "str_slice rest 0 eq = Some (take eq rest)" using eq by (simp add: str_slice_def)
  ultimately show ?thesis using Some assms by (simp add: flag_value_def)
qed

lemma mark_flag_ok:
  assumes "valid_utf8 w" "marks_ok w ms"
  shows "\<exists>ctx' ms'. mark_flag w (ctx, ms) = Some (ctx', ms') \<and> marks_ok w ms'"
proof -
  let ?l = "to_ascii_lowercase w"
  have len: "length p \<le> length w" if "starts_with ?l p" "list_all (\<lambda>c. byte c < 128) p" for p
    using boundary_after_prefix [OF assms(1) that] by simp
  show ?thesis
  proof (cases "starts_with ?l ''--''")
    case True
    then show ?thesis using flag_value_ok [OF assms(1) refl _ assms(2), of 2] len [OF True]
      by (simp add: mark_flag_def strip_prefix_def eval_nat_numeral)
  next
    case False
    then show ?thesis
      using flag_value_ok [OF assms(1) refl _ assms(2), of 1] len [of "''-''"] assms(2)
      by (cases "starts_with ?l ''-''") (simp_all add: mark_flag_def strip_prefix_def)
  qed
qed

lemma mark_user_ok:
  assumes "valid_utf8 w" "marks_ok w ms"
  shows "\<exists>ctx' ms'. mark_user w (ctx, ms) = Some (ctx', ms') \<and> marks_ok w ms'"
proof -
  let ?l = "to_ascii_lowercase w"
  have slice: "str_slice w (length p) (length w) = Some (drop (length p) w) \<and>
      marks_ok w (mark_user_password (drop (length p) w) (length p) ms)"
    if "starts_with ?l p" "list_all (\<lambda>c. byte c < 128) p" for p
    using boundary_after_prefix [OF assms(1) that] mark_user_password_ok [OF assms(1) _ _ assms(2)]
    by (simp add: str_slice_def)
  show ?thesis
    using slice [of "''--user=''"] slice [of "''--proxy-user=''"] slice [of "''-u''"] assms(2)
    by (auto simp: mark_user_def Let_def eval_nat_numeral)
qed

lemma boundary_spaces:
  assumes "valid_utf8 w" "is_char_boundary w a"
  shows "is_char_boundary w (a + length (takeWhile (\<lambda>c. c = CHR '' '') (drop a w)))"
proof (cases "length (takeWhile (\<lambda>c. c = CHR '' '') (drop a w))")
  case 0
  then show ?thesis using assms by simp
next
  case (Suc n)
  let ?t = "takeWhile (\<lambda>c. c = CHR '' '') (drop a w)"
  have n: "n < length ?t" using Suc by simp
  then have "?t ! n \<in> set ?t" by (rule nth_mem)
  then have "?t ! n = CHR '' ''" by (rule set_takeWhileD [THEN conjunct2])
  moreover have "?t ! n = w ! (a + n)" and len: "a + n < length w"
    using takeWhile_nth [OF n] n length_takeWhile_le [of "\<lambda>c. c = CHR '' ''" "drop a w"] by auto
  ultimately have "byte (w ! (a + n)) < 128" by simp
  from boundary_after_ascii [OF assms(1) len this] Suc show ?thesis by simp
qed

lemma mark_header_ok:
  assumes "valid_utf8 w" "marks_ok w ms"
  shows "\<exists>ms'. mark_header w (header_at w) ms = Some ms' \<and> marks_ok w ms'"
proof -
  let ?k = "header_at w"
  have k: "?k \<le> length w" "is_char_boundary w ?k"
    using boundary_after_prefix [OF assms(1), of "''--header=''"] boundary_after_prefix [OF assms(1), of "''-h''"]
    by (auto simp: header_at_def Let_def eval_nat_numeral)
  then have slice: "str_slice w ?k (length w) = Some (drop ?k w)" by (simp add: str_slice_def)
  show ?thesis
  proof (cases "find_byte (\<lambda>c. c = CHR '':'') (drop ?k w)")
    case None
    then show ?thesis using slice assms(2) by (simp add: mark_header_def)
  next
    case (Some i)
    from find_byte_boundary [OF Some] have i: "i < length (drop ?k w)" "is_char_boundary (drop ?k w) i"
      "byte (drop ?k w ! i) < 128" by auto
    let ?after = "?k + i + 1" and ?n = "length (takeWhile (\<lambda>c. c = CHR '' '') (drop (?k + i + 1) w))"
    have "is_char_boundary w ?after"
      using boundary_drop [OF k(2,1) boundary_after_ascii [OF _ i(1,3)]] valid_utf8_split [OF assms(1) k(2,1)] by simp
    from boundary_spaces [OF assms(1) this] have "mark_ok w (?after + ?n, length w)" if "?after + ?n < length w"
      using that by (simp add: mark_ok_def)
    then show ?thesis using slice Some assms(2) i(1,2)
      by (auto simp: mark_header_def str_slice_def Let_def)
  qed
qed

lemma match_indices_ascii:
  assumes "i \<in> set (match_indices w p)" "p \<noteq> []" "list_all (\<lambda>c. byte c < 128) p" "valid_utf8 w"
  shows "i + length p \<le> length w \<and> is_char_boundary w (i + length p) \<and>
    i < length w \<and> is_char_boundary w i \<and> take (length p) (drop i w) = p"
proof -
  have t: "take (length p) (drop i w) = p" and i: "i < length w" using assms(1) by (auto simp: match_indices_def starts_with_def)
  have len: "i + length p \<le> length w"
    using t i by (metis add.commute le_diff_conv2 length_drop length_take less_imp_le min.absorb_iff2 min.commute)
  have nth: "w ! (i + k) = p ! k" if "k < length p" for k
    using t that i by (metis nth_drop nth_take less_imp_le)
  obtain p' c where p: "p = p' @ [c]" using assms(2) by (cases p rule: rev_cases) auto
  have "w ! (i + length p') = c" using nth [of "length p'"] p by simp
  then have "byte (w ! (i + length p')) < 128" using assms(3) p by simp
  from boundary_after_ascii [OF assms(4) _ this] have "is_char_boundary w (i + length p)" using len p by simp
  moreover have "byte (w ! i) < 128" using nth [of 0] assms(2,3) by (cases p) auto
  then have "is_char_boundary w i" using i by (intro boundary_at_ascii)
  ultimately show ?thesis using len i t by simp
qed

lemma separator_ascii:
  "b \<in> set '',&;'' \<Longrightarrow> byte b < 128" "b \<in> set ''/?#'' \<Longrightarrow> byte b < 128"
  by auto

lemma mark_pair_ok:
  assumes "valid_utf8 w" "eq \<in> set (match_indices w ''='')" "marks_ok w ms"
  shows "\<exists>ms'. mark_pair w eq ms = Some ms' \<and> marks_ok w ms'"
proof -
  from match_indices_ascii [OF assms(2) _ _ assms(1)] have eq: "eq < length w" "is_char_boundary w eq" "is_char_boundary w (Suc eq)"
    by auto
  define k where "k = (case rfind_byte (\<lambda>b. b \<in> set ''=,&?;'') (take eq w) of None \<Rightarrow> 0 | Some i \<Rightarrow> i + 1)"
  have k: "k \<le> eq \<and> is_char_boundary w k"
  proof (cases "rfind_byte (\<lambda>b. b \<in> set ''=,&?;'') (take eq w)")
    case (Some i)
    from rfind_byte_Some [OF this] have "i < eq" "byte (w ! i) < 128" by auto
    with boundary_after_ascii [OF assms(1), of i] eq show ?thesis unfolding k_def using Some by simp
  qed (simp add: k_def)
  define e where "e = (case find_byte (\<lambda>b. b \<in> set '',&;'') (drop (eq + 1) w) of None \<Rightarrow> length w | Some i \<Rightarrow> eq + 1 + i)"
  have e: "e \<le> length w \<and> is_char_boundary w e"
  proof (cases "find_byte (\<lambda>b. b \<in> set '',&;'') (drop (eq + 1) w)")
    case (Some i)
    from find_byte_boundary [OF Some separator_ascii(1)]
    have "i < length (drop (eq + 1) w)" "is_char_boundary (drop (eq + 1) w) i" by blast+
    with boundary_drop [of w "eq + 1" i] eq show ?thesis unfolding e_def using Some by simp
  qed (simp add: e_def)
  have "str_slice w k eq = Some (take (eq - k) (drop k w))" using k eq by (simp add: str_slice_def)
  moreover have "mark_ok w (eq + 1, e)" if "e > eq + 1" using that e eq by (simp add: mark_ok_def)
  ultimately show ?thesis using assms(3)
    unfolding mark_pair_def Let_def k_def [symmetric] e_def [symmetric] by simp
qed

lemma mark_url_ok:
  assumes "valid_utf8 w" "i \<in> set (match_indices w ''://'')" "marks_ok w ms"
  shows "\<exists>ms'. mark_url w i ms = Some ms' \<and> marks_ok w ms'"
proof -
  let ?s = "i + 3"
  from match_indices_ascii [OF assms(2) _ _ assms(1)] have s: "?s \<le> length w" "is_char_boundary w ?s"
    by (auto simp: eval_nat_numeral)
  define e where "e = (case find_byte (\<lambda>b. b \<in> set ''/?#'') (drop ?s w) of None \<Rightarrow> length w | Some i \<Rightarrow> ?s + i)"
  have e: "?s \<le> e" "e \<le> length w" "is_char_boundary w e"
  proof -
    show "?s \<le> e" using s by (auto simp: e_def split: option.splits)
    show "e \<le> length w" using find_byte_Some [of "\<lambda>b. b \<in> set ''/?#''" "drop ?s w"] s
      by (auto simp: e_def split: option.splits)
    show "is_char_boundary w e"
      using find_byte_boundary [OF _ separator_ascii(2), where w = "drop ?s w"] boundary_drop [OF s(2,1)]
      unfolding e_def by (auto split: option.split)
  qed
  let ?a = "take (e - ?s) (drop ?s w)"
  have slices: "str_slice w ?s (length w) = Some (drop ?s w)" "str_slice w ?s e = Some ?a"
    using s e by (simp_all add: str_slice_def)
  have url: "mark_url w i ms = (case rfind_byte (\<lambda>b. b = CHR ''@'') ?a of
        None \<Rightarrow> Some ms
      | Some at \<Rightarrow> Option.bind (str_slice ?a 0 at) (\<lambda>userinfo.
          Some (case find_byte (\<lambda>b. b = CHR '':'') userinfo of
            Some colon \<Rightarrow> if colon + 1 < at then ms @ [(?s + colon + 1, ?s + at)] else ms | None \<Rightarrow> ms)))"
    by (simp only: mark_url_def Let_def slices(1) Option.bind.simps e_def [symmetric] slices(2))
  have va: "valid_utf8 ?a" by (rule str_slice_valid [OF assms(1) slices(2)])
  show ?thesis
  proof (cases "rfind_byte (\<lambda>b. b = CHR ''@'') ?a")
    case None
    then show ?thesis using assms(3) by (simp add: url)
  next
    case (Some at)
    from rfind_byte_boundary [OF Some] have at: "at < length ?a" "is_char_boundary ?a at" by auto
    have at_w: "is_char_boundary w (?s + at)" "?s + at \<le> length w"
      using boundary_drop [OF s(2,1), of at] at e by (auto simp: is_char_boundary_def)
    have slice: "str_slice ?a 0 at = Some (take at ?a)" using at by (simp add: str_slice_def)
    show ?thesis
    proof (cases "find_byte (\<lambda>b. b = CHR '':'') (take at ?a)")
      case no: None
      then show ?thesis using assms(3) slice Some by (simp add: url)
    next
      case colon: (Some c)
      from find_byte_boundary [OF colon] have c: "c < at" "byte (?a ! c) < 128" using at by auto
      from boundary_after_ascii [OF va _ c(2)] c at have "is_char_boundary ?a (Suc c)" by simp
      then have "is_char_boundary w (?s + c + 1)"
        using boundary_drop [OF s(2,1), of "Suc c"] c at e by (auto simp: is_char_boundary_def)
      then have "mark_ok w (?s + c + 1, ?s + at)" if "c + 1 < at" using that at_w by (simp add: mark_ok_def)
      then show ?thesis using assms(3) slice Some colon by (simp add: url)
    qed
  qed
qed

lemma mark_all_ok:
  assumes "\<And>i ms. i \<in> set is \<Longrightarrow> marks_ok w ms \<Longrightarrow> \<exists>ms'. f i ms = Some ms' \<and> marks_ok w ms'"
  shows "marks_ok w ms \<Longrightarrow> \<exists>ms'. mark_all f is ms = Some ms' \<and> marks_ok w ms'"
  using assms by (induction "is" arbitrary: ms) fastforce+

lemma mark_pass_ok: "valid_utf8 w \<Longrightarrow> marks_ok w ms \<Longrightarrow> marks_ok w (mark_pass w ms)"
  using boundary_after_ascii [of w 4]
  by (auto simp: mark_pass_def mark_ok_def starts_with_def eval_nat_numeral take_Suc_conv_app_nth)

lemma mark_p_value_ok: "valid_utf8 w \<Longrightarrow> \<exists>ctx' ms. mark_p_value w ctx = (ctx', ms) \<and> marks_ok w ms"
  using boundary_after_ascii [of w 1]
  by (auto simp: mark_p_value_def mark_ok_def starts_with_def eval_nat_numeral take_Suc_conv_app_nth)

lemma mark_word_ok:
  assumes "valid_utf8 w"
  shows "\<exists>ctx' ms. mark_word w ctx mbp = Some (ctx', ms) \<and> marks_ok w ms"
proof (cases "mc_next ctx")
  case Plain
  let ?ctx = "ctx\<lparr>mc_next := Plain\<rparr>"
  obtain c1 m1 where 1: "mark_p_value w ?ctx = (c1, m1)" "marks_ok w m1" using mark_p_value_ok [OF assms] by blast
  obtain c2 m2 where 2: "mark_flag w (c1, m1) = Some (c2, m2)" "marks_ok w m2" using mark_flag_ok [OF assms 1(2)] by blast
  obtain c3 m3 where 3: "mark_user w (c2, m2) = Some (c3, m3)" "marks_ok w m3" using mark_user_ok [OF assms 2(2)] by blast
  obtain m4 where 4: "mark_header w (header_at w) m3 = Some m4" "marks_ok w m4" using mark_header_ok [OF assms 3(2)] by blast
  obtain m5 where 5: "mark_pairs w (mark_pass w m4) = Some m5" "marks_ok w m5"
    using mark_all_ok [of "match_indices w ''=''" w "mark_pair w", OF mark_pair_ok [OF assms] mark_pass_ok [OF assms 4(2)]]
    unfolding mark_pairs_def by blast
  obtain m6 where 6: "mark_urls w m5 = Some m6" "marks_ok w m6"
    using mark_all_ok [of "match_indices w ''://''" w "mark_url w", OF mark_url_ok [OF assms] 5(2)]
    unfolding mark_urls_def by blast
  show ?thesis using 1 2 3 4 5 6 Plain by (simp add: mark_word_def)
next
  case Secret
  then show ?thesis by (simp add: mark_word_def mark_ok_def)
next
  case UserPassword
  then show ?thesis using mark_user_password_ok [OF assms, of 0 "[]"] by (simp add: mark_word_def)
qed

section \<open>Replacement\<close>

text \<open>The reference: walk the bytes, copy the unmarked ones and write one mask where a marked run
  begins.\<close>

fun mask_ref :: "(nat \<Rightarrow> bool) \<Rightarrow> nat \<Rightarrow> bool \<Rightarrow> string \<Rightarrow> string" where
  "mask_ref P i inside [] = []"
| "mask_ref P i inside (c # s) =
     (if P i then (if inside then [] else MASK) @ mask_ref P (Suc i) True s
      else c # mask_ref P (Suc i) False s)"

definition covered :: "marks \<Rightarrow> nat \<Rightarrow> bool" where
  "covered ms i \<longleftrightarrow> list_ex (\<lambda>(a, b). a \<le> i \<and> i < b) ms"

lemma covered_simps [simp]:
  "covered [] i \<longleftrightarrow> False" "covered ((a, b) # ms) i \<longleftrightarrow> a \<le> i \<and> i < b \<or> covered ms i"
  by (simp_all add: covered_def)

lemma mask_ref_cong:
  "(\<And>j. i \<le> j \<Longrightarrow> j < i + length s \<Longrightarrow> P j = Q j) \<Longrightarrow> mask_ref P i b s = mask_ref Q i b s"
  by (induction P i b s rule: mask_ref.induct) auto

lemma mask_ref_copy:
  "(\<And>j. i \<le> j \<Longrightarrow> j < i + n \<Longrightarrow> \<not> P j) \<Longrightarrow> n \<le> length s \<Longrightarrow>
   mask_ref P i False s = take n s @ mask_ref P (i + n) False (drop n s)"
proof (induction n arbitrary: i s)
  case (Suc n)
  then obtain c s' where s: "s = c # s'" by (cases s) auto
  have "mask_ref P (Suc i) False s' = take n s' @ mask_ref P (Suc i + n) False (drop n s')"
    using Suc.prems s by (intro Suc.IH) auto
  then show ?case using Suc.prems(1) [of i] s by simp
qed simp

lemma mask_ref_inside:
  "(\<And>j. i \<le> j \<Longrightarrow> j < i + n \<Longrightarrow> P j) \<Longrightarrow> n \<le> length s \<Longrightarrow>
   mask_ref P i True s = mask_ref P (i + n) True (drop n s)"
proof (induction n arbitrary: i s)
  case (Suc n)
  then obtain c s' where s: "s = c # s'" by (cases s) auto
  have "mask_ref P (Suc i) True s' = mask_ref P (Suc i + n) True (drop n s')"
    using Suc.prems s by (intro Suc.IH) auto
  then show ?case using Suc.prems(1) [of i] s by simp
qed simp

lemma mask_ref_run:
  assumes "\<And>j. i \<le> j \<Longrightarrow> j < i + n \<Longrightarrow> P j" "n \<le> length s" "0 < n" "\<not> P (i + n) \<or> length s = n"
  shows "mask_ref P i False s = MASK @ mask_ref P (i + n) False (drop n s)"
proof -
  obtain c s' where s: "s = c # s'" using assms(2,3) by (cases s) auto
  have "mask_ref P i False s = MASK @ mask_ref P i True s" using s assms(1) [of i] assms(3) by simp
  also have "mask_ref P i True s = mask_ref P (i + n) True (drop n s)" using assms(1,2) by (rule mask_ref_inside)
  also have "\<dots> = mask_ref P (i + n) False (drop n s)" using assms(4) by (cases "drop n s") auto
  finally show ?thesis .
qed

text \<open>Runs in order, each starting after the end of the one before.\<close>

fun runs_from :: "nat \<Rightarrow> marks \<Rightarrow> bool" where
  "runs_from p [] \<longleftrightarrow> True"
| "runs_from p ((s, e) # rs) \<longleftrightarrow> p \<le> s \<and> s \<le> e \<and> runs_from (Suc e) rs"

lemma merge_runs_ok:
  assumes "sorted (map fst ms)" "marks_ok w ms"
  shows "marks_ok w (merge_runs ms) \<and> covered (merge_runs ms) = covered ms \<and>
    (p \<le> fst (hd ms) \<or> ms = [] \<longrightarrow> runs_from p (merge_runs ms)) \<and>
    (list_all (\<lambda>(a, b). a < b) ms \<longrightarrow> list_all (\<lambda>(a, b). a < b) (merge_runs ms))"
  using assms
proof (induction ms arbitrary: p rule: merge_runs.induct)
  case (1 s e s' e' ms)
  have sorted: "s \<le> s'" "sorted (map fst ((s', e') # ms))" "sorted (map fst ((s, max e e') # ms))"
    using "1.prems"(1) by auto
  have ok: "marks_ok w ((s', e') # ms)" "marks_ok w ((s, max e e') # ms)"
    using "1.prems"(2) by (auto simp: max_def)
  show ?case
  proof (cases "s' \<le> e")
    case True
    have "covered ((s, max e e') # ms) = covered ((s, e) # (s', e') # ms)" using sorted(1) True by (auto simp: fun_eq_iff)
    then show ?thesis using "1.IH"(1) [OF True sorted(3) ok(2), of p] True sorted(1) by auto
  next
    case False
    then show ?thesis
      using "1.IH"(2) [OF False sorted(2) ok(1), of "Suc e"] "1.prems"(2) by (auto simp: fun_eq_iff)
  qed
qed auto

lemma runs_from_covered: "runs_from p rs \<Longrightarrow> covered rs i \<Longrightarrow> p \<le> i"
  by (induction p rs rule: runs_from.induct) auto

lemma emit_runs_ok:
  assumes "marks_ok t rs" "runs_from pos rs" "pos \<le> length t" "is_char_boundary t pos"
  shows "\<exists>m. emit_runs t pos rs = Some m \<and> (valid_utf8 t \<longrightarrow> valid_utf8 m)"
  using assms
proof (induction rs arbitrary: pos)
  case Nil
  then have "str_slice t pos (length t) = Some (drop pos t)" by (simp add: str_slice_def)
  then show ?case using str_slice_valid [of t pos "length t"] by auto
next
  case (Cons r rs)
  obtain s e where r: "r = (s, e)" by (cases r)
  have "mark_ok t (pos, s)" using Cons.prems r by (auto simp: mark_ok_def)
  note a = slice_ok [OF this]
  have "runs_from e rs" using Cons.prems(2) r by (cases rs) auto
  then obtain m where m: "emit_runs t e rs = Some m" "valid_utf8 t \<longrightarrow> valid_utf8 m"
    using Cons.IH [of e] Cons.prems r by (auto simp: mark_ok_def)
  have "valid_utf8 MASK" by (simp add: MASK_def)
  then show ?case using a m r str_slice_valid [OF _ a] by (auto intro!: valid_utf8_append)
qed

lemma emit_runs_ref:
  assumes "marks_ok t rs" "runs_from pos rs" "pos \<le> length t" "is_char_boundary t pos"
    "list_all (\<lambda>(a, b). a < b) rs"
  shows "emit_runs t pos rs = Some (mask_ref (covered rs) pos False (drop pos t))"
  using assms
proof (induction rs arbitrary: pos)
  case Nil
  have "mask_ref (covered []) pos False (drop pos t) = drop pos t"
    using mask_ref_copy [of pos "length (drop pos t)" "covered []" "drop pos t"] by simp
  then show ?case using Nil by (simp add: str_slice_def del: covered_simps)
next
  case (Cons r rs)
  obtain s e where r: "r = (s, e)" by (cases r)
  from Cons.prems r have se: "pos \<le> s" "s < e" "e \<le> length t" "mark_ok t (s, e)" "mark_ok t (pos, s)" "runs_from (Suc e) rs"
    by (auto simp: mark_ok_def)
  have IH: "emit_runs t e rs = Some (mask_ref (covered rs) e False (drop e t))"
  proof -
    have "runs_from e rs" using se(6) by (cases rs) auto
    then show ?thesis using Cons.IH [of e] Cons.prems r se by auto
  qed
  let ?P = "covered ((s, e) # rs)"
  have before: "\<not> ?P j" if "j < s" for j using that runs_from_covered [OF se(6), of j] se by auto
  have at_e: "\<not> ?P e" using runs_from_covered [OF se(6), of e] by auto
  have "mask_ref ?P pos False (drop pos t) =
      take (s - pos) (drop pos t) @ mask_ref ?P s False (drop s t)"
    using mask_ref_copy [of pos "s - pos" ?P "drop pos t"] before se by auto
  also have "mask_ref ?P s False (drop s t) = MASK @ mask_ref ?P e False (drop e t)"
    using mask_ref_run [of s "e - s" ?P "drop s t"] at_e se by auto
  also have "mask_ref ?P e False (drop e t) = mask_ref (covered rs) e False (drop e t)"
    by (rule mask_ref_cong) auto
  finally show ?case using IH r slice_ok [OF se(5)] by simp
qed

lemma sorted_fst: "sorted (ms :: marks) \<Longrightarrow> sorted (map fst ms)"
  by (induction ms) (auto simp: less_eq_prod_def)

lemma sorted_marks_ok:
  assumes "marks_ok w ms"
  shows "sorted (map fst (sort ms))" "marks_ok w (sort ms)" "covered (sort ms) = covered ms"
  using assms by (auto intro!: sorted_fst simp: list_all_iff covered_def list_ex_iff fun_eq_iff)

lemma replace_marked_ok:
  assumes "marks_ok t ms"
  shows "\<exists>m. replace_marked t ms = Some m \<and> (valid_utf8 t \<longrightarrow> valid_utf8 m)"
proof -
  note s = sorted_marks_ok [OF assms]
  note m = merge_runs_ok [OF s(1,2), of 0]
  show ?thesis using emit_runs_ok [of t "merge_runs (sort ms)" 0] m by (auto simp: replace_marked_def)
qed

lemma replace_marked_ref:
  assumes "marks_ok t ms" "list_all (\<lambda>(a, b). a < b) ms"
  shows "replace_marked t ms = Some (mask_ref (covered ms) 0 False t)"
proof (cases "ms = []")
  case True
  then show ?thesis using mask_ref_copy [of 0 "length t" "covered []" t] by (simp add: replace_marked_def)
next
  case False
  note s = sorted_marks_ok [OF assms(1)]
  note m = merge_runs_ok [OF s(1,2), of 0]
  have "list_all (\<lambda>(a, b). a < b) (sort ms)" using assms(2) by (simp add: list_all_iff)
  with m s(3) show ?thesis using emit_runs_ref [of t "merge_runs (sort ms)" 0] False
    by (simp add: replace_marked_def)
qed

section \<open>Scripts and argument lists\<close>

lemma word_ranges_loop_ok:
  assumes "valid_utf8 t" "drop i t = bs" "i \<le> length t"
    "case start of None \<Rightarrow> is_char_boundary t i | Some s \<Rightarrow> s \<le> i \<and> is_char_boundary t s"
  shows "marks_ok t (word_ranges_loop i start bs)"
  using assms(2-)
proof (induction i start bs rule: word_ranges_loop.induct)
  case (1 i start)
  then have "i = length t" by simp
  then show ?case using 1 by (auto split: option.splits)
next
  case (2 i start b bs)
  have i: "i < length t" "t ! i = b" "drop (Suc i) t = bs"
    using "2.prems"(1) by (metis drop_all linorder_not_less list.distinct(1), metis nth_via_drop,
        metis drop_Suc list.sel(3) tl_drop)
  show ?case
  proof (cases "is_ascii_whitespace b")
    case True
    then have ascii: "byte (t ! i) < 128" using i by (auto simp: is_ascii_whitespace_def)
    note after = boundary_after_ascii [OF assms(1) i(1) ascii] and at = boundary_at_ascii [OF i(1) ascii]
    show ?thesis
      using 2 True i after at by (cases start) auto
  next
    case False
    then show ?thesis using 2 i by (cases start) auto
  qed
qed

lemma word_ranges_ok: "valid_utf8 t \<Longrightarrow> marks_ok t (word_ranges t)"
  unfolding word_ranges_def by (rule word_ranges_loop_ok) simp_all

lemma mark_ok_shift:
  assumes "mark_ok t (s, e)" "mark_ok (take (e - s) (drop s t)) (a, b)"
  shows "mark_ok t (s + a, s + b)"
proof -
  have "is_char_boundary t (s + i)" if "is_char_boundary (take (e - s) (drop s t)) i" "i \<le> e - s" for i
    using that assms(1) by (auto simp: is_char_boundary_def)
  then show ?thesis using assms by auto
qed

lemma mask_script_loop_ok:
  assumes "valid_utf8 t"
  shows "marks_ok t rs \<Longrightarrow> marks_ok t ms \<Longrightarrow> \<exists>ms'. mask_script_loop t rs ctx ms = Some ms' \<and> marks_ok t ms'"
proof (induction rs arbitrary: ctx ms)
  case (Cons r rs)
  obtain s e where r: "r = (s, e)" by (cases r)
  have ok: "mark_ok t (s, e)" using Cons.prems(1) r by simp
  let ?w = "take (e - s) (drop s t)"
  note slice = slice_ok [OF ok]
  obtain ctx' m where m: "mark_word ?w ctx True = Some (ctx', m)" "marks_ok ?w m"
    using mark_word_ok [OF str_slice_valid [OF assms slice]] by blast
  have "marks_ok t (map (\<lambda>(a, b). (s + a, s + b)) m)"
    using m(2) mark_ok_shift [OF ok] by (auto simp: list_all_iff simp del: mark_ok_pair)
  then show ?case using Cons slice m r by simp
qed simp

lemma mask_script_ok: "valid_utf8 t \<Longrightarrow> \<exists>m. mask_script t = Some m \<and> valid_utf8 m"
proof -
  assume t: "valid_utf8 t"
  let ?ctx = "\<lparr>mc_p_program = False, mc_sshpass = False, mc_next = Plain\<rparr>"
  obtain ms where ms: "mask_script_loop t (word_ranges t) ?ctx [] = Some ms" "marks_ok t ms"
    using mask_script_loop_ok [OF t word_ranges_ok [OF t], of "[]" ?ctx] by auto
  from replace_marked_ok [OF ms(2)] ms(1) t show ?thesis by (auto simp: mask_script_def)
qed

lemma mask_args_loop_ok:
  "list_all valid_utf8 args \<Longrightarrow>
   \<exists>ms. mask_args_loop scripts i args ctx = Some ms \<and> length ms = length args \<and> list_all valid_utf8 ms"
proof (induction args arbitrary: i ctx)
  case (Cons a args)
  show ?case
  proof (cases "i \<in> set scripts")
    case True
    obtain m where "mask_script a = Some m" "valid_utf8 m" using mask_script_ok [of a] Cons.prems by auto
    moreover obtain ms where "mask_args_loop scripts (Suc i) args (ctx\<lparr>mc_next := Plain\<rparr>) = Some ms"
      "length ms = length args" "list_all valid_utf8 ms" using Cons by auto
    ultimately show ?thesis using True by simp
  next
    case False
    obtain ctx' marks where w: "mark_word a ctx (0 < i) = Some (ctx', marks)" "marks_ok a marks"
      using mark_word_ok [of a] Cons.prems by fastforce
    obtain m where m: "replace_marked a marks = Some m" "valid_utf8 m"
      using replace_marked_ok [OF w(2)] Cons.prems by auto
    obtain ms where "mask_args_loop scripts (Suc i) args ctx' = Some ms" "length ms = length args" "list_all valid_utf8 ms"
      using Cons by auto
    then show ?thesis using False w m by simp
  qed
qed simp

section \<open>Capping\<close>

definition joined_bytes :: "string list \<Rightarrow> nat" where
  "joined_bytes args = sum_list (map length args) + (length args - 1)"

lemma joined_bytes_snoc:
  "joined_bytes (kept @ [arg]) = joined_bytes kept + length arg + (if kept = [] then 0 else 1)"
  by (cases kept) (auto simp: joined_bytes_def)

lemma cap_args_loop_spec:
  assumes "length kept \<le> ALARM_ARGS" "joined_bytes kept \<le> ALARM_ARGS_BYTES" "n_args = length kept + length args"
  shows "case cap_args_loop n_args (joined_bytes kept) kept args of (out, was_cut) \<Rightarrow>
    length out \<le> ALARM_ARGS \<and> joined_bytes out \<le> ALARM_ARGS_BYTES \<and>
    (if was_cut then out \<noteq> kept @ args \<and>
       (strict_prefix out (kept @ args) \<or>
        kept = [] \<and> (\<exists>a rest. args = a # rest \<and> out = [take (floor_boundary a ALARM_ARGS_BYTES) a]))
     else out = kept @ args)"
  using assms
proof (induction args arbitrary: kept)
  case (Cons a args)
  show ?case
  proof (cases "length kept = ALARM_ARGS")
    case True
    then show ?thesis using Cons.prems by (auto simp: strict_prefix_def)
  next
    case room: False
    show ?thesis
    proof (cases "joined_bytes kept + (length a + (if kept = [] then 0 else 1)) \<le> ALARM_ARGS_BYTES")
      case True
      have used: "joined_bytes kept + (length a + (if kept = [] then 0 else 1)) = joined_bytes (kept @ [a])"
        by (simp add: joined_bytes_snoc)
      have "cap_args_loop n_args (joined_bytes kept) kept (a # args) = cap_args_loop n_args (joined_bytes (kept @ [a])) (kept @ [a]) args"
        using True room unfolding used [symmetric] by (simp add: Let_def)
      then show ?thesis using Cons.IH [of "kept @ [a]"] Cons.prems room True used
        by (auto split: prod.splits if_splits)
    next
      case False
      let ?c = "take (floor_boundary a ALARM_ARGS_BYTES) a"
      have "joined_bytes [?c] \<le> ALARM_ARGS_BYTES"
        using floor_boundary_le [of a ALARM_ARGS_BYTES] by (simp add: joined_bytes_def)
      moreover have "?c \<noteq> a" if "kept = []"
      proof -
        have "length a > ALARM_ARGS_BYTES" using False that by (simp add: joined_bytes_def)
        then have "length ?c < length a" using floor_boundary_le [of a ALARM_ARGS_BYTES] by simp
        then show ?thesis by auto
      qed
      ultimately show ?thesis using Cons.prems False room
        by (cases kept) (auto simp: Let_def ALARM_ARGS_def strict_prefix_def)
    qed
  qed
qed (auto)

section \<open>A secret flag\<close>

text \<open>A secret flag, without its value: the part of a word up to its first equals sign.\<close>

definition secret_flag :: "string \<Rightarrow> bool" where
  "secret_flag flag \<longleftrightarrow> CHR ''='' \<notin> set flag \<and>
     (case strip_prefix ''--'' (to_ascii_lowercase flag) of
        Some name \<Rightarrow> list_ex (ends_with name) LONG_FLAG_SUFFIXES
      | None \<Rightarrow>
          (case strip_prefix ''-'' (to_ascii_lowercase flag) of
             Some name \<Rightarrow> list_ex (ends_with name) SHORT_FLAG_SUFFIXES
           | None \<Rightarrow> False))"


definition from_mark :: "nat \<Rightarrow> nat \<times> nat \<Rightarrow> bool" where
  "from_mark k m \<longleftrightarrow> (case m of (a, b) \<Rightarrow> k \<le> a \<and> a < b)"
























text \<open>Only a user flag makes the next word a \<open>user:password\<close>.\<close>

definition user_flag :: "string \<Rightarrow> bool" where
  "user_flag w \<longleftrightarrow> to_ascii_lowercase w \<in> {''-u'', ''--user'', ''--proxy-user''}"







lemmas alarm_mask_evals [evals] =
  ALARM_ARGS_def ALARM_ARGS_BYTES_def MASK_def P_PROGRAMS_def SHELLS_def LONG_FLAG_SUFFIXES_def
  SHORT_FLAG_SUFFIXES_def PAIR_SUFFIXES_def SECRET_HEADERS_def HEADER_SUFFIXES_def
  SCRIPT_SHELLS_def SHELL_OPTIONS_WITH_VALUE_def is_c_flag_def exe_is_shell_def word_scripts_def
  script_arguments_def flag_value_def mark_user_password_def header_name_byte_def
  mark_header_def match_indices_def mark_pair_def mark_url_def mark_pairs_def mark_urls_def
  mark_p_value_def mark_flag_def mark_user_def header_at_def mark_pass_def program_name_def
  note_program_def mark_word_def replace_marked_def word_ranges_def mask_script_def
  mask_args_def cap_args_def mark_ok_def covered_def joined_bytes_def secret_flag_def
  from_mark_def user_flag_def shell_script.simps

section \<open>Properties\<close>

text \<open>C14: masking never panics and keeps the shape of the command line: for every argument list of
  Rust strings there is a result with as many arguments, each again valid UTF-8.\<close>

theorem mask_args_total:
  assumes "list_all valid_utf8 args"
  shows "\<exists>ms. mask_args exe args = Some ms \<and> length ms = length args \<and> list_all valid_utf8 ms"
  unfolding mask_args_def by (rule mask_args_loop_ok [OF assms])

theorem mask_args_total_witness:
  "\<exists>ms. mask_args ''/usr/bin/mysql'' [''mysql'', ''-psecret''] = Some ms \<and> length ms = 2 \<and> list_all valid_utf8 ms"
  using mask_args_total [of "[''mysql'', ''-psecret'']" "''/usr/bin/mysql''"] by (simp add: numeral_2_eq_2)

text \<open>C16: replacing marked ranges is the bytewise reference: sorting, merging and slicing the ranges
  gives the text with every unmarked byte kept in order and one mask per maximal marked run.\<close>

theorem replace_marked_is_reference:
  assumes "list_all (mark_ok t) ms" and "list_all (\<lambda>(a, b). a < b) ms"
  shows "replace_marked t ms = Some (mask_ref (covered ms) 0 False t)"
  by (rule replace_marked_ref [OF assms])

theorem replace_marked_is_reference_witness:
  "replace_marked ''abcdef'' [(3, 5), (1, 4)] = Some (''a'' @ MASK @ ''f'')"
  using replace_marked_is_reference [of "''abcdef''" "[(3, 5), (1, 4)]"]
  by (simp add: is_char_boundary_def is_continuation_def eval_nat_numeral)



text \<open>Capping gives arguments within both limits, at most 256 of them and at most 4096 bytes
  joined by spaces. They are all arguments when nothing was cut; otherwise a proper prefix of whole
  arguments, or the first argument alone, cut on a character boundary.\<close>

theorem cap_args_bounded:
  "case cap_args args of (kept, was_cut) \<Rightarrow>
     length kept \<le> ALARM_ARGS \<and> joined_bytes kept \<le> ALARM_ARGS_BYTES \<and>
     (if was_cut then kept \<noteq> args \<and>
        (strict_prefix kept args \<or>
         (\<exists>a rest. args = a # rest \<and> kept = [take (floor_boundary a ALARM_ARGS_BYTES) a]))
      else kept = args)"
  using cap_args_loop_spec [of "[]" "length args" args]
  by (simp add: cap_args_def joined_bytes_def split: prod.splits if_splits)

end
