(* ===== verification/Alarms.thy ===== *)
theory Alarms
  imports Alarm_Mask Contracts
begin

text \<open>
  Alarm documents: \<open>openvibes-core/src/alarm.rs\<close>. The derived serializer is a parameter: a document
  is refused when it does not serialize or its serialization is too long.
\<close>

section \<open>Definitions\<close>

definition ALARMS_PER_BATCH :: nat where "ALARMS_PER_BATCH = 100"
definition ALARM_BATCH_BYTES :: nat where "ALARM_BATCH_BYTES = 262144"
definition ALARM_BYTES :: nat where "ALARM_BYTES = 65536"
definition ALARM_ANCESTORS :: nat where "ALARM_ANCESTORS = 5"

record alarm_process =
  ap_pid :: nat
  ap_exe :: string
  ap_args :: "string list"
  ap_cwd :: "string option"
  ap_uid :: nat
  ap_euid :: nat
  ap_truncated :: bool
  ap_seeded :: bool

record alarm =
  al_detection :: "detection option"
  al_alarm_id :: ident
  al_rule_set_id :: ident
  al_rule_set_version :: nat
  al_rule_id :: ident
  al_rule_version :: nat
  al_severity :: severity
  al_confidence :: confidence
  al_message :: string
  al_first_seen_unix_ms :: int
  al_last_seen_unix_ms :: int
  al_count :: nat
  al_process :: alarm_process
  al_ancestors :: "alarm_process list"

record alarm_batch =
  ab_schema_version :: schema_version
  ab_agent_id :: ident
  ab_dropped_total :: nat
  ab_alarms :: "alarm list"

definition alarm_process_validate :: "alarm_process \<Rightarrow> resource_limits \<Rightarrow> validation" where
  "alarm_process_validate p l = checks
     [validate_string ''process.exe'' (ap_exe p) l,
      (case ap_cwd p of None \<Rightarrow> Ok () | Some cwd \<Rightarrow> validate_string ''process.cwd'' cwd l),
      require (length (ap_args p) \<le> ALARM_ARGS) (ValidationError ''process.args'' ''holds too many arguments''),
      require (\<not> list_ex (\<lambda>arg. NUL \<in> set arg) (ap_args p)) (ValidationError ''process.args'' ''contains U+0000''),
      require (sum_list (map length (ap_args p)) + (length (ap_args p) - 1) \<le> ALARM_ARGS_BYTES)
        (ValidationError ''process.args'' ''exceeds 4096 bytes joined'')]"

text \<open>What the validators need of \<open>serde_json\<close>: the serialized length of a detection, an alarm and a
  batch, or \<open>None\<close> when it fails.\<close>

record alarm_json =
  aj_detection :: "detection \<Rightarrow> nat option"
  aj_alarm :: "alarm \<Rightarrow> nat option"
  aj_batch :: "alarm_batch \<Rightarrow> nat option"

definition alarm_validate :: "alarm_json \<Rightarrow> alarm \<Rightarrow> resource_limits \<Rightarrow> validation" where
  "alarm_validate J a l = checks
     ([(case al_detection a of None \<Rightarrow> Ok () | Some d \<Rightarrow> detection_validate (aj_detection J) d),
       validate_identifier ''alarm_id'' (as_str (al_alarm_id a)) l,
       validate_identifier ''rule_set_id'' (as_str (al_rule_set_id a)) l,
       validate_identifier ''rule_id'' (as_str (al_rule_id a)) l,
       require (\<not> (al_rule_set_version a = 0 \<or> al_rule_version a = 0)) (ValidationError ''rule_version'' ''must be positive''),
       validate_string ''message'' (al_message a) l,
       validate_unix_ms ''first_seen_unix_ms'' (al_first_seen_unix_ms a),
       require (\<not> al_last_seen_unix_ms a < al_first_seen_unix_ms a)
         (ValidationError ''last_seen_unix_ms'' ''is before first_seen_unix_ms''),
       require (\<not> (al_count a = 0 \<or> al_count a > i32_max)) (ValidationError ''count'' ''must be 1 to 2^31-1''),
       require (length (al_ancestors a) \<le> ALARM_ANCESTORS) (ValidationError ''ancestors'' ''holds more than 5 processes''),
       alarm_process_validate (al_process a) l] @
      map (\<lambda>p. alarm_process_validate p l) (al_ancestors a) @
      [(case aj_alarm J a of
          None \<Rightarrow> Err (ValidationError ''alarm'' ''does not serialize'')
        | Some n \<Rightarrow> require (n \<le> ALARM_BYTES) (ValidationError ''alarm'' ''exceeds 64 KiB serialized''))])"

definition alarm_batch_validate :: "alarm_json \<Rightarrow> alarm_batch \<Rightarrow> resource_limits \<Rightarrow> validation" where
  "alarm_batch_validate J b l = checks
     ([validate_version (ab_schema_version b),
       validate_identifier ''agent_id'' (as_str (ab_agent_id b)) l,
       require (int (ab_dropped_total b) \<le> i64_max) (ValidationError ''dropped_total'' ''exceeds 2^63-1''),
       require (\<not> (ab_alarms b = [] \<or> length (ab_alarms b) > ALARMS_PER_BATCH))
         (ValidationError ''alarms'' ''must hold 1 to 100 alarms'')] @
      map (\<lambda>a. alarm_validate J a l) (ab_alarms b) @
      [(case aj_batch J b of
          None \<Rightarrow> Err (ValidationError ''batch'' ''does not serialize'')
        | Some n \<Rightarrow> require (n \<le> ALARM_BATCH_BYTES) (ValidationError ''batch'' ''exceeds 256 KiB serialized''))])"

lemmas alarms_evals [evals] =
  ALARMS_PER_BATCH_def ALARM_BATCH_BYTES_def ALARM_BYTES_def ALARM_ANCESTORS_def
  alarm_process_validate_def alarm_validate_def alarm_batch_validate_def

section \<open>Lemmas\<close>

lemma alarm_valid_serializes: "alarm_validate J a l = Ok () \<Longrightarrow> \<exists>n \<le> ALARM_BYTES. aj_alarm J a = Some n"
  by (cases "aj_alarm J a") (auto simp: alarm_validate_def checks_Ok_iff)

end
