(* ===== verification/Process_Table.thy ===== *)
theory Process_Table
  imports Lossy Alarms Event_Rules Transitions
begin

text \<open>
  The process table: \<open>openvibes-agent/src/alarms/table.rs\<close>, with the types \<open>ProcessStart\<close> and
  \<open>Seeded\<close> of \<open>process_events/records.rs\<close>. An \<open>Instant\<close> is a number of nanoseconds; the \<open>lookup\<close>
  closure, which reads \<open>/proc\<close>, is a parameter (one start asks for a process at most once).
\<close>

section \<open>Definitions\<close>

record seeded =
  se_pid :: nat
  se_ppid :: nat
  se_uid :: nat
  se_euid :: nat
  se_name :: string
  se_exe :: "string option"
  se_args :: "string list"
  se_args_truncated :: bool
  se_cwd :: "string option"

record process_start =
  ps_pid :: nat
  ps_ppid :: nat
  ps_uid :: nat
  ps_euid :: nat
  ps_exe :: string
  ps_exe_from_filename :: bool
  ps_args :: "string list"
  ps_args_truncated :: bool
  ps_cwd :: "string option"
  ps_at_unix_ms :: int
  ps_parent :: "seeded option"

definition PATH_BYTES :: nat where "PATH_BYTES = 4096"
definition CMDLINE_BYTES :: nat where "CMDLINE_BYTES = 262144"
definition ENTRY_ARG_BYTES :: nat where "ENTRY_ARG_BYTES = 4096"
definition MAX_ENTRIES :: nat where "MAX_ENTRIES = 32768"
definition MAX_BYTES :: nat where "MAX_BYTES = 1048576"
definition EXITED_KEPT :: nat where "EXITED_KEPT = 60000000000"
definition ENTRY_OVERHEAD :: nat where "ENTRY_OVERHEAD = 160"

record table_entry =
  te_pid :: nat
  te_ppid :: nat
  te_uid :: nat
  te_euid :: nat
  te_exe :: string
  te_name :: string
  te_args :: "string list"
  te_args_truncated :: bool
  te_cwd :: "string option"
  te_seeded :: bool
  te_synthetic_exe :: bool
  te_seen :: nat
  te_exited :: "nat option"

definition entry_bytes :: "table_entry \<Rightarrow> nat" where
  "entry_bytes e =
     ENTRY_OVERHEAD + length (te_exe e) + length (te_name e) +
     sum_list (map (\<lambda>arg. length arg + 24) (te_args e)) +
     (case te_cwd e of None \<Rightarrow> 0 | Some c \<Rightarrow> length c)"

text \<open>\<open>None\<close> is a panic of \<open>mask_args\<close>.\<close>

definition masked_args :: "table_entry \<Rightarrow> string list option" where
  "masked_args e =
     Option.bind (mask_args (te_exe e) (te_args e)) (\<lambda>args.
       case (te_synthetic_exe e, te_args e) of
         (True, argv0 # _) \<Rightarrow> mask_args argv0 args
       | _ \<Rightarrow> Some args)"

definition to_alarm_process :: "table_entry \<Rightarrow> alarm_process option" where
  "to_alarm_process e =
     map_option (\<lambda>masked. case cap_args masked of (args, was_cut) \<Rightarrow>
       \<lparr>ap_pid = te_pid e, ap_exe = te_exe e, ap_args = args, ap_cwd = te_cwd e, ap_uid = te_uid e,
        ap_euid = te_euid e, ap_truncated = was_cut \<or> te_args_truncated e, ap_seeded = te_seeded e\<rparr>)
       (masked_args e)"

record lineage =
  li_process :: table_entry
  li_ancestors :: "table_entry list"

fun all_alarm_processes :: "table_entry list \<Rightarrow> alarm_process list option" where
  "all_alarm_processes [] = Some []"
| "all_alarm_processes (e # es) =
     Option.bind (to_alarm_process e) (\<lambda>p. map_option (Cons p) (all_alarm_processes es))"

definition to_alarm_processes :: "lineage \<Rightarrow> (alarm_process \<times> alarm_process list) option" where
  "to_alarm_processes li =
     Option.bind (to_alarm_process (li_process li)) (\<lambda>p.
       map_option (Pair p) (all_alarm_processes (li_ancestors li)))"

record process_table =
  pt_entries :: "(nat, table_entry) btree_map"
  pt_bytes :: nat

definition table_len :: "process_table \<Rightarrow> nat" where
  "table_len t = length (pt_entries t)"

definition table_is_empty :: "process_table \<Rightarrow> bool" where
  "table_is_empty t \<longleftrightarrow> pt_entries t = []"

subsection \<open>Insertion and eviction\<close>

definition table_remove :: "nat \<Rightarrow> process_table \<Rightarrow> process_table" where
  "table_remove pid t =
     (case bt_get (pt_entries t) pid of
        None \<Rightarrow> t
      | Some old \<Rightarrow> \<lparr>pt_entries = bt_remove pid (pt_entries t), pt_bytes = pt_bytes t - entry_bytes old\<rparr>)"

definition evict_rank :: "table_entry \<Rightarrow> nat \<times> nat \<times> nat" where
  "evict_rank e =
     ((case (te_exited e, te_seeded e) of (Some _, _) \<Rightarrow> 0 | (None, True) \<Rightarrow> 1 | (None, False) \<Rightarrow> 2),
      (case te_exited e of Some at \<Rightarrow> at | None \<Rightarrow> te_seen e), te_pid e)"

fun evict_loop :: "(nat \<times> nat \<times> nat) list \<Rightarrow> process_table \<Rightarrow> process_table" where
  "evict_loop [] t = t"
| "evict_loop ((_, _, pid) # order) t =
     (if length (pt_entries t) \<le> MAX_ENTRIES div 8 * 7 \<and> pt_bytes t \<le> MAX_BYTES div 8 * 7 then t
      else evict_loop order (table_remove pid t))"

definition evict :: "process_table \<Rightarrow> process_table" where
  "evict t = evict_loop (sort (map evict_rank (bt_values (pt_entries t)))) t"

definition table_insert :: "table_entry \<Rightarrow> process_table \<Rightarrow> process_table" where
  "table_insert e t =
     (let t' = \<lparr>pt_entries = bt_insert (te_pid e) e (pt_entries t),
                pt_bytes = pt_bytes t + entry_bytes e -
                  (case bt_get (pt_entries t) (te_pid e) of None \<Rightarrow> 0 | Some old \<Rightarrow> entry_bytes old)\<rparr>
      in if length (pt_entries t') > MAX_ENTRIES \<or> pt_bytes t' > MAX_BYTES then evict t' else t')"

definition table_reap :: "(nat \<Rightarrow> bool) \<Rightarrow> nat \<Rightarrow> process_table \<Rightarrow> process_table" where
  "table_reap alive now t =
     (let marked = map (\<lambda>(pid, e).
            (pid, if te_exited e = None \<and> \<not> alive (te_pid e) then e\<lparr>te_exited := Some now\<rparr> else e)) (pt_entries t);
        before = map fst (filter (\<lambda>(_, e). case te_exited e of None \<Rightarrow> False | Some at \<Rightarrow> now - at > EXITED_KEPT) marked)
      in fold table_remove before (t\<lparr>pt_entries := marked\<rparr>))"

subsection \<open>Entries from what the kernel reports\<close>

definition path_text :: "string \<Rightarrow> string" where
  "path_text bytes = fst (cut_text (lossy bytes) PATH_BYTES)"

fun cmdline_loop :: "string \<Rightarrow> nat \<Rightarrow> string list \<Rightarrow> string \<times> bool" where
  "cmdline_loop line n [] = (line, False)"
| "cmdline_loop line n (arg # args) =
     (let line = (if n > 0 then line @ '' '' else line) @ lossy arg in
      if length line > CMDLINE_BYTES then cut_text line CMDLINE_BYTES
      else cmdline_loop line (n + 1) args)"

definition cmdline :: "string list \<Rightarrow> string \<times> bool" where
  "cmdline args = cmdline_loop [] 0 args"

fun keep_args_loop :: "nat \<Rightarrow> string list \<Rightarrow> string list \<Rightarrow> string list \<times> bool" where
  "keep_args_loop used kept [] = (kept, False)"
| "keep_args_loop used kept (arg # args) =
     (if used + length arg > ENTRY_ARG_BYTES then
        (if kept = [] then [fst (cut_text (lossy (take (min (length arg) (ENTRY_ARG_BYTES + 4)) arg)) ENTRY_ARG_BYTES)]
         else kept, True)
      else
        let text = lossy arg in
        if used + length text > ENTRY_ARG_BYTES then (kept, True)
        else keep_args_loop (used + length text) (kept @ [text]) args)"

definition keep_args :: "string list \<Rightarrow> string list \<times> bool" where
  "keep_args args = keep_args_loop 0 [] args"

definition from_start :: "process_start \<Rightarrow> nat \<Rightarrow> table_entry" where
  "from_start s now =
     (let exe = path_text (ps_exe s) in
      case keep_args (ps_args s) of (kept, was_cut) \<Rightarrow>
      \<lparr>te_pid = ps_pid s, te_ppid = ps_ppid s, te_uid = ps_uid s, te_euid = ps_euid s, te_exe = exe,
       te_name = basename exe, te_args = kept, te_args_truncated = was_cut \<or> ps_args_truncated s,
       te_cwd = map_option path_text (ps_cwd s), te_seeded = False, te_synthetic_exe = False,
       te_seen = now, te_exited = None\<rparr>)"

definition filter_option :: "('a \<Rightarrow> bool) \<Rightarrow> 'a option \<Rightarrow> 'a option" where
  "filter_option P x = (case x of Some a \<Rightarrow> if P a then Some a else None | None \<Rightarrow> None)"

definition first_item :: "'a list \<Rightarrow> 'a option" where
  "first_item xs = (case xs of [] \<Rightarrow> None | x # _ \<Rightarrow> Some x)"

definition seeded_exe :: "seeded \<Rightarrow> string \<Rightarrow> string \<times> bool" where
  "seeded_exe s name =
     (case filter_option (\<lambda>link. link \<noteq> []) (se_exe s) of
        Some link \<Rightarrow> (path_text link, False)
      | None \<Rightarrow>
          (case filter_option (\<lambda>arg. starts_with arg ''/'') (first_item (se_args s)) of
             Some argv0 \<Rightarrow> (path_text argv0, True)
           | None \<Rightarrow> if name = [] then (''[unknown]'', True) else (''['' @ name @ '']'', True)))"

definition from_seeded :: "seeded \<Rightarrow> nat \<Rightarrow> table_entry" where
  "from_seeded s now =
     (let name = path_text (se_name s) in
      case (seeded_exe s name, keep_args (se_args s)) of ((exe, synthetic), (args, was_cut)) \<Rightarrow>
      \<lparr>te_pid = se_pid s, te_ppid = se_ppid s, te_uid = se_uid s, te_euid = se_euid s, te_exe = exe,
       te_name = name, te_args = args, te_args_truncated = was_cut \<or> se_args_truncated s,
       te_cwd = map_option path_text (se_cwd s), te_seeded = True, te_synthetic_exe = synthetic,
       te_seen = now, te_exited = None\<rparr>)"

subsection \<open>The values of a start\<close>

text \<open>\<open>let _ = event.set(key, value)\<close>: a refused value is left out.\<close>

definition set_or_skip :: "string \<Rightarrow> event_value \<Rightarrow> process_event \<Rightarrow> process_event" where
  "set_or_skip key v ev = snd (event_set key v ev)"

definition ancestor_list :: "(table_entry \<Rightarrow> string) \<Rightarrow> table_entry list \<Rightarrow> event_value" where
  "ancestor_list pick ancestors = EvStrings (remdups_adj (sort (map pick ancestors)))"

definition start_event :: "table_entry \<Rightarrow> string \<Rightarrow> bool \<Rightarrow> table_entry list \<Rightarrow> process_event" where
  "start_event p line was_truncated ancestors =
     (let e1 = set_or_skip ''process.exe'' (EvString (te_exe p)) process_event_default;
        e2 = set_or_skip ''process.name'' (EvString (te_name p)) e1;
        e3 = set_or_skip ''process.cmdline'' (EvString line) e2;
        e4 = set_or_skip ''process.cmdline_truncated'' (EvBoolean was_truncated) e3;
        e5 = (case te_cwd p of Some cwd \<Rightarrow> set_or_skip ''process.cwd'' (EvString cwd) e4 | None \<Rightarrow> e4);
        e6 = set_or_skip ''process.uid'' (EvInteger (int (te_uid p))) e5;
        e7 = set_or_skip ''process.euid'' (EvInteger (int (te_euid p))) e6
      in case ancestors of
           [] \<Rightarrow> e7
         | parent # _ \<Rightarrow>
             let e8 = set_or_skip ''parent.exe'' (EvString (te_exe parent)) e7;
               e9 = set_or_skip ''parent.name'' (EvString (te_name parent)) e8;
               e10 = set_or_skip ''parent.cmdline'' (EvString (join_spaces (te_args parent))) e9;
               e11 = set_or_skip ''ancestors.names'' (ancestor_list te_name ancestors) e10
             in set_or_skip ''ancestors.exes'' (ancestor_list te_exe ancestors) e11)"

subsection \<open>A start\<close>

definition seed_missing ::
  "process_start \<Rightarrow> nat \<Rightarrow> (nat \<Rightarrow> seeded option) \<Rightarrow> nat \<Rightarrow> process_table \<Rightarrow> process_table option" where
  "seed_missing s now lookup pid t =
     (if bt_contains_key (pt_entries t) pid then Some t
      else
        let snapshot = (if pid = ps_ppid s then ps_parent s else None) in
        case (case snapshot of Some x \<Rightarrow> Some x | None \<Rightarrow> lookup pid) of
          None \<Rightarrow> None
        | Some x \<Rightarrow> if se_pid x = pid then Some (table_insert (from_seeded x now) t) else None)"

function ancestors_loop ::
  "process_start \<Rightarrow> nat \<Rightarrow> (nat \<Rightarrow> seeded option) \<Rightarrow> nat \<Rightarrow> table_entry list \<Rightarrow> process_table \<Rightarrow>
   table_entry list \<times> process_table" where
  "ancestors_loop s now lookup pid anc t =
     (if pid \<noteq> 0 \<and> length anc < ALARM_ANCESTORS then
        (case seed_missing s now lookup pid t of
           None \<Rightarrow> (anc, t)
         | Some t' \<Rightarrow>
             (case bt_get (pt_entries t') pid of
                None \<Rightarrow> (anc, t')
              | Some e \<Rightarrow>
                  let parent = te_ppid e; anc' = anc @ [e] in
                  if parent = pid \<or> list_ex (\<lambda>seen. te_pid seen = parent) anc' then (anc', t')
                  else ancestors_loop s now lookup parent anc' t'))
      else (anc, t))"
  by pat_completeness auto
termination by (relation "measure (\<lambda>(s, now, lookup, pid, anc, t). ALARM_ANCESTORS - length anc)") auto

declare ancestors_loop.simps [simp del]

definition table_start ::
  "process_start \<Rightarrow> nat \<Rightarrow> (nat \<Rightarrow> seeded option) \<Rightarrow> process_table \<Rightarrow> process_event \<times> lineage \<times> process_table" where
  "table_start s now lookup t =
     (case ancestors_loop s now lookup (ps_ppid s) [] t of (ancestors, t') \<Rightarrow>
      case cmdline (ps_args s) of (line, line_cut) \<Rightarrow>
      let process = from_start s now in
        (start_event process line (line_cut \<or> ps_args_truncated s) ancestors,
         \<lparr>li_process = process, li_ancestors = ancestors\<rparr>, table_insert process t'))"

section \<open>The room the table takes\<close>

definition total_bytes :: "(nat, table_entry) btree_map \<Rightarrow> nat" where
  "total_bytes m = sum_list (map (\<lambda>(_, e). entry_bytes e) m)"

definition table_inv :: "process_table \<Rightarrow> bool" where
  "table_inv t \<longleftrightarrow> bt_invar (pt_entries t) \<and> (\<forall>(k, e) \<in> set (pt_entries t). te_pid e = k) \<and>
     pt_bytes t = total_bytes (pt_entries t)"

lemma total_bytes_insert:
  "bt_invar m \<Longrightarrow> total_bytes (bt_insert k e m) + (case bt_get m k of None \<Rightarrow> 0 | Some old \<Rightarrow> entry_bytes old) =
     total_bytes m + entry_bytes e"
proof (induction k e m rule: bt_insert.induct)
  case (1 k v)
  then show ?case by (simp add: total_bytes_def bt_get_def)
next
  case (2 k v k' v' m)
  have "bt_get m k = None" if "k \<le> k'"
    using 2(2) that by (auto simp: bt_get_def bt_invar_def bt_keys_def map_of_eq_None_iff)
  then show ?case using 2 by (auto simp: total_bytes_def bt_get_def bt_invar_def bt_keys_def split: option.splits)
qed

lemma total_bytes_remove:
  "bt_invar m \<Longrightarrow> bt_get m k = Some old \<Longrightarrow> total_bytes (bt_remove k m) + entry_bytes old = total_bytes m"
proof (induction m)
  case (Cons p m)
  obtain k' e where p: "p = (k', e)" by fastforce
  have m: "bt_invar m" "\<forall>x \<in> set (bt_keys m). k' < x" using Cons.prems(1) p by (auto simp: bt_invar_def bt_keys_def)
  show ?case
  proof (cases "k' = k")
    case True
    then have "bt_remove k m = m" using m(2) by (auto simp: bt_remove_def filter_id_conv bt_keys_def)
    then show ?thesis using True Cons.prems(2) p by (auto simp: total_bytes_def bt_get_def bt_remove_def)
  next
    case False
    then show ?thesis using Cons.IH [OF m(1)] Cons.prems(2) p by (auto simp: total_bytes_def bt_get_def bt_remove_def)
  qed
qed (simp add: bt_get_def)

lemma set_bt_remove: "set (bt_remove k m) = {(k', e) \<in> set m. k' \<noteq> k}"
  by (auto simp: bt_remove_def)

lemma table_inv_remove: "table_inv t \<Longrightarrow> table_inv (table_remove pid t)"
  using total_bytes_remove [of "pt_entries t" pid]
  by (auto simp: table_inv_def table_remove_def set_bt_remove bt.invar_delete split: option.splits)

lemma entries_remove:
  "pt_entries (table_remove pid t) = bt_remove pid (pt_entries t)"
proof (cases "bt_get (pt_entries t) pid")
  case None
  then have "pid \<notin> fst ` set (pt_entries t)" by (simp add: bt_get_def map_of_eq_None_iff)
  then have "bt_remove pid (pt_entries t) = pt_entries t"
    unfolding bt_remove_def by (intro filter_True) force
  then show ?thesis using None by (simp add: table_remove_def)
qed (simp add: table_remove_def)

lemma table_inv_insert_raw:
  assumes "table_inv t"
  shows "table_inv \<lparr>pt_entries = bt_insert (te_pid e) e (pt_entries t),
    pt_bytes = pt_bytes t + entry_bytes e - (case bt_get (pt_entries t) (te_pid e) of None \<Rightarrow> 0 | Some old \<Rightarrow> entry_bytes old)\<rparr>"
  using assms total_bytes_insert [of "pt_entries t" "te_pid e" e] set_bt_insert [of "te_pid e" e "pt_entries t"]
  by (auto simp: table_inv_def bt.invar_update split: option.splits)

lemma evict_loop_inv: "table_inv t \<Longrightarrow> table_inv (evict_loop order t)"
  by (induction order t rule: evict_loop.induct) (auto simp: table_inv_remove)

lemma evict_loop_bounds:
  "table_inv t \<Longrightarrow> fst ` set (pt_entries t) \<subseteq> (\<lambda>x. snd (snd x)) ` set order \<Longrightarrow>
   length (pt_entries (evict_loop order t)) \<le> MAX_ENTRIES div 8 * 7 \<and>
   pt_bytes (evict_loop order t) \<le> MAX_BYTES div 8 * 7"
proof (induction order t rule: evict_loop.induct)
  case (1 t)
  then show ?case by (simp add: table_inv_def total_bytes_def)
next
  case (2 c i pid order t)
  show ?case
  proof (cases "length (pt_entries t) \<le> MAX_ENTRIES div 8 * 7 \<and> pt_bytes t \<le> MAX_BYTES div 8 * 7")
    case False
    have "fst ` set (pt_entries (table_remove pid t)) \<subseteq> (\<lambda>x. snd (snd x)) ` set order"
      using "2.prems"(2) by (auto simp: entries_remove set_bt_remove)
    then show ?thesis using "2.IH" [OF False table_inv_remove [OF "2.prems"(1)]] False by simp
  qed simp
qed

lemma rank_pids: "table_inv t \<Longrightarrow> (\<lambda>x. snd (snd x)) ` set (map evict_rank (bt_values (pt_entries t))) = fst ` set (pt_entries t)"
  by (force simp: table_inv_def evict_rank_def bt_values_def image_iff)

lemma evict_bounds:
  assumes "table_inv t"
  shows "table_inv (evict t) \<and> length (pt_entries (evict t)) \<le> MAX_ENTRIES div 8 * 7 \<and>
    pt_bytes (evict t) \<le> MAX_BYTES div 8 * 7"
  unfolding evict_def using evict_loop_inv [OF assms] evict_loop_bounds [OF assms] rank_pids [OF assms] by simp

definition table_ok :: "process_table \<Rightarrow> bool" where
  "table_ok t \<longleftrightarrow> table_inv t \<and> length (pt_entries t) \<le> MAX_ENTRIES \<and> pt_bytes t \<le> MAX_BYTES"

lemma table_ok_insert: "table_ok t \<Longrightarrow> table_ok (table_insert e t)"
proof -
  assume "table_ok t"
  then have "table_inv t" by (simp add: table_ok_def)
  note raw = table_inv_insert_raw [OF this, of e]
  have "MAX_ENTRIES div 8 * 7 \<le> MAX_ENTRIES" "MAX_BYTES div 8 * 7 \<le> MAX_BYTES" by (simp_all add: MAX_ENTRIES_def MAX_BYTES_def)
  then show ?thesis using raw evict_bounds [OF raw] by (auto simp: table_ok_def table_insert_def Let_def)
qed

lemma table_ok_remove: "table_ok t \<Longrightarrow> table_ok (table_remove pid t)"
  using table_inv_remove [of t pid]
  by (auto simp: table_ok_def table_remove_def bt_remove_def split: option.splits intro: le_trans [OF length_filter_le])

text \<open>Eviction takes the front of the order: what goes is exited before seeded before running, and
  older before newer.\<close>

lemma evict_loop_prefix:
  "\<exists>k. evict_loop order t = fold table_remove (map (\<lambda>x. snd (snd x)) (take k order)) t"
proof (induction order t rule: evict_loop.induct)
  case (1 t)
  then show ?case by simp
next
  case (2 c i pid order t)
  show ?case
  proof (cases "length (pt_entries t) \<le> MAX_ENTRIES div 8 * 7 \<and> pt_bytes t \<le> MAX_BYTES div 8 * 7")
    case True
    then show ?thesis by (intro exI [of _ 0]) simp
  next
    case False
    from "2.IH" [OF False] obtain k where "evict_loop order (table_remove pid t) =
      fold table_remove (map (\<lambda>x. snd (snd x)) (take k order)) (table_remove pid t)" by blast
    then show ?thesis using False by (intro exI [of _ "Suc k"]) (simp, blast)
  qed
qed

lemma entries_fold_remove:
  "set (pt_entries (fold table_remove pids t)) = {(k, e) \<in> set (pt_entries t). k \<notin> set pids}"
  by (induction pids arbitrary: t) (auto simp: entries_remove set_bt_remove)

lemma evict_order:
  assumes "table_inv t" "(k, e) \<in> set (pt_entries t)" "(k, e) \<notin> set (pt_entries (evict t))"
    and "(k', e') \<in> set (pt_entries (evict t))"
  shows "evict_rank e < evict_rank e'"
proof -
  let ?order = "sort (map evict_rank (bt_values (pt_entries t)))" and ?pid = "\<lambda>x :: nat \<times> nat \<times> nat. snd (snd x)"
  obtain n where n: "evict t = fold table_remove (map ?pid (take n ?order)) t"
    unfolding evict_def using evict_loop_prefix by blast
  have pid: "?pid (evict_rank x) = te_pid x" for x by (simp add: evict_rank_def)
  have keys: "te_pid e = k" "te_pid e' = k'" and e': "(k', e') \<in> set (pt_entries t)"
    using assms n by (auto simp: table_inv_def entries_fold_remove)
  have in_order: "evict_rank e \<in> set ?order" "evict_rank e' \<in> set ?order"
    using assms(2) e' by (force simp: bt_values_def)+
  have gone: "k \<in> ?pid ` set (take n ?order)" and kept: "k' \<notin> ?pid ` set (take n ?order)"
    using assms n by (auto simp: entries_fold_remove)
  have inj: "x = y" if "x \<in> set ?order" "y \<in> set ?order" "?pid x = ?pid y" for x y
  proof -
    from that obtain a b ka kb where ab: "x = evict_rank a" "y = evict_rank b" "(ka, a) \<in> set (pt_entries t)" "(kb, b) \<in> set (pt_entries t)"
      by (auto simp: bt_values_def)
    with that(3) have "te_pid a = te_pid b" by (simp add: pid)
    moreover have "te_pid x = kx" if "(kx, x) \<in> set (pt_entries t)" for kx x
      using assms(1) that by (auto simp: table_inv_def)
    ultimately have "ka = kb" using ab by metis
    moreover have "bt_invar (pt_entries t)" using assms(1) by (simp add: table_inv_def)
    ultimately have "a = b" using ab(3,4) bt_in_set_get by (metis option.inject)
    then show ?thesis using ab(1,2) by simp
  qed
  have "evict_rank e \<in> set (take n ?order)"
  proof -
    from gone obtain x where x: "x \<in> set (take n ?order)" "?pid x = k" by auto
    then have "x = evict_rank e" using inj [of x "evict_rank e"] in_order keys pid by (auto dest: in_set_takeD)
    then show ?thesis using x by simp
  qed
  moreover have "evict_rank e' \<in> set (drop n ?order)"
    using in_order(2) kept keys pid [of e'] set_append [of "take n ?order" "drop n ?order"]
    by (metis (no_types, lifting) Un_iff append_take_drop_id image_eqI)
  moreover have "\<forall>x \<in> set (take n ?order). \<forall>y \<in> set (drop n ?order). x \<le> y"
    using sorted_append [of "take n ?order" "drop n ?order"] by (simp del: sorted_append)
  ultimately have "evict_rank e \<le> evict_rank e'" by blast
  moreover have "evict_rank e \<noteq> evict_rank e'"
  proof
    assume "evict_rank e = evict_rank e'"
    then have "k = k'" using keys pid [of e] pid [of e'] by simp
    then show False using gone kept by blast
  qed
  ultimately show ?thesis by simp
qed

section \<open>Entries\<close>

definition entry_ok :: "table_entry \<Rightarrow> bool" where
  "entry_ok e \<longleftrightarrow> valid_utf8 (te_exe e) \<and> valid_utf8 (te_name e) \<and> list_all valid_utf8 (te_args e) \<and>
     (case te_cwd e of None \<Rightarrow> True | Some c \<Rightarrow> valid_utf8 c \<and> length c \<le> PATH_BYTES) \<and>
     length (te_exe e) \<le> PATH_BYTES + 2 \<and> length (te_name e) \<le> PATH_BYTES \<and>
     sum_list (map length (te_args e)) \<le> ENTRY_ARG_BYTES"

lemma path_text_ok: "valid_utf8 (path_text b) \<and> length (path_text b) \<le> PATH_BYTES"
  using cut_text_spec [of "lossy b" PATH_BYTES] lossy_valid [of b]
  by (cases "cut_text (lossy b) PATH_BYTES") (auto simp: path_text_def)

lemma keep_args_loop_ok:
  "used = sum_list (map length kept) \<Longrightarrow> used \<le> ENTRY_ARG_BYTES \<Longrightarrow> list_all valid_utf8 kept \<Longrightarrow>
   list_all valid_utf8 (fst (keep_args_loop used kept args)) \<and>
   sum_list (map length (fst (keep_args_loop used kept args))) \<le> ENTRY_ARG_BYTES"
proof (induction used kept args rule: keep_args_loop.induct)
  case (2 used kept arg args)
  define t where "t = lossy (take (min (length arg) (ENTRY_ARG_BYTES + 4)) arg)"
  obtain u c where u: "cut_text t ENTRY_ARG_BYTES = (u, c)" by fastforce
  have t: "valid_utf8 u" "length u \<le> ENTRY_ARG_BYTES"
    using cut_text_spec(1,2) [OF u] lossy_valid by (simp_all add: t_def)
  show ?case
  proof (cases "used + length arg > ENTRY_ARG_BYTES \<or> used + length (lossy arg) > ENTRY_ARG_BYTES")
    case True
    then have "fst (keep_args_loop used kept (arg # args)) \<in> {kept, [u]}"
      using u by (auto simp: Let_def t_def)
    then show ?thesis using 2(2-4) t by auto
  next
    case False
    then have step: "keep_args_loop used kept (arg # args) = keep_args_loop (used + length (lossy arg)) (kept @ [lossy arg]) args"
      by (simp add: Let_def)
    have "list_all valid_utf8 (kept @ [lossy arg])" using "2.prems"(3) lossy_valid by simp
    moreover have "used + length (lossy arg) = sum_list (map length (kept @ [lossy arg]))" using "2.prems"(1) by simp
    ultimately show ?thesis unfolding step using "2.IH" [OF _ refl] False by simp
  qed
qed simp

lemma keep_args_ok:
  "keep_args args = (kept, c) \<Longrightarrow> list_all valid_utf8 kept \<and> sum_list (map length kept) \<le> ENTRY_ARG_BYTES"
  using keep_args_loop_ok [of 0 "[]" args] by (simp add: keep_args_def)

lemma path_text_simps [simp]:
  "valid_utf8 (path_text b)" "length (path_text b) \<le> PATH_BYTES" "length (path_text b) \<le> Suc (Suc PATH_BYTES)"
  using path_text_ok [of b] by auto

lemma basename_length: "length (basename p) \<le> length p"
  by (simp add: basename_def split: option.splits)

lemma from_start_ok: "entry_ok (from_start s now)" "length (te_exe (from_start s now)) \<le> PATH_BYTES"
  using keep_args_ok [of "ps_args s"] le_trans [OF basename_length [of "path_text (ps_exe s)"]]
  by (auto simp: entry_ok_def from_start_def Let_def basename_valid split: prod.splits option.splits)

lemma seeded_exe_ok:
  assumes "valid_utf8 name" "length name \<le> PATH_BYTES"
  shows "valid_utf8 (fst (seeded_exe s name)) \<and> length (fst (seeded_exe s name)) \<le> PATH_BYTES + 2"
proof -
  have v: "valid_utf8 (''['' @ name @ '']'')" "valid_utf8 ''[unknown]''"
    using assms(1) by (auto intro!: valid_utf8_append)
  have "seeded_exe s name = (r, b) \<Longrightarrow> (\<exists>l. r = path_text l) \<or> r = ''[unknown]'' \<or> r = ''['' @ name @ '']''" for r b
    by (auto simp: seeded_exe_def split: option.splits if_splits)
  then have r: "(\<exists>l. fst (seeded_exe s name) = path_text l) \<or> fst (seeded_exe s name) = ''[unknown]'' \<or>
      fst (seeded_exe s name) = ''['' @ name @ '']''" by (cases "seeded_exe s name") simp
  then show ?thesis
  proof (elim disjE exE)
    assume "fst (seeded_exe s name) = ''[unknown]''"
    then show ?thesis by (simp add: PATH_BYTES_def)
  qed (use v assms(2) in \<open>simp_all\<close>)
qed

lemma from_seeded_ok: "entry_ok (from_seeded s now)"
  using keep_args_ok [of "se_args s"] seeded_exe_ok [of "path_text (se_name s)" s]
  by (auto simp: entry_ok_def from_seeded_def Let_def split: prod.splits option.splits)

lemma from_seeded_pid [simp]: "te_pid (from_seeded s now) = se_pid s"
  by (simp add: from_seeded_def Let_def split: prod.splits)

lemma from_start_pid [simp]: "te_pid (from_start s now) = ps_pid s"
  by (simp add: from_start_def Let_def split: prod.splits)

definition entries_ok :: "process_table \<Rightarrow> bool" where
  "entries_ok t \<longleftrightarrow> (\<forall>(k, e) \<in> set (pt_entries t). entry_ok e)"

lemma entries_ok_fold_remove: "entries_ok t \<Longrightarrow> entries_ok (fold table_remove pids t)"
  by (auto simp: entries_ok_def entries_fold_remove)

lemma entries_ok_insert: "entries_ok t \<Longrightarrow> entry_ok e \<Longrightarrow> entries_ok (table_insert e t)"
proof -
  assume a: "entries_ok t" "entry_ok e"
  have evict: "entries_ok u \<Longrightarrow> entries_ok (evict u)" for u
    using evict_loop_prefix [of _ u] entries_ok_fold_remove unfolding evict_def by metis
  have "entries_ok \<lparr>pt_entries = bt_insert (te_pid e) e (pt_entries t), pt_bytes = n\<rparr>" for n
    using a set_bt_insert [of "te_pid e" e "pt_entries t"] by (auto simp: entries_ok_def)
  then show ?thesis by (simp add: table_insert_def Let_def evict)
qed

section \<open>Lineage\<close>

fun chained :: "nat \<Rightarrow> table_entry list \<Rightarrow> bool" where
  "chained pid [] \<longleftrightarrow> True"
| "chained pid (e # es) \<longleftrightarrow> pid \<noteq> 0 \<and> te_pid e = pid \<and> chained (te_ppid e) es"

text \<open>Where a chain goes on.\<close>

fun chain_end :: "nat \<Rightarrow> table_entry list \<Rightarrow> nat" where
  "chain_end pid [] = pid"
| "chain_end pid (e # es) = chain_end (te_ppid e) es"

lemma chained_snoc: "chained pid (es @ [e]) \<longleftrightarrow> chained pid es \<and> chain_end pid es \<noteq> 0 \<and> te_pid e = chain_end pid es"
  by (induction pid es rule: chained.induct) auto

lemma chain_end_snoc [simp]: "chain_end pid (es @ [e]) = te_ppid e"
  by (induction pid es rule: chained.induct) auto

definition table_good :: "process_table \<Rightarrow> bool" where
  "table_good t \<longleftrightarrow> table_ok t \<and> entries_ok t"

lemma table_good_insert: "table_good t \<Longrightarrow> entry_ok e \<Longrightarrow> table_good (table_insert e t)"
  by (simp add: table_good_def table_ok_insert entries_ok_insert)

lemma seed_missing_good: "seed_missing s now lookup pid t = Some t' \<Longrightarrow> table_good t \<Longrightarrow> table_good t'"
  by (auto simp: seed_missing_def Let_def from_seeded_ok table_good_insert split: if_splits option.splits)

text \<open>The room for the arguments of one entry counts their bytes and not the spaces between them, but
  the table counts 24 bytes for each argument, so an entry of the table always has arguments that
  fit a command line when joined.\<close>

lemma stored_line_fits:
  assumes "table_good t" "(pid, e) \<in> set (pt_entries t)"
  shows "length (join_spaces (te_args e)) \<le> CMDLINE_BYTES"
proof -
  have "entry_bytes e \<le> total_bytes (pt_entries t)"
    using assms(2) by (force simp: total_bytes_def intro: member_le_sum_list)
  moreover have "total_bytes (pt_entries t) \<le> MAX_BYTES" using assms(1) by (simp add: table_good_def table_ok_def table_inv_def)
  moreover have "24 * length (te_args e) \<le> entry_bytes e"
    by (simp add: entry_bytes_def sum_list_addf sum_list_triv)
  moreover have "sum_list (map length (te_args e)) \<le> ENTRY_ARG_BYTES"
    using assms by (auto simp: table_good_def entries_ok_def entry_ok_def)
  ultimately show ?thesis by (simp add: length_join_spaces MAX_BYTES_def ENTRY_ARG_BYTES_def CMDLINE_BYTES_def)
qed

definition ancestors_ok :: "process_start \<Rightarrow> table_entry list \<Rightarrow> bool" where
  "ancestors_ok s anc \<longleftrightarrow> length anc \<le> ALARM_ANCESTORS \<and> chained (ps_ppid s) anc \<and> distinct (map te_pid anc) \<and>
     list_all entry_ok anc \<and> list_all (\<lambda>e. length (join_spaces (te_args e)) \<le> CMDLINE_BYTES) anc"

lemma ancestors_loop_ok:
  "ancestors_loop s now lookup pid anc t = (anc', t') \<Longrightarrow> table_good t \<Longrightarrow> ancestors_ok s anc \<Longrightarrow>
   pid = chain_end (ps_ppid s) anc \<Longrightarrow> pid \<notin> te_pid ` set anc \<Longrightarrow> ancestors_ok s anc' \<and> table_good t'"
proof (induction s now lookup pid anc t rule: ancestors_loop.induct)
  case (1 s now lookup pid anc t)
  note eq = "1.prems"(1) [unfolded ancestors_loop.simps [of s now lookup pid anc t]]
  show ?case
  proof (cases "pid \<noteq> 0 \<and> length anc < ALARM_ANCESTORS")
    case False
    then have "(anc', t') = (anc, t)" using eq by auto
    then show ?thesis using "1.prems" by simp
  next
    case go: True
    show ?thesis
    proof (cases "seed_missing s now lookup pid t")
      case None
      then show ?thesis using eq go "1.prems" by simp
    next
      case (Some t1)
      have good: "table_good t1" by (rule seed_missing_good [OF Some "1.prems"(2)])
      show ?thesis
      proof (cases "bt_get (pt_entries t1) pid")
        case None
        then show ?thesis using eq go Some good "1.prems" by simp
      next
        case e: (Some e)
        then have mem: "(pid, e) \<in> set (pt_entries t1)" by (rule bt_get_in_set)
        have "te_pid e = pid" "entry_ok e"
          using mem good by (auto simp: table_good_def table_ok_def table_inv_def entries_ok_def)
        then have ok: "ancestors_ok s (anc @ [e])"
          using "1.prems"(3-5) go stored_line_fits [OF good mem] by (auto simp: ancestors_ok_def chained_snoc)
        show ?thesis
        proof (cases "te_ppid e = pid \<or> list_ex (\<lambda>seen. te_pid seen = te_ppid e) (anc @ [e])")
          case True
          then have "(anc', t') = (anc @ [e], t1)" using eq go Some e by (simp add: Let_def)
          then show ?thesis using ok good by simp
        next
          case False
          then have "ancestors_loop s now lookup (te_ppid e) (anc @ [e]) t1 = (anc', t')"
            using eq go Some e by (simp add: Let_def)
          moreover have "te_ppid e \<notin> te_pid ` set (anc @ [e])" using False by (force simp: list_ex_iff)
          ultimately show ?thesis by (intro "1.IH" [OF go Some e refl refl False] good ok) simp_all
        qed
      qed
    qed
  qed
qed

section \<open>The command line\<close>

lemma floor_boundary_append: "n < length u \<Longrightarrow> floor_boundary (u @ v) n = floor_boundary u n"
  by (induction n) (auto simp: is_char_boundary_def nth_append)

lemma cut_text_append: "length u > n \<Longrightarrow> cut_text (u @ v) n = cut_text u n"
  using floor_boundary_le [of u n] by (simp add: cut_text_def floor_boundary_append)

lemma join_spaces_Cons: "join_spaces (x # xs) = x @ concat (map (\<lambda>a. '' '' @ a) xs)"
  by (induction "x # xs" arbitrary: x xs rule: join_spaces.induct) auto

lemma cmdline_loop_spec:
  "length line \<le> CMDLINE_BYTES \<Longrightarrow>
   cmdline_loop line (Suc n) args = cut_text (line @ concat (map (\<lambda>a. '' '' @ lossy a) args)) CMDLINE_BYTES"
proof (induction args arbitrary: line n)
  case Nil
  then show ?case by (simp add: cut_text_def)
next
  case (Cons a args)
  show ?case
  proof (cases "length ((line @ '' '') @ lossy a) > CMDLINE_BYTES")
    case True
    then show ?thesis
      using cut_text_append [OF True, of "concat (map (\<lambda>a. '' '' @ lossy a) args)"] by (simp add: Let_def)
  next
    case False
    then show ?thesis using Cons.IH [of "(line @ '' '') @ lossy a" "Suc n"] by (simp add: Let_def)
  qed
qed

text \<open>Building the line piece by piece and stopping early is cutting the whole line.\<close>

lemma cmdline_spec: "cmdline args = cut_text (join_spaces (map lossy args)) CMDLINE_BYTES"
proof (cases args)
  case Nil
  then show ?thesis by (simp add: cmdline_def cut_text_def)
next
  case (Cons a rest)
  have full: "join_spaces (map lossy args) = lossy a @ concat (map (\<lambda>a. '' '' @ lossy a) rest)"
    by (simp add: Cons join_spaces_Cons comp_def)
  show ?thesis
  proof (cases "length (lossy a) > CMDLINE_BYTES")
    case True
    then show ?thesis unfolding full using cut_text_append [OF True, of "concat (map (\<lambda>a. '' '' @ lossy a) rest)"]
      by (simp add: cmdline_def Cons Let_def)
  next
    case False
    then show ?thesis unfolding full using cmdline_loop_spec [of "lossy a" 0 rest]
      by (simp add: cmdline_def Cons Let_def)
  qed
qed

section \<open>The values of the event\<close>

definition event_accepts :: "string \<Rightarrow> event_value \<Rightarrow> bool" where
  "event_accepts key v \<longleftrightarrow>
     (case key_entry key of None \<Rightarrow> False | Some (_, t, bound) \<Rightarrow> event_value_check t bound v = Ok ())"

lemma set_or_skip_invar: "bt_invar (pe_values ev) \<Longrightarrow> bt_invar (pe_values (set_or_skip key v ev))"
  by (auto simp: set_or_skip_def event_set_def bt.invar_update split: option.splits result.splits)

lemma get_set_or_skip:
  "bt_invar (pe_values ev) \<Longrightarrow>
   event_get (set_or_skip key v ev) k = (if k = key \<and> event_accepts key v then Some v else event_get ev k)"
  using key_entry_name [of key]
  by (auto simp: set_or_skip_def event_set_def event_get_def event_accepts_def bt.lookup_update
      split: option.splits result.splits)

text \<open>What the event of a start should hold.\<close>

definition start_values :: "table_entry \<Rightarrow> string \<Rightarrow> bool \<Rightarrow> table_entry list \<Rightarrow> string \<rightharpoonup> event_value" where
  "start_values p line was_truncated ancestors =
     [''process.exe'' \<mapsto> EvString (te_exe p), ''process.name'' \<mapsto> EvString (te_name p),
      ''process.cmdline'' \<mapsto> EvString line, ''process.cmdline_truncated'' \<mapsto> EvBoolean was_truncated,
      ''process.uid'' \<mapsto> EvInteger (int (te_uid p)), ''process.euid'' \<mapsto> EvInteger (int (te_euid p))] ++
     (case te_cwd p of None \<Rightarrow> Map.empty | Some cwd \<Rightarrow> [''process.cwd'' \<mapsto> EvString cwd]) ++
     (case ancestors of
        [] \<Rightarrow> Map.empty
      | parent # _ \<Rightarrow>
          [''parent.exe'' \<mapsto> EvString (te_exe parent), ''parent.name'' \<mapsto> EvString (te_name parent),
           ''parent.cmdline'' \<mapsto> EvString (join_spaces (te_args parent)),
           ''ancestors.names'' \<mapsto> EvStrings (sorted_list_of_set (te_name ` set ancestors)),
           ''ancestors.exes'' \<mapsto> EvStrings (sorted_list_of_set (te_exe ` set ancestors))])"

lemma strict_remdups_adj: "sorted xs \<Longrightarrow> sorted_wrt (<) (remdups_adj xs)"
  by (induction xs rule: remdups_adj.induct) (auto simp: order_le_less)

lemma remdups_adj_sort: "remdups_adj (sort xs) = sorted_list_of_set (set xs)"
proof -
  have "sorted_wrt (<) (remdups_adj (sort xs))" by (simp add: strict_remdups_adj)
  moreover from this have "sorted_list_of_set (set (remdups_adj (sort xs))) = remdups_adj (sort xs)"
    by (intro sorted_list_of_set.idem_if_sorted_distinct) (simp_all add: strict_sorted_iff)
  ultimately show ?thesis by simp
qed

lemma event_get_default [simp]: "event_get process_event_default k = None"
  by (simp add: event_get_def process_event_default_def bt.lookup_empty)

lemma invar_default [simp]: "bt_invar (pe_values process_event_default)"
  by (simp add: process_event_default_def bt.invar_empty)

lemma accept_simps:
  "event_accepts ''process.exe'' (EvString v) \<longleftrightarrow> length v \<le> 4096"
  "event_accepts ''process.name'' (EvString v) \<longleftrightarrow> length v \<le> 4096"
  "event_accepts ''process.cmdline'' (EvString v) \<longleftrightarrow> length v \<le> 262144"
  "event_accepts ''process.cwd'' (EvString v) \<longleftrightarrow> length v \<le> 4096"
  "event_accepts ''parent.exe'' (EvString v) \<longleftrightarrow> length v \<le> 4096"
  "event_accepts ''parent.name'' (EvString v) \<longleftrightarrow> length v \<le> 4096"
  "event_accepts ''parent.cmdline'' (EvString v) \<longleftrightarrow> length v \<le> 262144"
  "event_accepts ''process.cmdline_truncated'' (EvBoolean b)"
  "event_accepts ''process.uid'' (EvInteger i)"
  "event_accepts ''process.euid'' (EvInteger i)"
  "event_accepts ''ancestors.names'' (EvStrings vs) \<longleftrightarrow>
     length vs \<le> 5 \<and> (\<forall>v \<in> set vs. length v \<le> 4096) \<and> sorted_wrt (<) vs"
  "event_accepts ''ancestors.exes'' (EvStrings vs) \<longleftrightarrow>
     length vs \<le> 5 \<and> (\<forall>v \<in> set vs. length v \<le> 4096) \<and> sorted_wrt (<) vs"
  by (auto simp: event_accepts_def key_entry_def EVENT_KEYS_def event_value_check_def EVENT_LIST_ITEMS_def
      unsorted_pair_iff list_ex_iff not_less Bex_def Ball_def)

lemma ancestor_lists_accepted:
  assumes "length anc \<le> ALARM_ANCESTORS" "list_all (\<lambda>e. length (pick e) \<le> 4096) anc"
  shows "length (sorted_list_of_set (pick ` set anc)) \<le> 5" "\<forall>v \<in> set (sorted_list_of_set (pick ` set anc)). length v \<le> 4096"
    "sorted_wrt (<) (sorted_list_of_set (pick ` set anc))"
proof -
  have "card (pick ` set anc) \<le> length anc" by (rule le_trans [OF card_image_le card_length]) simp
  then show "length (sorted_list_of_set (pick ` set anc)) \<le> 5" using assms(1) by (simp add: ALARM_ANCESTORS_def)
qed (use assms(2) in \<open>auto simp: list_all_iff\<close>)

lemma start_event_values:
  assumes "entry_ok p" "length (te_exe p) \<le> PATH_BYTES" "length line \<le> CMDLINE_BYTES"
    and "ancestors_ok s anc" "list_all (\<lambda>e. length (te_exe e) \<le> PATH_BYTES) anc"
  shows "event_get (start_event p line tr anc) = start_values p line tr anc"
proof -
  have "list_all (\<lambda>e. length (te_name e) \<le> 4096) anc" "list_all (\<lambda>e. length (te_exe e) \<le> 4096) anc"
    and few: "length anc \<le> ALARM_ANCESTORS"
    using assms(4,5) by (auto simp: list_all_iff ancestors_ok_def entry_ok_def PATH_BYTES_def)
  then have lists: "event_accepts ''ancestors.names'' (ancestor_list te_name anc)"
    "event_accepts ''ancestors.exes'' (ancestor_list te_exe anc)"
    unfolding ancestor_list_def accept_simps remdups_adj_sort set_map
    using ancestor_lists_accepted [OF few] by blast+
  have own: "length (te_exe p) \<le> 4096" "length (te_name p) \<le> 4096" "length line \<le> 262144"
    "te_cwd p = Some c \<Longrightarrow> length c \<le> 4096" for c
    using assms(1-3) by (auto simp: entry_ok_def PATH_BYTES_def CMDLINE_BYTES_def)
  have parents: "length (te_exe a) \<le> 4096" "length (te_name a) \<le> 4096" "length (join_spaces (te_args a)) \<le> 262144"
    if "a \<in> set anc" for a
    using assms(4,5) that by (auto simp: list_all_iff ancestors_ok_def entry_ok_def PATH_BYTES_def CMDLINE_BYTES_def)
  define N X where "N = ancestor_list te_name anc" and "X = ancestor_list te_exe anc"
  have nx: "EvStrings (sorted_list_of_set (te_name ` set anc)) = N" "EvStrings (sorted_list_of_set (te_exe ` set anc)) = X"
    by (simp_all add: N_def X_def ancestor_list_def remdups_adj_sort)
  show ?thesis
    using lists own parents
    unfolding start_event_def start_values_def Let_def N_def [symmetric] X_def [symmetric] nx
    by (cases anc; cases "te_cwd p"; intro ext)
      (simp_all add: get_set_or_skip set_or_skip_invar accept_simps(1-10) map_add_def)
qed

section \<open>Runs of the table\<close>

lemma total_bytes_map: "(\<And>e. entry_bytes (f e) = entry_bytes e) \<Longrightarrow> total_bytes (map (\<lambda>(k, e). (k, f e)) m) = total_bytes m"
  by (induction m) (auto simp: total_bytes_def)

lemma table_good_map:
  assumes "table_good t" "\<And>e. entry_bytes (f e) = entry_bytes e" "\<And>e. te_pid (f e) = te_pid e" "\<And>e. entry_ok e \<Longrightarrow> entry_ok (f e)"
  shows "table_good (t\<lparr>pt_entries := map (\<lambda>(k, e). (k, f e)) (pt_entries t)\<rparr>)"
proof -
  have keys: "bt_keys (map (\<lambda>(k, e). (k, f e)) m) = bt_keys m" for m :: "(nat, table_entry) btree_map"
    by (induction m) (auto simp: bt_keys_def)
  show ?thesis using assms total_bytes_map [of f "pt_entries t"]
    by (auto simp: table_good_def table_ok_def table_inv_def entries_ok_def bt_invar_def keys)
qed

lemma table_good_fold_remove: "table_good t \<Longrightarrow> table_good (fold table_remove pids t)"
proof (induction pids arbitrary: t)
  case (Cons pid pids)
  have "table_good (table_remove pid t)"
    using Cons.prems table_ok_remove [of t pid] entries_ok_fold_remove [of t "[pid]"] by (simp add: table_good_def)
  then show ?case using Cons.IH by simp
qed simp

lemma table_good_reap: "table_good t \<Longrightarrow> table_good (table_reap alive now t)"
  unfolding table_reap_def Let_def
  by (intro table_good_fold_remove table_good_map) (auto simp: entry_bytes_def entry_ok_def)

lemma table_start_good:
  assumes "table_start s now lookup t = (ev, li, t')" "table_good t"
  shows "table_good t' \<and> ancestors_ok s (li_ancestors li) \<and> li_process li = from_start s now \<and>
    ev = start_event (li_process li) (fst (cmdline (ps_args s))) (snd (cmdline (ps_args s)) \<or> ps_args_truncated s) (li_ancestors li)"
proof -
  obtain anc t1 where anc: "ancestors_loop s now lookup (ps_ppid s) [] t = (anc, t1)" by fastforce
  have "ancestors_ok s anc \<and> table_good t1"
    by (rule ancestors_loop_ok [OF anc assms(2)]) (simp_all add: ancestors_ok_def)
  then show ?thesis using assms(1) anc from_start_ok
    by (auto simp: table_start_def Let_def table_good_insert split: prod.splits)
qed

inductive table_step :: "process_table \<Rightarrow> process_table \<Rightarrow> bool" where
  step_start: "table_start s now lookup t = (ev, li, t') \<Longrightarrow> table_step t t'"
| step_reap: "table_step t (table_reap alive now t)"

interpretation processes: stepping table_step table_good
proof
  fix t t' assume "table_step t t'" and good: "table_good t"
  then show "table_good t'"
    by (cases rule: table_step.cases) (use good table_start_good table_good_reap in blast)+
qed

text \<open>Reaping keeps exactly the processes that are alive or exited at most a minute ago, and changes
  only the time of exit.\<close>

definition mark_exited :: "(nat \<Rightarrow> bool) \<Rightarrow> nat \<Rightarrow> table_entry \<Rightarrow> table_entry" where
  "mark_exited alive now e = (if te_exited e = None \<and> \<not> alive (te_pid e) then e\<lparr>te_exited := Some now\<rparr> else e)"

lemma reap_spec:
  assumes "table_inv t"
  shows "(k, e') \<in> set (pt_entries (table_reap alive now t)) \<longleftrightarrow>
    (\<exists>e. (k, e) \<in> set (pt_entries t) \<and> e' = mark_exited alive now e \<and>
      (case te_exited e' of None \<Rightarrow> True | Some at \<Rightarrow> now - at \<le> EXITED_KEPT))"
proof -
  define m where "m = map (\<lambda>(pid, e). (pid, mark_exited alive now e)) (pt_entries t)"
  let ?old = "\<lambda>(_, e). case te_exited e of None \<Rightarrow> False | Some at \<Rightarrow> now - at > EXITED_KEPT"
  have r: "table_reap alive now t = fold table_remove (map fst (filter ?old m)) (t\<lparr>pt_entries := m\<rparr>)"
    by (simp add: table_reap_def Let_def mark_exited_def m_def)
  have "map fst m = bt_keys (pt_entries t)" unfolding m_def by (auto simp: bt_keys_def)
  then have "distinct (map fst m)" using bt.distinct_keys [of "pt_entries t"] assms by (simp add: table_inv_def)
  then have uniq: "e1 = e2" if "(k, e1) \<in> set m" "(k, e2) \<in> set m" for e1 e2
    using that by (metis eq_key_imp_eq_value)
  have "(k, e') \<in> set (pt_entries (table_reap alive now t)) \<longleftrightarrow> (k, e') \<in> set m \<and> \<not> ?old (k, e')"
    unfolding r entries_fold_remove using uniq by (fastforce simp: image_iff)
  also have "(k, e') \<in> set m \<longleftrightarrow> (\<exists>e. (k, e) \<in> set (pt_entries t) \<and> e' = mark_exited alive now e)"
    by (auto simp: m_def)
  finally show ?thesis by (auto simp: not_less split: option.splits)
qed

lemmas process_table_evals [evals] =
  PATH_BYTES_def CMDLINE_BYTES_def ENTRY_ARG_BYTES_def MAX_ENTRIES_def MAX_BYTES_def
  EXITED_KEPT_def ENTRY_OVERHEAD_def entry_bytes_def masked_args_def to_alarm_process_def
  to_alarm_processes_def table_len_def table_is_empty_def table_remove_def evict_rank_def
  evict_def table_insert_def table_reap_def path_text_def cmdline_def keep_args_def
  from_start_def filter_option_def first_item_def seeded_exe_def from_seeded_def set_or_skip_def
  ancestor_list_def start_event_def seed_missing_def table_start_def total_bytes_def
  table_ok_def entry_ok_def entries_ok_def table_good_def ancestors_ok_def event_accepts_def
  start_values_def mark_exited_def ancestors_loop.simps

section \<open>An example\<close>

definition tx_empty :: process_table where
  "tx_empty = \<lparr>pt_entries = [], pt_bytes = 0\<rparr>"

definition tx_start :: process_start where
  "tx_start = \<lparr>ps_pid = 9, ps_ppid = 7, ps_uid = 0, ps_euid = 0, ps_exe = ''/bin/sh'', ps_exe_from_filename = False,
     ps_args = [''sh''], ps_args_truncated = False, ps_cwd = None, ps_at_unix_ms = 5, ps_parent = None\<rparr>"

definition tx_lookup :: "nat \<Rightarrow> seeded option" where
  "tx_lookup pid = (if pid = 7 then Some \<lparr>se_pid = 7, se_ppid = 0, se_uid = 0, se_euid = 0, se_name = ''a'',
     se_exe = None, se_args = [], se_args_truncated = False, se_cwd = None\<rparr> else None)"

definition tx_seed :: table_entry where
  "tx_seed = \<lparr>te_pid = 7, te_ppid = 0, te_uid = 0, te_euid = 0, te_exe = ''[a]'', te_name = ''a'', te_args = [],
     te_args_truncated = False, te_cwd = None, te_seeded = True, te_synthetic_exe = True, te_seen = 2, te_exited = None\<rparr>"

lemma tx_from_seeded:
  "from_seeded \<lparr>se_pid = 7, se_ppid = 0, se_uid = 0, se_euid = 0, se_name = ''a'', se_exe = None, se_args = [],
     se_args_truncated = False, se_cwd = None\<rparr> 2 = tx_seed"
  by (simp add: evals tx_seed_def)

lemmas tx_defs = tx_empty_def tx_start_def tx_lookup_def

lemma tx_good: "table_good tx_empty"
  by (simp add: table_good_def table_ok_def table_inv_def entries_ok_def total_bytes_def tx_empty_def bt_invar_def bt_keys_def)

lemma tx_step: "table_step tx_empty (snd (snd (table_start tx_start 2 tx_lookup tx_empty)))"
  by (rule step_start [of tx_start 2 tx_lookup _ "fst (table_start tx_start 2 tx_lookup tx_empty)"
      "fst (snd (table_start tx_start 2 tx_lookup tx_empty))"]) simp

section \<open>Properties\<close>

text \<open>C26: the process table stays within its room. Through any run of starts and reaps, whatever
  \<open>/proc\<close> answers, it holds at most 32768 processes under at most 1 MiB of counted bytes; the
  running count is exactly the sum over the entries, so the subtractions never wrap, and every
  entry is stored under its own process id as well-formed text within its limits.\<close>

theorem table_run_bounded:
  assumes "table_step\<^sup>*\<^sup>* t t'" and "table_good t"
  shows "length (pt_entries t') \<le> MAX_ENTRIES \<and> pt_bytes t' \<le> MAX_BYTES \<and>
    pt_bytes t' = sum_list (map (\<lambda>(_, e). entry_bytes e) (pt_entries t')) \<and>
    (\<forall>pid e. bt_get (pt_entries t') pid = Some e \<longrightarrow> te_pid e = pid \<and> entry_ok e)"
  using processes.inv_run [OF assms]
  by (auto simp: table_good_def table_ok_def table_inv_def entries_ok_def total_bytes_def dest!: bt_get_in_set)

theorem table_run_bounded_witness:
  "length (pt_entries (snd (snd (table_start tx_start 2 tx_lookup tx_empty)))) \<le> MAX_ENTRIES"
  using table_run_bounded [OF r_into_rtranclp [of table_step, OF tx_step] tx_good] by blast

text \<open>C27: the lineage of a start. The ancestors are at most five different processes, each the
  parent of the one before, beginning with the parent of the start. The event then holds exactly the
  values of the process, its parent and the sorted names and paths of its ancestors: nothing is
  refused. The command line is all arguments joined by spaces, cut at its limit on a character
  boundary. The one condition is that no ancestor's path outgrows its key: the bracketed name given
  to a process whose path cannot be read may be two bytes longer than a path.\<close>

theorem start_lineage:
  assumes "table_start s now lookup t = (ev, li, t')" and "table_good t"
  shows "length (li_ancestors li) \<le> ALARM_ANCESTORS \<and> distinct (map te_pid (li_ancestors li)) \<and>
    chained (ps_ppid s) (li_ancestors li) \<and> li_process li = from_start s now \<and>
    (list_all (\<lambda>e. length (te_exe e) \<le> PATH_BYTES) (li_ancestors li) \<longrightarrow>
      event_get ev = start_values (from_start s now)
        (fst (cut_text (join_spaces (map lossy (ps_args s))) CMDLINE_BYTES))
        (snd (cut_text (join_spaces (map lossy (ps_args s))) CMDLINE_BYTES) \<or> ps_args_truncated s)
        (li_ancestors li))"
proof -
  note good = table_start_good [OF assms]
  have "length (fst (cmdline (ps_args s))) \<le> CMDLINE_BYTES"
    unfolding cmdline_spec using cut_text_spec(1) by (metis prod.collapse)
  then have "event_get (start_event (from_start s now) (fst (cmdline (ps_args s)))
      (snd (cmdline (ps_args s)) \<or> ps_args_truncated s) (li_ancestors li)) =
    start_values (from_start s now) (fst (cmdline (ps_args s))) (snd (cmdline (ps_args s)) \<or> ps_args_truncated s) (li_ancestors li)"
    if "list_all (\<lambda>e. length (te_exe e) \<le> PATH_BYTES) (li_ancestors li)"
    using start_event_values [OF from_start_ok] good that by auto
  then show ?thesis using good by (simp add: ancestors_ok_def cmdline_spec)
qed

theorem start_lineage_witness:
  "event_get (fst (table_start tx_start 2 tx_lookup tx_empty)) ''parent.exe'' = Some (EvString ''[a]'') \<and>
   event_get (fst (table_start tx_start 2 tx_lookup tx_empty)) ''process.cmdline'' = Some (EvString ''sh'')"
proof -
  obtain ev li t' where st: "table_start tx_start 2 tx_lookup tx_empty = (ev, li, t')" by (metis prod_cases3)
  have "li_ancestors (fst (snd (table_start tx_start 2 tx_lookup tx_empty))) = [tx_seed]"
    by (simp add: table_start_def ancestors_loop.simps Let_def seed_missing_def table_insert_def tx_defs tx_from_seeded bt_contains_key_def
      bt_get_def ALARM_ANCESTORS_def MAX_ENTRIES_def MAX_BYTES_def split: prod.splits)
      (simp add: tx_seed_def entry_bytes_def ENTRY_OVERHEAD_def)
  then have anc: "li_ancestors li = [tx_seed]" by (simp add: st)
  have seed: "te_exe tx_seed = ''[a]''" "te_args tx_seed = []" by (simp_all add: tx_seed_def)
  have "list_all (\<lambda>e. length (te_exe e) \<le> PATH_BYTES) (li_ancestors li)" by (simp add: anc seed PATH_BYTES_def)
  then have "event_get ev = start_values (from_start tx_start 2)
        (fst (cut_text (join_spaces (map lossy (ps_args tx_start))) CMDLINE_BYTES))
        (snd (cut_text (join_spaces (map lossy (ps_args tx_start))) CMDLINE_BYTES) \<or> ps_args_truncated tx_start)
        (li_ancestors li)" using start_lineage [OF st tx_good] by blast
  moreover have "lossy ''sh'' = ''sh''" by (rule lossy_id) simp
  ultimately show ?thesis using st by (simp add: start_values_def anc seed tx_start_def cut_text_def CMDLINE_BYTES_def map_add_def
    split: option.splits)
qed

text \<open>What goes when the table is full. Whenever one process is evicted and another stays, the
  evicted one ranks before it: exited processes go first, then those read from \<open>/proc\<close>, then running
  ones, within each the oldest first. Afterwards an eighth of the room is free.\<close>

theorem eviction_order:
  assumes "table_inv t" and "bt_get (pt_entries t) k = Some e" and "bt_get (pt_entries (evict t)) k = None"
    and "bt_get (pt_entries (evict t)) k' = Some e'"
  shows "evict_rank e < evict_rank e' \<and> length (pt_entries (evict t)) \<le> MAX_ENTRIES div 8 * 7 \<and>
    pt_bytes (evict t) \<le> MAX_BYTES div 8 * 7"
proof -
  have "(k, e) \<notin> set (pt_entries (evict t))"
    using assms(3) by (force simp: bt_get_def map_of_eq_None_iff)
  then show ?thesis using evict_order [OF assms(1) bt_get_in_set [OF assms(2)] _ bt_get_in_set [OF assms(4)]]
      evict_bounds [OF assms(1)] by blast
qed

definition tx_entry :: "nat \<Rightarrow> nat \<Rightarrow> nat option \<Rightarrow> table_entry" where
  "tx_entry pid n exited = \<lparr>te_pid = pid, te_ppid = 0, te_uid = 0, te_euid = 0, te_exe = replicate n CHR ''a'', te_name = [],
     te_args = [], te_args_truncated = False, te_cwd = None, te_seeded = False, te_synthetic_exe = False, te_seen = 1,
     te_exited = exited\<rparr>"

definition tx_full :: process_table where
  "tx_full = \<lparr>pt_entries = [(5, tx_entry 5 10 None), (6, tx_entry 6 2000000 (Some 3))], pt_bytes = 2000330\<rparr>"

lemma tx_evict: "evict tx_full = \<lparr>pt_entries = [(5, tx_entry 5 10 None)], pt_bytes = 170\<rparr>"
proof -
  have b: "entry_bytes (tx_entry pid n x) = 160 + n" for pid n x
    by (simp add: entry_bytes_def tx_entry_def ENTRY_OVERHEAD_def)
  have r: "evict_rank (tx_entry pid n x) = (case x of None \<Rightarrow> (2, 1, pid) | Some a \<Rightarrow> (0, a, pid))" for pid n x
    by (simp add: evict_rank_def tx_entry_def split: option.splits)
  show ?thesis
    by (simp add: evict_def tx_full_def bt_values_def r table_remove_def bt_get_def bt_remove_def b MAX_ENTRIES_def MAX_BYTES_def)
qed

theorem eviction_order_witness: "evict_rank (tx_entry 6 2000000 (Some 3)) < evict_rank (tx_entry 5 10 None)"
proof -
  have "table_inv tx_full"
    by (simp add: table_inv_def tx_full_def bt_invar_def bt_keys_def total_bytes_def entry_bytes_def tx_entry_def ENTRY_OVERHEAD_def)
  from eviction_order [OF this, of 6 "tx_entry 6 2000000 (Some 3)" 5 "tx_entry 5 10 None"] show ?thesis
    by (simp add: tx_evict) (simp add: tx_full_def bt_get_def)
qed

end
