(* ===== verification/Alarm_Queue.thy ===== *)
theory Alarm_Queue
  imports Alarms Database Transitions Ordered_Map
begin

text \<open>
  The alarm queue: \<open>openvibes-storage/src/alarms.rs\<close>. The table \<open>alarms\<close> is the list of its rows in
  the order of \<open>seq\<close>; the statements, transactions and faults are modelled as in \<open>Finding_Queue\<close>.
\<close>

section \<open>Definitions\<close>

record alarm_row =
  ar_seq :: int
  ar_alarm_id :: string
  ar_body :: string
  ar_first_seen_ms :: int
  ar_last_seen_ms :: int
  ar_count :: int
  ar_sent :: int

record alarm_queue =
  aq_alarms :: "alarm_row list"
  aq_counters :: "(string, int) btree_map"

record alarm_env =
  ae_fault :: "nat \<Rightarrow> sqlite_code option"
  ae_encode :: "alarm \<Rightarrow> string option"
  ae_decode :: "string \<Rightarrow> alarm option"
  ae_json :: alarm_json

definition ALARM_QUEUE_MAX :: nat where "ALARM_QUEUE_MAX = 1000"
definition GROWS_FOR_MS :: int where "GROWS_FOR_MS = 600000"
definition ALARM_BATCH_WRAPPER_BYTES :: nat where "ALARM_BATCH_WRAPPER_BYTES = 1024"

definition add_dropped :: "nat \<Rightarrow> alarm_queue \<Rightarrow> (alarm_queue, sqlite_code) result" where
  "add_dropped n q =
     (if n > 0 then
        (case bt_get (aq_counters q) ''dropped'' of
           None \<Rightarrow> Ok (q\<lparr>aq_counters := bt_insert ''dropped'' (sql_int n) (aq_counters q)\<rparr>)
         | Some old \<Rightarrow> rbind (sql_add old (sql_int n)) (\<lambda>v.
             Ok (q\<lparr>aq_counters := bt_insert ''dropped'' v (aq_counters q)\<rparr>)))
      else Ok q)"

definition next_alarm_seq :: "alarm_row list \<Rightarrow> int" where
  "next_alarm_seq rows = (if rows = [] then 1 else ar_seq (last rows) + 1)"

definition insert_or_grow :: "alarm \<Rightarrow> string \<Rightarrow> alarm_row list \<Rightarrow> alarm_row list" where
  "insert_or_grow a body rows =
     (let fid = as_str (al_alarm_id a) in
      if list_ex (\<lambda>r. ar_alarm_id r = fid) rows
      then map (\<lambda>r. if ar_alarm_id r = fid
         then r\<lparr>ar_count := max (ar_count r) (int (al_count a)),
                ar_last_seen_ms := max (ar_last_seen_ms r) (al_last_seen_unix_ms a), ar_sent := 0\<rparr>
         else r) rows
      else rows @ [\<lparr>ar_seq = next_alarm_seq rows, ar_alarm_id = fid, ar_body = body,
         ar_first_seen_ms = al_first_seen_unix_ms a, ar_last_seen_ms = al_last_seen_unix_ms a,
         ar_count = int (al_count a), ar_sent = 0\<rparr>])"

fun delete_first :: "('a \<Rightarrow> bool) \<Rightarrow> 'a list \<Rightarrow> 'a list" where
  "delete_first P [] = []"
| "delete_first P (x # xs) = (if P x then xs else x # delete_first P xs)"

definition evict_one :: "alarm_queue \<Rightarrow> (alarm_queue, sqlite_code) result" where
  "evict_one q =
     (if length (aq_alarms q) > ALARM_QUEUE_MAX then
        if list_ex (\<lambda>r. ar_sent r = 1) (aq_alarms q)
        then Ok (q\<lparr>aq_alarms := delete_first (\<lambda>r. ar_sent r = 1) (aq_alarms q)\<rparr>)
        else add_dropped 1 (q\<lparr>aq_alarms := tl (aq_alarms q)\<rparr>)
      else Ok q)"

definition upsert_one :: "alarm \<Rightarrow> string \<Rightarrow> alarm_queue \<Rightarrow> (alarm_queue, sqlite_code) result" where
  "upsert_one a body q =
     (let kept = filter (\<lambda>r. \<not> (ar_sent r = 1 \<and>
            ar_first_seen_ms r < i64_saturating_sub (al_last_seen_unix_ms a) GROWS_FOR_MS)) (aq_alarms q)
      in evict_one (q\<lparr>aq_alarms := insert_or_grow a body kept\<rparr>))"

text \<open>The loop of \<open>upsert_all\<close>: an error is the early return that drops the transaction.\<close>

fun upsert_loop ::
  "alarm_env \<Rightarrow> alarm list \<Rightarrow> nat \<Rightarrow> alarm_queue \<Rightarrow> (nat \<times> alarm_queue, storage_error) result" where
  "upsert_loop E [] refused q = Ok (refused, q)"
| "upsert_loop E (a # as) refused q =
     (if alarm_validate (ae_json E) a V1 = Ok () then
        (case ae_encode E a of
           None \<Rightarrow> Err SE_Corrupt
         | Some body \<Rightarrow>
             rbind (map_err from_rusqlite (upsert_one a body q)) (\<lambda>q'. upsert_loop E as refused q'))
      else upsert_loop E as (refused + 1) q)"

definition upsert_all :: "alarm_env \<Rightarrow> alarm list \<Rightarrow> (alarm_queue, nat, storage_error) action" where
  "upsert_all E as q =
     (case ae_fault E 0 of
        Some c \<Rightarrow> (Err (from_rusqlite c), q)
      | None \<Rightarrow>
          (case upsert_loop E as 0 q of
             Err e \<Rightarrow> (Err e, q)
           | Ok (refused, q') \<Rightarrow> (Ok refused, q')))"

definition upsert :: "alarm_env \<Rightarrow> alarm \<Rightarrow> (alarm_queue, unit, storage_error) action" where
  "upsert E a q =
     (case upsert_all E [a] q of
        (Err e, q') \<Rightarrow> (Err e, q')
      | (Ok refused, q') \<Rightarrow> (if refused = 0 then Ok () else Err SE_Corrupt, q'))"

definition row_alarm :: "alarm_env \<Rightarrow> alarm_row \<Rightarrow> alarm option" where
  "row_alarm E r =
     (case ae_decode E (ar_body r) of
        None \<Rightarrow> None
      | Some a \<Rightarrow>
          let a' = a\<lparr>al_last_seen_unix_ms := ar_last_seen_ms r, al_count := nat (ar_count r)\<rparr> in
          if alarm_validate (ae_json E) a' V1 = Ok () then Some a' else None)"

definition alarm_size :: "alarm_env \<Rightarrow> alarm \<Rightarrow> nat" where
  "alarm_size E a = (case aj_alarm (ae_json E) a of Some n \<Rightarrow> n | None \<Rightarrow> 2 ^ 64 - 1) + 1"

fun alarm_batch_loop ::
  "alarm_env \<Rightarrow> nat \<Rightarrow> alarm_row list \<Rightarrow> alarm list \<Rightarrow> nat \<Rightarrow> (alarm_queue, alarm list, storage_error) action" where
  "alarm_batch_loop E n [] batch bytes q = (Ok batch, q)"
| "alarm_batch_loop E n (r # rows) batch bytes q =
     (case row_alarm E r of
        None \<Rightarrow>
          abind (txn (ae_fault E n) (\<lambda>q. ((), q\<lparr>aq_alarms := filter (\<lambda>x. ar_seq x \<noteq> ar_seq r) (aq_alarms q)\<rparr>))) (\<lambda>_.
          abind (txn_try (ae_fault E (n + 1)) (\<lambda>q. rbind (add_dropped 1 q) (\<lambda>q'. Ok ((), q')))) (\<lambda>_.
          alarm_batch_loop E (n + 2) rows batch bytes)) q
      | Some a \<Rightarrow>
          if length batch = ALARMS_PER_BATCH \<or> bytes + alarm_size E a > ALARM_BATCH_BYTES then (Ok batch, q)
          else alarm_batch_loop E n rows (batch @ [a]) (bytes + alarm_size E a) q)"

definition is_u32 :: "int \<Rightarrow> bool" where
  "is_u32 v \<longleftrightarrow> 0 \<le> v \<and> v < 2 ^ 32"

definition unsent_rows :: "alarm_queue \<Rightarrow> alarm_row list" where
  "unsent_rows q = take ALARMS_PER_BATCH (filter (\<lambda>r. ar_sent r = 0) (aq_alarms q))"

definition batch :: "alarm_env \<Rightarrow> (alarm_queue, alarm list, storage_error) action" where
  "batch E q =
     (case ae_fault E 0 of
        Some c \<Rightarrow> (Err (from_rusqlite c), q)
      | None \<Rightarrow>
          if list_all (\<lambda>r. is_u32 (ar_count r)) (unsent_rows q)
          then alarm_batch_loop E 1 (unsent_rows q) [] ALARM_BATCH_WRAPPER_BYTES q
          else (Err SE_Unavailable, q))"

definition mark_sent :: "alarm \<Rightarrow> alarm_row \<Rightarrow> alarm_row" where
  "mark_sent a r =
     (if ar_alarm_id r = as_str (al_alarm_id a) \<and> ar_count r = int (al_count a) \<and>
         ar_last_seen_ms r = al_last_seen_unix_ms a
      then r\<lparr>ar_sent := 1\<rparr> else r)"

definition sent :: "alarm_env \<Rightarrow> alarm list \<Rightarrow> (alarm_queue, unit, storage_error) action" where
  "sent E as = txn (ae_fault E 0) (\<lambda>q.
     ((), q\<lparr>aq_alarms := foldl (\<lambda>rows a. map (mark_sent a) rows) (aq_alarms q) as\<rparr>))"

fun remove_all :: "alarm list \<Rightarrow> nat \<Rightarrow> alarm_row list \<Rightarrow> nat \<times> alarm_row list" where
  "remove_all [] removed rows = (removed, rows)"
| "remove_all (a # as) removed rows =
     (let kept = filter (\<lambda>r. ar_alarm_id r \<noteq> as_str (al_alarm_id a)) rows in
      remove_all as (removed + (length rows - length kept)) kept)"

definition drop_batch :: "alarm_env \<Rightarrow> alarm list \<Rightarrow> (alarm_queue, unit, storage_error) action" where
  "drop_batch E as = txn_try (ae_fault E 0) (\<lambda>q.
     case remove_all as 0 (aq_alarms q) of (removed, rows) \<Rightarrow>
       rbind (add_dropped removed (q\<lparr>aq_alarms := rows\<rparr>)) (\<lambda>q'. Ok ((), q')))"

definition add_lost :: "alarm_env \<Rightarrow> nat \<Rightarrow> (alarm_queue, unit, storage_error) action" where
  "add_lost E n = txn_try (ae_fault E 0) (\<lambda>q. rbind (add_dropped n q) (\<lambda>q'. Ok ((), q')))"

definition alarm_dropped_total :: "alarm_queue \<Rightarrow> nat" where
  "alarm_dropped_total q = (case bt_get (aq_counters q) ''dropped'' of None \<Rightarrow> 0 | Some v \<Rightarrow> nat (max v 0))"

definition alarm_pending :: "alarm_queue \<Rightarrow> nat" where
  "alarm_pending q = length (filter (\<lambda>r. ar_sent r = 0) (aq_alarms q))"

subsection \<open>Opening the queue\<close>

definition ALARMS_APPLICATION_ID :: int where
  "ALARMS_APPLICATION_ID = 0x4F564131"

definition alarms_schema_v1 :: "alarm_queue option script" where
  "alarms_schema_v1 d =
     (case db_content d of
        Some _ \<Rightarrow> Err OtherCode
      | None \<Rightarrow> Ok (d\<lparr>db_content := Some \<lparr>aq_alarms = [], aq_counters = []\<rparr>, db_user_version := 1\<rparr>))"

definition alarm_queue_open ::
  "open_env \<Rightarrow> sqlite_code option \<Rightarrow> alarm_queue option db \<Rightarrow>
   ((unit, storage_error) result \<times> alarm_queue option db) option" where
  "alarm_queue_open E pragma d =
     (case open_database E ALARMS_APPLICATION_ID alarms_schema_v1 [] d of
        None \<Rightarrow> None
      | Some (Err e, d') \<Rightarrow> Some (Err e, d')
      | Some (Ok _, d') \<Rightarrow>
          (case pragma of Some c \<Rightarrow> Some (Err (from_rusqlite c), d') | None \<Rightarrow> Some (Ok (), d')))"

definition alarms_kept :: "alarm_queue option \<Rightarrow> alarm_queue" where
  "alarms_kept c = (case c of None \<Rightarrow> \<lparr>aq_alarms = [], aq_counters = []\<rparr> | Some q \<Rightarrow> q)"

interpretation alarm_migration: migration alarms_schema_v1 "[]" "\<lambda>c. alarms_kept c = q"
  by unfold_locales (auto simp: alarms_schema_v1_def alarms_kept_def i64_max_def split: option.splits)

section \<open>The invariant\<close>

text \<open>Rows are in key order with distinct identifiers, at most a thousand, and each is sent or not.\<close>

definition alarm_rows_inv :: "alarm_row list \<Rightarrow> bool" where
  "alarm_rows_inv rs \<longleftrightarrow> sorted_wrt (\<lambda>r s. ar_seq r < ar_seq s \<and> ar_alarm_id r \<noteq> ar_alarm_id s) rs \<and>
     list_all (\<lambda>r. ar_sent r = 0 \<or> ar_sent r = 1) rs"

definition alarm_queue_inv :: "alarm_queue \<Rightarrow> bool" where
  "alarm_queue_inv q \<longleftrightarrow> alarm_rows_inv (aq_alarms q) \<and> length (aq_alarms q) \<le> ALARM_QUEUE_MAX \<and> bt_invar (aq_counters q)"

definition dropped_value :: "alarm_queue \<Rightarrow> int" where
  "dropped_value q = (case bt_get (aq_counters q) ''dropped'' of None \<Rightarrow> 0 | Some v \<Rightarrow> v)"

abbreviation alarm_ids :: "alarm_row list \<Rightarrow> string set" where
  "alarm_ids rs \<equiv> ar_alarm_id ` set rs"

definition unsent_ids :: "alarm_row list \<Rightarrow> string set" where
  "unsent_ids rs = ar_alarm_id ` {r \<in> set rs. ar_sent r = 0}"

lemma sorted_wrt_subseq: "subseq xs ys \<Longrightarrow> sorted_wrt P ys \<Longrightarrow> sorted_wrt P xs"
proof (induction rule: list_emb.induct)
  case (list_emb_Cons2 x y xs ys)
  then have "set xs \<subseteq> set ys" by (auto dest: list_emb_set)
  with list_emb_Cons2 show ?case by auto
qed auto

lemma alarm_rows_inv_subseq: "alarm_rows_inv ys \<Longrightarrow> subseq xs ys \<Longrightarrow> alarm_rows_inv xs"
  unfolding alarm_rows_inv_def
  by (metis (mono_tags, lifting) sorted_wrt_subseq list_all_iff list_emb_set)

lemma subseq_delete_first: "subseq (delete_first P xs) xs"
  by (induction xs) auto

lemma length_delete_first: "list_ex P xs \<Longrightarrow> Suc (length (delete_first P xs)) = length xs"
  by (induction xs) auto

lemma delete_first_removes:
  "x \<in> set xs \<Longrightarrow> \<not> P x \<Longrightarrow> x \<in> set (delete_first P xs)"
  by (induction xs) auto

lemma alarm_rows_inv_insert:
  assumes "alarm_rows_inv rs"
  shows "alarm_rows_inv (insert_or_grow a body rs) \<and> length (insert_or_grow a body rs) \<le> Suc (length rs) \<and>
    unsent_ids rs \<subseteq> unsent_ids (insert_or_grow a body rs)"
proof (cases "list_ex (\<lambda>r. ar_alarm_id r = as_str (al_alarm_id a)) rs")
  case True
  define grow where "grow = (\<lambda>r :: alarm_row. if ar_alarm_id r = as_str (al_alarm_id a)
    then r\<lparr>ar_count := max (ar_count r) (int (al_count a)), ar_last_seen_ms := max (ar_last_seen_ms r) (al_last_seen_unix_ms a),
      ar_sent := 0\<rparr> else r)"
  have grow: "ar_seq (grow r) = ar_seq r" "ar_alarm_id (grow r) = ar_alarm_id r" "ar_sent (grow r) = 0 \<or> grow r = r" for r
    by (simp_all add: grow_def)
  have "unsent_ids rs \<subseteq> unsent_ids (map grow rs)"
  proof
    fix i assume "i \<in> unsent_ids rs"
    then obtain r where r: "r \<in> set rs" "ar_sent r = 0" "i = ar_alarm_id r" by (auto simp: unsent_ids_def)
    then have "grow r \<in> set (map grow rs)" "ar_sent (grow r) = 0" using grow(3) [of r] by auto
    then show "i \<in> unsent_ids (map grow rs)" unfolding unsent_ids_def using r(3) grow(2) [of r] by (metis (mono_tags, lifting) imageI mem_Collect_eq)
  qed
  moreover have "alarm_rows_inv (map grow rs)"
    using assms grow(3) by (auto simp: alarm_rows_inv_def sorted_wrt_map grow(1,2) list_all_iff) metis
  moreover have "insert_or_grow a body rs = map grow rs" using True by (simp add: insert_or_grow_def Let_def grow_def)
  ultimately show ?thesis by simp
next
  case False
  then show ?thesis using assms
    by (cases rs rule: rev_cases)
      (auto simp: insert_or_grow_def Let_def alarm_rows_inv_def sorted_wrt_append next_alarm_seq_def unsent_ids_def
        list_ex_iff)
qed

lemma add_dropped_spec:
  assumes "add_dropped n q = Ok q'" "bt_invar (aq_counters q)"
  shows "aq_alarms q' = aq_alarms q \<and> bt_invar (aq_counters q') \<and> dropped_value q \<le> dropped_value q' \<and>
    (int n \<le> i64_max \<longrightarrow> dropped_value q' = dropped_value q + int n)"
  using assms
  by (auto simp: dropped_value_def add_dropped_def sql_int_def sql_add_Ok rbind_Ok_iff bt.lookup_update bt.invar_update
      i64_max_def split: option.splits if_splits)

text \<open>What inserting one alarm keeps: the invariant, and every unsent alarm that is not counted as
  dropped.\<close>

lemma finite_unsent [simp]: "finite (unsent_ids rs)"
  by (simp add: unsent_ids_def)

text \<open>What a call may lose: no unsent alarm goes without being counted, up to \<open>k\<close> of them.\<close>

definition loss_counted :: "nat \<Rightarrow> alarm_queue \<Rightarrow> alarm_queue \<Rightarrow> bool" where
  "loss_counted k q q' \<longleftrightarrow>
     int (card (unsent_ids (aq_alarms q) - unsent_ids (aq_alarms q'))) \<le> dropped_value q' - dropped_value q + int k"

lemma loss_counted_refl [simp]: "loss_counted k q q"
  by (simp add: loss_counted_def)

lemma loss_counted_trans: "loss_counted i q q1 \<Longrightarrow> loss_counted j q1 q2 \<Longrightarrow> loss_counted (i + j) q q2"
proof -
  assume a: "loss_counted i q q1" "loss_counted j q1 q2"
  let ?U = "\<lambda>q. unsent_ids (aq_alarms q)"
  have "card (?U q - ?U q2) \<le> card ((?U q - ?U q1) \<union> (?U q1 - ?U q2))" by (rule card_mono) auto
  also have "\<dots> \<le> card (?U q - ?U q1) + card (?U q1 - ?U q2)" by (rule card_Un_le)
  finally show ?thesis using a unfolding loss_counted_def by linarith
qed

lemma loss_counted_mono: "loss_counted 0 q q' \<Longrightarrow> dropped_value q \<le> dropped_value q'"
  unfolding loss_counted_def by linarith

lemma loss_countedI:
  assumes "unsent_ids (aq_alarms q) - unsent_ids (aq_alarms q') \<subseteq> S" "finite S"
    and "int (card S) \<le> dropped_value q' - dropped_value q + int k"
  shows "loss_counted k q q'"
  using card_mono [OF assms(2,1)] assms(3) unfolding loss_counted_def by linarith

lemma dropped_value_alarms [simp]: "dropped_value (q\<lparr>aq_alarms := rs\<rparr>) = dropped_value q"
  by (simp add: dropped_value_def)

lemma evict_one_spec:
  assumes "evict_one q = Ok q'"
    and "alarm_rows_inv (aq_alarms q)" "length (aq_alarms q) \<le> Suc ALARM_QUEUE_MAX" "bt_invar (aq_counters q)"
  shows "alarm_queue_inv q' \<and> loss_counted 0 q q'"
proof (cases "length (aq_alarms q) > ALARM_QUEUE_MAX")
  case False
  then show ?thesis using assms by (simp add: evict_one_def alarm_queue_inv_def)
next
  case full: True
  show ?thesis
  proof (cases "list_ex (\<lambda>r. ar_sent r = 1) (aq_alarms q)")
    case True
    let ?rs = "delete_first (\<lambda>r. ar_sent r = 1) (aq_alarms q)"
    have q': "q' = q\<lparr>aq_alarms := ?rs\<rparr>" using assms(1) full True by (simp add: evict_one_def)
    have "unsent_ids (aq_alarms q) \<subseteq> unsent_ids ?rs"
      by (auto simp: unsent_ids_def intro!: imageI delete_first_removes)
    then have "loss_counted 0 q q'" by (intro loss_countedI [of _ _ "{}"]) (auto simp: q')
    then show ?thesis
      using full assms alarm_rows_inv_subseq [OF assms(2) subseq_delete_first] length_delete_first [OF True]
      by (simp add: q' alarm_queue_inv_def)
  next
    case False
    obtain r rs where rs: "aq_alarms q = r # rs" using full by (cases "aq_alarms q") auto
    have "add_dropped 1 (q\<lparr>aq_alarms := rs\<rparr>) = Ok q'" using assms(1) full False rs by (simp add: evict_one_def)
    from add_dropped_spec [OF this] assms(4)
    have q': "aq_alarms q' = rs" "bt_invar (aq_counters q')" "dropped_value q' = dropped_value q + 1"
      by (simp_all add: i64_max_def)
    have "loss_counted 0 q q'"
      by (rule loss_countedI [of _ _ "{ar_alarm_id r}"]) (auto simp: unsent_ids_def rs q')
    moreover have "alarm_rows_inv rs"
      using assms(2) rs by (auto intro: alarm_rows_inv_subseq list_emb_Cons)
    ultimately show ?thesis using assms(3) rs q' by (simp add: alarm_queue_inv_def)
  qed
qed

lemma upsert_one_spec:
  assumes "upsert_one a body q = Ok q'" and "alarm_queue_inv q"
  shows "alarm_queue_inv q' \<and> loss_counted 0 q q'"
proof -
  define kept where "kept = filter (\<lambda>r. \<not> (ar_sent r = 1 \<and>
     ar_first_seen_ms r < i64_saturating_sub (al_last_seen_unix_ms a) GROWS_FOR_MS)) (aq_alarms q)"
  let ?q = "q\<lparr>aq_alarms := insert_or_grow a body kept\<rparr>"
  have inv: "alarm_rows_inv kept"
    unfolding kept_def using assms(2) alarm_rows_inv_subseq [OF _ subseq_filter_left] by (auto simp: alarm_queue_inv_def)
  note ins = alarm_rows_inv_insert [OF inv, of a body]
  have len: "length kept \<le> ALARM_QUEUE_MAX"
    unfolding kept_def using assms(2) by (auto simp: alarm_queue_inv_def intro: le_trans [OF length_filter_le])
  have "evict_one ?q = Ok q'" using assms(1) by (simp add: upsert_one_def Let_def kept_def)
  from evict_one_spec [OF this] have e: "alarm_queue_inv q' \<and> loss_counted 0 ?q q'"
    using ins len assms(2) by (simp add: alarm_queue_inv_def)
  have "unsent_ids (aq_alarms q) \<subseteq> unsent_ids kept" by (auto simp: unsent_ids_def kept_def)
  then have "loss_counted 0 q ?q" using ins by (intro loss_countedI [of _ _ "{}"]) auto
  from loss_counted_trans [OF this conjunct2 [OF e]] e show ?thesis by simp
qed

lemma upsert_loop_spec:
  "upsert_loop E as n q = Ok (m, q') \<Longrightarrow> alarm_queue_inv q \<Longrightarrow> alarm_queue_inv q' \<and> loss_counted 0 q q'"
proof (induction as arbitrary: n q)
  case (Cons a as)
  show ?case
  proof (cases "alarm_validate (ae_json E) a V1 = Ok ()")
    case True
    then obtain body q1 where q1: "upsert_one a body q = Ok q1" "upsert_loop E as n q1 = Ok (m, q')"
      using Cons.prems(1) by (auto simp: rbind_Ok_iff map_err_Ok_iff split: option.splits)
    from upsert_one_spec [OF q1(1) Cons.prems(2)] Cons.IH [OF q1(2)] show ?thesis
      using loss_counted_trans [of 0 q q1 0 q'] by simp
  qed (use Cons in simp)
qed simp

lemma unsent_filter: "unsent_ids rs - unsent_ids (filter P rs) \<subseteq> ar_alarm_id ` {r \<in> set rs. \<not> P r}"
  by (auto simp: unsent_ids_def image_iff)

lemma card_unsent_filter: "card (unsent_ids rs - unsent_ids (filter P rs)) \<le> length rs - length (filter P rs)"
proof -
  have "card (unsent_ids rs - unsent_ids (filter P rs)) \<le> card (ar_alarm_id ` set (filter (\<lambda>r. \<not> P r) rs))"
    by (rule card_mono) (use unsent_filter [of rs P] in auto)
  also have "\<dots> \<le> length (filter (\<lambda>r. \<not> P r) rs)"
    by (rule le_trans [OF card_image_le card_length]) simp
  also have "\<dots> = length rs - length (filter P rs)" using sum_length_filter_compl [of P rs] by linarith
  finally show ?thesis .
qed

lemma alarm_rows_inv_filter: "alarm_rows_inv rs \<Longrightarrow> alarm_rows_inv (filter P rs)"
  by (rule alarm_rows_inv_subseq [OF _ subseq_filter_left])

lemma alarm_rows_inv_take: "alarm_rows_inv rs \<Longrightarrow> alarm_rows_inv (take n rs)"
  by (rule alarm_rows_inv_subseq [OF _ prefix_imp_subseq [OF take_is_prefix]])

lemma distinct_seqs: "alarm_rows_inv rs \<Longrightarrow> distinct (map ar_seq rs)"
  by (induction rs) (auto simp: alarm_rows_inv_def)

lemma inv_filter: "alarm_queue_inv q \<Longrightarrow> alarm_queue_inv (q\<lparr>aq_alarms := filter P (aq_alarms q)\<rparr>)"
  by (auto simp: alarm_queue_inv_def alarm_rows_inv_filter intro: le_trans [OF length_filter_le])

lemma inv_add_dropped: "add_dropped n q = Ok q' \<Longrightarrow> alarm_queue_inv q \<Longrightarrow> alarm_queue_inv q' \<and> dropped_value q \<le> dropped_value q'"
  using add_dropped_spec [of n q q'] by (simp add: alarm_queue_inv_def)

lemma remove_all_spec:
  "remove_all as n rs = (m, rs') \<Longrightarrow>
   \<exists>P. rs' = filter P rs \<and> m = n + (length rs - length rs')"
proof (induction as n rs rule: remove_all.induct)
  case (1 n rs)
  then show ?case by (intro exI [of _ "\<lambda>_. True"]) simp
next
  case (2 a as n rs)
  let ?k = "filter (\<lambda>r. ar_alarm_id r \<noteq> as_str (al_alarm_id a)) rs"
  from 2 obtain P where P: "rs' = filter P ?k" "m = n + (length rs - length ?k) + (length ?k - length rs')"
    by (auto simp: Let_def)
  have "length rs' \<le> length ?k" "length ?k \<le> length rs" by (simp_all add: P(1) del: filter_filter)
  then have "m = n + (length rs - length rs')" using P(2) by linarith
  then show ?case using P(1) by (intro exI [of _ "\<lambda>r. ar_alarm_id r \<noteq> as_str (al_alarm_id a) \<and> P r"]) simp
qed

lemma drop_batch_spec:
  assumes "drop_batch E as q = (r, q')" "alarm_queue_inv q"
  shows "alarm_queue_inv q' \<and> loss_counted 0 q q' \<and> (is_ok r \<or> q' = q)"
  using assms(1) unfolding drop_batch_def
proof (cases rule: txn_try_cases)
  case fault
  then show ?thesis using assms(2) by simp
next
  case (commit a)
  obtain m rs where ra: "remove_all as 0 (aq_alarms q) = (m, rs)" by fastforce
  from remove_all_spec [OF this] obtain P where P: "rs = filter P (aq_alarms q)" "m = length (aq_alarms q) - length rs" by auto
  have add: "add_dropped m (q\<lparr>aq_alarms := rs\<rparr>) = Ok q'" using commit ra by (simp add: rbind_Ok_iff)
  have "m \<le> 1000" using P(2) assms(2) unfolding alarm_queue_inv_def ALARM_QUEUE_MAX_def by linarith
  then have "int m \<le> i64_max" by (simp add: i64_max_def)
  with add_dropped_spec [OF add] assms(2) have "dropped_value q' = dropped_value q + int m" "aq_alarms q' = rs"
    by (simp_all add: alarm_queue_inv_def)
  moreover have "card (unsent_ids (aq_alarms q) - unsent_ids rs) \<le> m"
    using card_unsent_filter [of "aq_alarms q" P] unfolding P .
  moreover have "alarm_queue_inv (q\<lparr>aq_alarms := rs\<rparr>)" using inv_filter [OF assms(2), of P] by (simp add: P(1))
  ultimately show ?thesis using inv_add_dropped [OF add] commit(1) by (simp add: loss_counted_def)
qed

lemma upsert_all_spec:
  assumes "upsert_all E as q = (r, q')" "alarm_queue_inv q"
  shows "alarm_queue_inv q' \<and> loss_counted 0 q q' \<and> (is_ok r \<or> q' = q)"
proof (cases "ae_fault E 0 = None \<and> is_ok (upsert_loop E as 0 q)")
  case True
  then obtain m where "upsert_loop E as 0 q = Ok (m, q')" "r = Ok m" using assms(1) by (auto simp: upsert_all_def is_ok_iff)
  then show ?thesis using upsert_loop_spec assms(2) by simp
next
  case False
  then have "q' = q" using assms(1) by (auto simp: upsert_all_def split: option.splits prod.splits result.splits)
  then show ?thesis using assms(2) by simp
qed

text \<open>A row \<open>batch\<close> cannot read is deleted in one statement and counted in the next, so a call that
  fails between the two keeps the invariant but leaves that one row uncounted.\<close>

lemma delete_row_spec:
  assumes "alarm_queue_inv q" "r \<in> set (aq_alarms q)"
  defines "q' \<equiv> q\<lparr>aq_alarms := filter (\<lambda>x. ar_seq x \<noteq> ar_seq r) (aq_alarms q)\<rparr>"
  shows "alarm_queue_inv q' \<and> loss_counted 1 q q' \<and> (add_dropped 1 q' = Ok q'' \<longrightarrow> loss_counted 0 q q'')"
proof -
  have inv: "alarm_queue_inv q'" unfolding q'_def by (rule inv_filter [OF assms(1)])
  have "distinct (map ar_seq (aq_alarms q))" using assms(1) by (simp add: alarm_queue_inv_def distinct_seqs)
  then have "x = r" if "x \<in> set (aq_alarms q)" "ar_seq x = ar_seq r" for x
    using assms(2) that by (auto simp: distinct_map dest: inj_onD)
  then have "ar_alarm_id ` {x \<in> set (aq_alarms q). ar_seq x = ar_seq r} \<subseteq> {ar_alarm_id r}" by auto
  then have gone: "unsent_ids (aq_alarms q) - unsent_ids (aq_alarms q') \<subseteq> {ar_alarm_id r}"
    using unsent_filter [of "aq_alarms q" "\<lambda>x. ar_seq x \<noteq> ar_seq r"] by (auto simp: q'_def)
  have "loss_counted 1 q q'" by (rule loss_countedI [OF gone]) (simp_all add: q'_def)
  moreover have "loss_counted 0 q q''" if "add_dropped 1 q' = Ok q''"
    using add_dropped_spec [OF that] inv gone
    by (intro loss_countedI [of _ _ "{ar_alarm_id r}"]) (auto simp: alarm_queue_inv_def i64_max_def q'_def)
  ultimately show ?thesis using inv by blast
qed

lemma alarm_batch_loop_skip:
  assumes "row_alarm E r = None" "alarm_batch_loop E n (r # rows) b bytes q = (res, q')"
  defines "q1 \<equiv> q\<lparr>aq_alarms := filter (\<lambda>x. ar_seq x \<noteq> ar_seq r) (aq_alarms q)\<rparr>"
  obtains (counted) q2 where "add_dropped 1 q1 = Ok q2" "alarm_batch_loop E (n + 2) rows b bytes q2 = (res, q')"
  | (failed) "\<not> is_ok res" "q' = q \<or> q' = q1"
proof (cases "ae_fault E n = None \<and> ae_fault E (n + 1) = None \<and> is_ok (add_dropped 1 q1)")
  case True
  then obtain q2 where "add_dropped 1 q1 = Ok q2" by (auto simp: is_ok_iff)
  then show thesis using True assms by (intro counted) (auto simp: abind_def txn_def txn_try_def)
next
  case False
  then show thesis using assms
    by (intro failed; cases "ae_fault E n"; cases "ae_fault E (n + 1)"; cases "add_dropped 1 q1")
      (auto simp: abind_def txn_def txn_try_def q1_def)
qed

lemma alarm_batch_loop_spec:
  "alarm_batch_loop E n rows b bytes q = (res, q') \<Longrightarrow> alarm_queue_inv q \<Longrightarrow>
   set rows \<subseteq> set (aq_alarms q) \<Longrightarrow> distinct (map ar_seq rows) \<Longrightarrow>
   alarm_queue_inv q' \<and> dropped_value q \<le> dropped_value q' \<and> loss_counted (if is_ok res then 0 else 1) q q'"
proof (induction rows arbitrary: n b bytes q)
  case (Cons r rows)
  show ?case
  proof (cases "row_alarm E r")
    case (Some a)
    show ?thesis
    proof (cases "length b = ALARMS_PER_BATCH \<or> bytes + alarm_size E a > ALARM_BATCH_BYTES")
      case True
      then show ?thesis using Some Cons.prems(1,2) by simp
    next
      case False
      then have "alarm_batch_loop E n rows (b @ [a]) (bytes + alarm_size E a) q = (res, q')"
        using Some Cons.prems(1) by simp
      from Cons.IH [OF this] show ?thesis using Cons.prems by simp
    qed
  next
    case None
    let ?q1 = "q\<lparr>aq_alarms := filter (\<lambda>x. ar_seq x \<noteq> ar_seq r) (aq_alarms q)\<rparr>"
    have spec: "alarm_queue_inv ?q1 \<and> loss_counted 1 q ?q1 \<and> (add_dropped 1 ?q1 = Ok q2 \<longrightarrow> loss_counted 0 q q2)" for q2
      by (rule delete_row_spec [OF Cons.prems(2)]) (use Cons.prems(3) in simp)
    from None Cons.prems(1) show ?thesis
    proof (cases rule: alarm_batch_loop_skip)
      case (counted q2)
      have q2: "alarm_queue_inv q2" "aq_alarms q2 = aq_alarms ?q1" "loss_counted 0 q q2"
        using spec [of q2] counted(1) inv_add_dropped [OF counted(1)] add_dropped_spec [OF counted(1)]
        by (simp_all add: alarm_queue_inv_def)
      have "set rows \<subseteq> set (aq_alarms q2)" using Cons.prems(3,4) q2(2) by (auto simp: image_iff)
      from Cons.IH [OF counted(2) q2(1) this] Cons.prems(4) show ?thesis
        using loss_counted_trans [OF q2(3)] loss_counted_mono [OF q2(3)] by fastforce
    next
      case failed
      then show ?thesis using spec Cons.prems(2) by auto
    qed
  qed
qed simp

lemma batch_keeps:
  assumes "batch E q = (r, q')" "alarm_queue_inv q"
  shows "alarm_queue_inv q' \<and> dropped_value q \<le> dropped_value q' \<and> loss_counted (if is_ok r then 0 else 1) q q'"
proof (cases "ae_fault E 0 = None \<and> list_all (\<lambda>r. is_u32 (ar_count r)) (unsent_rows q)")
  case False
  then have "q' = q" using assms(1) by (auto simp: batch_def split: option.splits if_splits)
  then show ?thesis using assms(2) by simp
next
  case True
  have "distinct (map ar_seq (unsent_rows q))"
    using assms(2) unfolding unsent_rows_def
    by (intro distinct_seqs alarm_rows_inv_take alarm_rows_inv_filter) (simp add: alarm_queue_inv_def)
  moreover have "set (unsent_rows q) \<subseteq> set (aq_alarms q)"
    unfolding unsent_rows_def by (auto dest: in_set_takeD)
  moreover have "alarm_batch_loop E 1 (unsent_rows q) [] ALARM_BATCH_WRAPPER_BYTES q = (r, q')"
    using True assms(1) by (simp add: batch_def)
  ultimately show ?thesis using alarm_batch_loop_spec assms(2) by blast
qed

lemma mark_sent_simps [simp]:
  "ar_seq (mark_sent a r) = ar_seq r" "ar_alarm_id (mark_sent a r) = ar_alarm_id r"
  "ar_count (mark_sent a r) = ar_count r" "ar_last_seen_ms (mark_sent a r) = ar_last_seen_ms r"
  by (simp_all add: mark_sent_def)

lemma foldl_mark_sent: "foldl (\<lambda>rs a. map (mark_sent a) rs) rs as = map (\<lambda>r. foldl (\<lambda>r a. mark_sent a r) r as) rs"
  by (induction as arbitrary: rs) (auto simp: comp_def)

lemma marks_simps [simp]:
  "ar_seq (foldl (\<lambda>r a. mark_sent a r) r as) = ar_seq r" "ar_alarm_id (foldl (\<lambda>r a. mark_sent a r) r as) = ar_alarm_id r"
  by (induction as arbitrary: r) auto

lemma marks_sent: "ar_sent r = 0 \<or> ar_sent r = 1 \<Longrightarrow>
  ar_sent (foldl (\<lambda>r a. mark_sent a r) r as) = 0 \<or> ar_sent (foldl (\<lambda>r a. mark_sent a r) r as) = 1"
  by (induction as arbitrary: r) (auto simp: mark_sent_def)

lemma sent_inv:
  assumes "sent E as q = (r, q')" "alarm_queue_inv q"
  shows "alarm_queue_inv q' \<and> dropped_value q' = dropped_value q"
  using assms(1) unfolding sent_def
proof (cases rule: txn_cases)
  case (commit a)
  have "list_all (\<lambda>r. ar_sent r = 0 \<or> ar_sent r = 1) (map (\<lambda>r. foldl (\<lambda>r a. mark_sent a r) r as) rs)"
    if "list_all (\<lambda>r. ar_sent r = 0 \<or> ar_sent r = 1) rs" for rs
    using that by (simp add: list_all_iff marks_sent)
  then have "alarm_rows_inv (map (\<lambda>r. foldl (\<lambda>r a. mark_sent a r) r as) (aq_alarms q))"
    using assms(2) by (simp add: alarm_queue_inv_def alarm_rows_inv_def sorted_wrt_map del: list.pred_map)
  then show ?thesis using commit assms(2) by (auto simp: foldl_mark_sent alarm_queue_inv_def)
qed (use assms(2) in simp)

section \<open>Runs of the queue\<close>

text \<open>Any operation of the queue, whatever SQLite reports.\<close>

inductive alarm_step :: "alarm_queue \<Rightarrow> alarm_queue \<Rightarrow> bool" where
  step_upsert_all: "upsert_all E as q = (r, q') \<Longrightarrow> alarm_step q q'"
| step_batch: "batch E q = (r', q') \<Longrightarrow> alarm_step q q'"
| step_sent: "sent E as q = (r'', q') \<Longrightarrow> alarm_step q q'"
| step_drop_batch: "drop_batch E as q = (r'', q') \<Longrightarrow> alarm_step q q'"
| step_add_lost: "add_lost E n q = (r'', q') \<Longrightarrow> alarm_step q q'"

lemma alarm_step_spec:
  assumes "alarm_step q q'" "alarm_queue_inv q"
  shows "alarm_queue_inv q' \<and> dropped_value q \<le> dropped_value q'"
  using assms(1)
proof (cases rule: alarm_step.cases)
  case (step_upsert_all E as r)
  then show ?thesis using upsert_all_spec assms(2) loss_counted_mono by blast
next
  case (step_batch E r')
  then show ?thesis using batch_keeps assms(2) by blast
next
  case (step_sent E as r'')
  then show ?thesis using sent_inv [OF _ assms(2)] by fastforce
next
  case (step_drop_batch E as r'')
  then show ?thesis using drop_batch_spec assms(2) loss_counted_mono by blast
next
  case (step_add_lost E n r'')
  from step_add_lost show ?thesis unfolding add_lost_def
    by (cases rule: txn_try_cases) (use assms(2) inv_add_dropped in \<open>auto simp: rbind_Ok_iff\<close>)
qed

interpretation alarms: monotone_stepping alarm_step alarm_queue_inv dropped_value
  by unfold_locales (use alarm_step_spec in blast)+

section \<open>A repeat during delivery\<close>

definition grown_row :: "alarm \<Rightarrow> alarm_row \<Rightarrow> bool" where
  "grown_row b r \<longleftrightarrow> ar_alarm_id r = as_str (al_alarm_id b) \<and> ar_sent r = 0 \<and> int (al_count b) \<le> ar_count r \<and>
     al_last_seen_unix_ms b \<le> ar_last_seen_ms r"

lemma insert_or_grow_row:
  "\<exists>r \<in> set (insert_or_grow b body rs). grown_row b r \<and>
     (length (insert_or_grow b body rs) > length rs \<longrightarrow> insert_or_grow b body rs = rs @ [r])"
proof (cases "list_ex (\<lambda>r. ar_alarm_id r = as_str (al_alarm_id b)) rs")
  case True
  then obtain r where "r \<in> set rs" "ar_alarm_id r = as_str (al_alarm_id b)" by (auto simp: list_ex_iff)
  then show ?thesis using True by (intro bexI [of _ "r\<lparr>ar_count := max (ar_count r) (int (al_count b)),
      ar_last_seen_ms := max (ar_last_seen_ms r) (al_last_seen_unix_ms b), ar_sent := 0\<rparr>"])
    (auto simp: insert_or_grow_def Let_def grown_row_def image_iff intro!: bexI [of _ r])
qed (simp add: insert_or_grow_def Let_def grown_row_def)

lemma upsert_one_row:
  assumes "upsert_one b body q = Ok q'" and "alarm_queue_inv q"
  shows "\<exists>r \<in> set (aq_alarms q'). grown_row b r"
proof -
  define kept where "kept = filter (\<lambda>r. \<not> (ar_sent r = 1 \<and>
     ar_first_seen_ms r < i64_saturating_sub (al_last_seen_unix_ms b) GROWS_FOR_MS)) (aq_alarms q)"
  have len: "length kept \<le> ALARM_QUEUE_MAX"
    unfolding kept_def using assms(2) by (auto simp: alarm_queue_inv_def intro: le_trans [OF length_filter_le])
  let ?rs = "insert_or_grow b body kept"
  obtain r where r: "r \<in> set ?rs" "grown_row b r" "length ?rs > length kept \<longrightarrow> ?rs = kept @ [r]"
    using insert_or_grow_row by blast
  have up: "evict_one (q\<lparr>aq_alarms := ?rs\<rparr>) = Ok q'" using assms(1) by (simp add: upsert_one_def Let_def kept_def)
  show ?thesis
  proof (cases "length ?rs > ALARM_QUEUE_MAX")
    case False
    then show ?thesis using r up by (auto simp: evict_one_def)
  next
    case True
    then have split: "?rs = kept @ [r]" "kept \<noteq> []" using r(3) len by (auto simp: ALARM_QUEUE_MAX_def)
    have "r \<in> set (delete_first (\<lambda>r. ar_sent r = 1) ?rs)"
      by (rule delete_first_removes [OF r(1)]) (use r(2) in \<open>simp add: grown_row_def\<close>)
    moreover have "r \<in> set (tl ?rs)" using split by (cases kept) auto
    moreover have "aq_alarms q' = delete_first (\<lambda>r. ar_sent r = 1) ?rs \<or> aq_alarms q' = tl ?rs"
      using up True assms(2) add_dropped_spec [of 1 _ q'] by (auto simp: evict_one_def alarm_queue_inv_def split: if_splits)
    ultimately show ?thesis using r(2) by metis
  qed
qed

lemma marks_unchanged: "\<forall>a \<in> set as. mark_sent a r = r \<Longrightarrow> foldl (\<lambda>r a. mark_sent a r) r as = r"
  by (induction as) auto

section \<open>The bounds of a batch\<close>

lemma row_alarm_valid: "row_alarm E r = Some a \<Longrightarrow> alarm_validate (ae_json E) a V1 = Ok ()"
  by (auto simp: row_alarm_def Let_def split: option.splits if_splits)

lemma alarm_size_bound: "row_alarm E r = Some a \<Longrightarrow> alarm_size E a \<le> ALARM_BYTES + 1"
  using alarm_valid_serializes [OF row_alarm_valid] by (fastforce simp: alarm_size_def)

definition batch_ok :: "alarm_env \<Rightarrow> alarm list \<Rightarrow> bool" where
  "batch_ok E b \<longleftrightarrow> length b \<le> ALARMS_PER_BATCH \<and> list_all (\<lambda>a. alarm_validate (ae_json E) a V1 = Ok ()) b \<and>
     ALARM_BATCH_WRAPPER_BYTES + sum_list (map (alarm_size E) b) \<le> ALARM_BATCH_BYTES"

lemma alarm_batch_loop_ok:
  "alarm_batch_loop E n rows b bytes q = (Ok b', q') \<Longrightarrow> batch_ok E b \<Longrightarrow>
   bytes = ALARM_BATCH_WRAPPER_BYTES + sum_list (map (alarm_size E) b) \<Longrightarrow> batch_ok E b' \<and> prefix b b'"
proof (induction rows arbitrary: n b bytes q)
  case (Cons r rows)
  show ?case
  proof (cases "row_alarm E r")
    case None
    from None Cons.prems(1) show ?thesis
      by (cases rule: alarm_batch_loop_skip) (use Cons.IH Cons.prems(2,3) in simp_all)
  next
    case (Some a)
    show ?thesis
    proof (cases "length b = ALARMS_PER_BATCH \<or> bytes + alarm_size E a > ALARM_BATCH_BYTES")
      case True
      then show ?thesis using Some Cons.prems by simp
    next
      case False
      then have "batch_ok E (b @ [a])" using Cons.prems(2,3) row_alarm_valid [OF Some] by (simp add: batch_ok_def)
      then show ?thesis using Some False Cons.prems Cons.IH [of n "b @ [a]" "bytes + alarm_size E a" q]
        by (auto dest: append_prefixD)
    qed
  qed
qed simp

lemma alarm_batch_loop_empty:
  "alarm_batch_loop E n rows [] ALARM_BATCH_WRAPPER_BYTES q = (Ok [], q') \<Longrightarrow>
   aq_alarms q' = filter (\<lambda>x. ar_seq x \<notin> ar_seq ` set rows) (aq_alarms q)"
proof (induction rows arbitrary: n q)
  case (Cons r rows)
  show ?case
  proof (cases "row_alarm E r")
    case None
    from None Cons.prems show ?thesis
    proof (cases rule: alarm_batch_loop_skip)
      case (counted q2)
      have "aq_alarms q2 = filter (\<lambda>x. ar_seq x \<noteq> ar_seq r) (aq_alarms q)"
        using counted(1) by (auto simp: add_dropped_def rbind_Ok_iff split: option.splits)
      then show ?thesis using Cons.IH [OF counted(2)] by (auto intro: filter_cong)
    qed simp
  next
    case (Some a)
    have small: "alarm_size E a \<le> ALARM_BYTES + 1" by (rule alarm_size_bound [OF Some])
    then have fits: "\<not> (length ([] :: alarm list) = ALARMS_PER_BATCH \<or> ALARM_BATCH_WRAPPER_BYTES + alarm_size E a > ALARM_BATCH_BYTES)"
      by (simp add: ALARMS_PER_BATCH_def ALARM_BATCH_WRAPPER_BYTES_def ALARM_BATCH_BYTES_def ALARM_BYTES_def)
    then have "alarm_batch_loop E n rows [a] (ALARM_BATCH_WRAPPER_BYTES + alarm_size E a) q = (Ok [], q')"
      using Cons.prems Some by simp
    moreover have "batch_ok E [a]" using fits small row_alarm_valid [OF Some]
      by (simp add: batch_ok_def ALARMS_PER_BATCH_def)
    ultimately have "prefix [a] []" using alarm_batch_loop_ok by fastforce
    then show ?thesis by simp
  qed
qed simp

lemma batch_empty_progress:
  assumes "batch E q = (Ok [], q')" "0 < alarm_pending q"
  shows "alarm_pending q' < alarm_pending q"
proof -
  let ?P = "\<lambda>x. ar_seq x \<notin> ar_seq ` set (unsent_rows q)" and ?U = "filter (\<lambda>r. ar_sent r = 0) (aq_alarms q)"
  have "alarm_batch_loop E 1 (unsent_rows q) [] ALARM_BATCH_WRAPPER_BYTES q = (Ok [], q')"
    using assms(1) by (auto simp: batch_def split: option.splits if_splits)
  from alarm_batch_loop_empty [OF this] have q': "filter (\<lambda>r. ar_sent r = 0) (aq_alarms q') = filter ?P ?U"
    by (simp add: conj_commute)
  obtain r rs where U: "?U = r # rs" using assms(2) by (cases ?U) (auto simp: alarm_pending_def)
  then have "r \<in> set (unsent_rows q)" by (simp add: unsent_rows_def ALARMS_PER_BATCH_def)
  then have "r \<in> set ?U" "\<not> ?P r" using U by auto
  then have "length (filter ?P ?U) < length ?U" by (rule length_filter_less)
  then show ?thesis unfolding alarm_pending_def q' .
qed

lemmas alarm_queue_evals [evals] =
  ALARM_QUEUE_MAX_def GROWS_FOR_MS_def ALARM_BATCH_WRAPPER_BYTES_def add_dropped_def
  next_alarm_seq_def insert_or_grow_def evict_one_def upsert_one_def upsert_all_def upsert_def
  row_alarm_def alarm_size_def is_u32_def unsent_rows_def batch_def mark_sent_def sent_def
  drop_batch_def add_lost_def alarm_dropped_total_def alarm_pending_def ALARMS_APPLICATION_ID_def alarms_schema_v1_def
  alarm_queue_open_def

section \<open>An example\<close>

definition ax_process :: alarm_process where
  "ax_process = \<lparr>ap_pid = 7, ap_exe = ''/bin/sh'', ap_args = [''sh''], ap_cwd = None, ap_uid = 0, ap_euid = 0,
     ap_truncated = False, ap_seeded = False\<rparr>"

definition ax_alarm :: "nat \<Rightarrow> alarm" where
  "ax_alarm n = \<lparr>al_detection = None, al_alarm_id = Identifier ''a'', al_rule_set_id = Identifier ''s'',
     al_rule_set_version = 1, al_rule_id = Identifier ''r'', al_rule_version = 1, al_severity = High,
     al_confidence = Confidence 50, al_message = ''m'', al_first_seen_unix_ms = 5, al_last_seen_unix_ms = 5,
     al_count = n, al_process = ax_process, al_ancestors = []\<rparr>"

definition ax_env :: alarm_env where
  "ax_env = \<lparr>ae_fault = (\<lambda>_. None), ae_encode = (\<lambda>_. Some ''b''), ae_decode = (\<lambda>_. Some (ax_alarm 1)),
     ae_json = \<lparr>aj_detection = (\<lambda>_. None), aj_alarm = (\<lambda>_. Some 9), aj_batch = (\<lambda>_. Some 9)\<rparr>\<rparr>"

definition ax_empty :: alarm_queue where
  "ax_empty = \<lparr>aq_alarms = [], aq_counters = []\<rparr>"

definition ax_row :: "nat \<Rightarrow> alarm_row" where
  "ax_row n = \<lparr>ar_seq = 1, ar_alarm_id = ''a'', ar_body = ''b'', ar_first_seen_ms = 5, ar_last_seen_ms = 5,
     ar_count = int n, ar_sent = 0\<rparr>"

lemmas ax_defs = ax_process_def ax_alarm_def ax_env_def ax_empty_def ax_row_def

lemma ax_valid: "n \<in> {1, 2} \<Longrightarrow> alarm_validate (ae_json ax_env) (ax_alarm n) V1 = Ok ()"
  by (auto simp: evals ax_defs)

lemma ax_upsert: "upsert ax_env (ax_alarm 1) ax_empty = (Ok (), ax_empty\<lparr>aq_alarms := [ax_row 1]\<rparr>)"
  by (simp add: upsert_def upsert_all_def ax_valid, simp add: evals ax_defs)

lemma ax_repeat:
  "upsert ax_env (ax_alarm 2) (ax_empty\<lparr>aq_alarms := [ax_row 1]\<rparr>) = (Ok (), ax_empty\<lparr>aq_alarms := [ax_row 2]\<rparr>)"
  by (simp add: upsert_def upsert_all_def ax_valid, simp add: evals ax_defs)

lemma ax_inv: "alarm_queue_inv ax_empty" "alarm_queue_inv (ax_empty\<lparr>aq_alarms := [ax_row n]\<rparr>)"
  by (simp_all add: alarm_queue_inv_def alarm_rows_inv_def ax_defs ALARM_QUEUE_MAX_def bt_invar_def bt_keys_def)

section \<open>Properties\<close>

text \<open>C13: a repeat during delivery goes again. Between taking a batch and marking it sent an alarm
  may match once more. When the update raised the count or the last time seen past what the batch
  carried, marking the batch sent leaves the alarm waiting for delivery, so the platform always
  hears of the latest count. The update itself survives even a full queue.\<close>

theorem repeat_during_delivery:
  assumes "alarm_queue_inv q" and "upsert E b q = (Ok (), q1)"
    and "\<forall>a \<in> set as. al_alarm_id a = al_alarm_id b \<longrightarrow>
      al_count a < al_count b \<or> al_last_seen_unix_ms a < al_last_seen_unix_ms b"
    and "sent F as q1 = (r, q2)"
  shows "as_str (al_alarm_id b) \<in> unsent_ids (aq_alarms q2)"
proof -
  obtain body where q1: "upsert_one b body q = Ok q1"
    using assms(2) by (auto simp: upsert_def upsert_all_def rbind_def map_err_def split: option.splits if_splits prod.splits result.splits)
  obtain row where row: "row \<in> set (aq_alarms q1)" "grown_row b row"
    using upsert_one_row [OF q1 assms(1)] by blast
  have "mark_sent a row = row" if "a \<in> set as" for a
    using assms(3) that row(2) by (fastforce simp: mark_sent_def grown_row_def ident.expand)
  then have "foldl (\<lambda>r a. mark_sent a r) row as = row" by (simp add: marks_unchanged)
  then have "row \<in> set (map (\<lambda>r. foldl (\<lambda>r a. mark_sent a r) r as) (aq_alarms q1))" using row(1) by force
  moreover have "aq_alarms q2 = aq_alarms q1 \<or> aq_alarms q2 = map (\<lambda>r. foldl (\<lambda>r a. mark_sent a r) r as) (aq_alarms q1)"
    using assms(4) unfolding sent_def by (cases rule: txn_cases) (auto simp: foldl_mark_sent)
  ultimately have "row \<in> set (aq_alarms q2)" using row(1) by auto
  then show ?thesis using row(2) unfolding unsent_ids_def grown_row_def by (intro image_eqI [of _ _ row]) auto
qed

theorem repeat_during_delivery_witness:
  "''a'' \<in> unsent_ids (aq_alarms (snd (sent ax_env [ax_alarm 1] (ax_empty\<lparr>aq_alarms := [ax_row 2]\<rparr>))))"
proof -
  have "al_count (ax_alarm 1) < al_count (ax_alarm 2)" by (simp add: ax_defs)
  then have "as_str (al_alarm_id (ax_alarm 2)) \<in>
      unsent_ids (aq_alarms (snd (sent ax_env [ax_alarm 1] (ax_empty\<lparr>aq_alarms := [ax_row 2]\<rparr>))))"
    by (intro repeat_during_delivery [OF ax_inv(2) ax_repeat]) (auto simp: prod_eq_iff)
  then show ?thesis by (simp add: ax_alarm_def)
qed



text \<open>C20: the queue is bounded and its count of dropped alarms never decreases. Through any run of
  operations, with whatever SQLite reports, the table holds at most a thousand alarms, in key order
  and with distinct identifiers, and the durable count only grows.\<close>

theorem alarm_queue_run:
  assumes "alarm_step\<^sup>*\<^sup>* q q'" and "alarm_queue_inv q"
  shows "alarm_queue_inv q' \<and> dropped_value q \<le> dropped_value q'"
  using alarms.inv_run [OF assms] alarms.gauge_run [OF assms] by blast

theorem alarm_queue_run_witness: "alarm_queue_inv (snd (upsert_all ax_env [ax_alarm 1] ax_empty))"
proof -
  have "alarm_step ax_empty (snd (upsert_all ax_env [ax_alarm 1] ax_empty))"
    by (rule step_upsert_all [of ax_env "[ax_alarm 1]" _ "fst (upsert_all ax_env [ax_alarm 1] ax_empty)"]) simp
  from alarm_queue_run [OF r_into_rtranclp [of alarm_step, OF this] ax_inv(1)] show ?thesis by blast
qed

text \<open>C22: what \<open>batch\<close> returns can be sent, and calling it makes progress. At most a hundred
  alarms, each valid, whose serialized bytes with their separators fit the batch limit beside the
  room for the other fields; and an empty answer while alarms are waiting has removed at least one
  unreadable row, so an unreadable row never blocks the queue.\<close>

theorem batch_bounded_and_live:
  assumes "batch E q = (Ok as, q')"
  shows "length as \<le> ALARMS_PER_BATCH \<and> (\<forall>a \<in> set as. alarm_validate (ae_json E) a V1 = Ok ()) \<and>
    ALARM_BATCH_WRAPPER_BYTES + sum_list (map (alarm_size E) as) \<le> ALARM_BATCH_BYTES \<and>
    (as = [] \<and> 0 < alarm_pending q \<longrightarrow> alarm_pending q' < alarm_pending q)"
proof -
  have "alarm_batch_loop E 1 (unsent_rows q) [] ALARM_BATCH_WRAPPER_BYTES q = (Ok as, q')"
    using assms by (auto simp: batch_def split: option.splits if_splits)
  moreover have "batch_ok E []" by (simp add: batch_ok_def ALARM_BATCH_WRAPPER_BYTES_def ALARM_BATCH_BYTES_def)
  ultimately have "batch_ok E as" using alarm_batch_loop_ok by fastforce
  moreover have "as = [] \<and> 0 < alarm_pending q \<longrightarrow> alarm_pending q' < alarm_pending q"
    using batch_empty_progress assms by blast
  ultimately show ?thesis by (simp add: batch_ok_def list_all_iff)
qed

theorem batch_bounded_and_live_witness:
  "batch ax_env (ax_empty\<lparr>aq_alarms := [ax_row 2]\<rparr>) = (Ok [ax_alarm 2], ax_empty\<lparr>aq_alarms := [ax_row 2]\<rparr>) \<and>
   ALARM_BATCH_WRAPPER_BYTES + alarm_size ax_env (ax_alarm 2) \<le> ALARM_BATCH_BYTES"
proof -
  have ax: "row_alarm ax_env (ax_row 2) = Some (ax_alarm 2)"
    using ax_valid [of 2] by (simp add: row_alarm_def ax_env_def ax_row_def ax_alarm_def)
  have b: "batch ax_env (ax_empty\<lparr>aq_alarms := [ax_row 2]\<rparr>) = (Ok [ax_alarm 2], ax_empty\<lparr>aq_alarms := [ax_row 2]\<rparr>)"
    by (simp add: batch_def unsent_rows_def ax_empty_def ALARMS_PER_BATCH_def ax_row_def [of 2, THEN arg_cong, of ar_sent]
      ax_row_def [of 2, THEN arg_cong, of ar_count] is_u32_def ax ALARM_BATCH_WRAPPER_BYTES_def alarm_size_def
      ALARM_BATCH_BYTES_def ax_env_def [THEN arg_cong, of ae_fault] ax_env_def [THEN arg_cong, of ae_json])
  from batch_bounded_and_live [OF b] b show ?thesis by simp
qed

end
