(* ===== verification/Alarm_Engine.thy ===== *)
theory Alarm_Engine
  imports Process_Table Alarm_Queue
begin

text \<open>
  The alarm engine: \<open>openvibes-agent/src/alarms/engine.rs\<close> and the rule compilation of
  \<open>alarms/mod.rs\<close>. One start goes through the process table, every rule pair (the restricted sets
  last, on masked command lines and one shared budget), and the collapsing of repeats into alarms.
  Parameters: the clock and the trace environment of the evaluator, SHA-256, the serialized length
  of an alarm, the iteration order of the \<open>HashMap\<close> of collapsed alarms, and the stream of alarm
  ids. The outer \<open>None\<close> is a panic.
\<close>

section \<open>Definitions\<close>

type_synonym rule_pair = "verified_rule_set \<times> compiled_event_rules \<times> bool"

definition EVENT_OPERATIONS :: nat where "EVENT_OPERATIONS = 50000"
definition AGENT_RULE_SET :: string where "AGENT_RULE_SET = ''openvibes-agent''"
definition EVALUATION_CUT :: string where "EVALUATION_CUT = ''evaluation.cut''"
definition EVALUATION_CUT_MESSAGE :: string where
  "EVALUATION_CUT_MESSAGE = ''Not every alarm rule was evaluated for this process start; its budget ran out (an unusually long command line can cause this).''"
definition COLLAPSE_WINDOW_MS :: int where "COLLAPSE_WINDOW_MS = 600000"
definition COLLAPSE_ENTRIES :: nat where "COLLAPSE_ENTRIES = 4096"

record collapsed =
  co_alarm_id :: ident
  co_first_seen :: int
  co_count :: nat

record engine =
  en_table :: process_table
  en_collapse :: "(string, collapsed) btree_map"
  en_failures :: nat
  en_unavailable :: nat
  en_lost :: nat
  en_budget_cuts :: nat

record engine_env =
  ee_trace :: trace_env
  ee_clock :: clock
  ee_sha256 :: "string \<Rightarrow> string"
  ee_alarm_json :: "alarm \<Rightarrow> nat option"
  ee_order :: "(string \<times> collapsed) list \<Rightarrow> (string \<times> collapsed) list"
  ee_new_id :: "nat \<Rightarrow> ident option"

record template =
  tm_detection :: "detection option"
  tm_rule_set_id :: ident
  tm_rule_set_version :: nat
  tm_rule_id :: ident
  tm_rule_version :: nat
  tm_severity :: severity
  tm_confidence :: confidence
  tm_message :: string

subsection \<open>Collapsing\<close>

text \<open>\<open>min_by_key\<close> in iteration order: the first of the smallest.\<close>

fun oldest_of :: "(string \<times> collapsed) list \<Rightarrow> (string \<times> collapsed) option" where
  "oldest_of [] = None"
| "oldest_of ((k, c) # rest) =
     (case oldest_of rest of
        Some (k', c') \<Rightarrow> if co_first_seen c' < co_first_seen c then Some (k', c') else Some (k, c)
      | None \<Rightarrow> Some (k, c))"

definition collapse_room :: "engine_env \<Rightarrow> int \<Rightarrow> (string, collapsed) btree_map \<Rightarrow> (string, collapsed) btree_map" where
  "collapse_room E at m =
     (let m1 = (if length m \<ge> COLLAPSE_ENTRIES
                then filter (\<lambda>(_, seen). i64_saturating_sub at (co_first_seen seen) \<le> COLLAPSE_WINDOW_MS) m
                else m)
      in if length m1 \<ge> COLLAPSE_ENTRIES
         then (case oldest_of (ee_order E m1) of Some (k, _) \<Rightarrow> bt_remove k m1 | None \<Rightarrow> m1)
         else m1)"

definition collapse_new ::
  "engine_env \<Rightarrow> string \<Rightarrow> int \<Rightarrow> nat \<Rightarrow> (string, collapsed) btree_map \<Rightarrow>
   (ident \<times> int \<times> nat) option \<times> (string, collapsed) btree_map \<times> nat" where
  "collapse_new E key at n m =
     (case ee_new_id E n of
        None \<Rightarrow> (None, collapse_room E at m, n + 1)
      | Some alarm_id \<Rightarrow>
          (Some (alarm_id, at, 1),
           bt_insert key \<lparr>co_alarm_id = alarm_id, co_first_seen = at, co_count = 1\<rparr> (collapse_room E at m), n + 1))"

definition in_window :: "int \<Rightarrow> collapsed \<Rightarrow> bool" where
  "in_window at seen \<longleftrightarrow>
     0 \<le> i64_saturating_sub at (co_first_seen seen) \<and>
     i64_saturating_sub at (co_first_seen seen) \<le> COLLAPSE_WINDOW_MS"

definition collapse ::
  "engine_env \<Rightarrow> string \<Rightarrow> int \<Rightarrow> nat \<Rightarrow> (string, collapsed) btree_map \<Rightarrow>
   (ident \<times> int \<times> nat) option \<times> (string, collapsed) btree_map \<times> nat" where
  "collapse E key at n m =
     (case bt_get m key of
        Some seen \<Rightarrow>
          if in_window at seen
          then
            let count = min (min (co_count seen + 1) (2 ^ 32 - 1)) i32_max in
            (Some (co_alarm_id seen, co_first_seen seen, count), bt_insert key (seen\<lparr>co_count := count\<rparr>) m, n)
          else collapse_new E key at n m
      | None \<Rightarrow> collapse_new E key at n m)"

definition collapse_fields :: "ident \<Rightarrow> ident \<Rightarrow> lineage \<Rightarrow> string \<Rightarrow> string list" where
  "collapse_fields rule_set rule li line =
     [as_str rule_set, as_str rule, te_exe (li_process li),
      (case li_ancestors li of [] \<Rightarrow> [] | p # _ \<Rightarrow> te_exe p), line]"

definition collapse_key :: "engine_env \<Rightarrow> ident \<Rightarrow> ident \<Rightarrow> lineage \<Rightarrow> string \<Rightarrow> string" where
  "collapse_key E rule_set rule li line =
     ee_sha256 E (concat (map (\<lambda>f. be_bytes 8 (length f) @ f) (collapse_fields rule_set rule li line)))"

subsection \<open>Fitting an alarm to its limit\<close>

definition serialized_len :: "engine_env \<Rightarrow> alarm \<Rightarrow> nat" where
  "serialized_len E a = (case ee_alarm_json E a of Some n \<Rightarrow> n | None \<Rightarrow> u64_max)"

definition clear_detection :: "detection \<Rightarrow> detection" where
  "clear_detection d = d\<lparr>det_inputs := [], det_steps := [], det_truncated := True\<rparr>"

definition clear_args :: "alarm_process \<Rightarrow> alarm_process" where
  "clear_args p = p\<lparr>ap_args := [], ap_truncated := True\<rparr>"

text \<open>The loop over the ancestors from the farthest; \<open>True\<close> is the early return.\<close>

fun fit_ancestors :: "engine_env \<Rightarrow> nat \<Rightarrow> alarm \<Rightarrow> alarm \<times> bool" where
  "fit_ancestors E 0 a = (a, False)"
| "fit_ancestors E (Suc i) a =
     (if serialized_len E a \<le> ALARM_BYTES then (a, True)
      else fit_ancestors E i (a\<lparr>al_ancestors := (al_ancestors a)[i := clear_args (al_ancestors a ! i)]\<rparr>))"

function pop_ancestors :: "engine_env \<Rightarrow> alarm \<Rightarrow> alarm" where
  "pop_ancestors E a =
     (if serialized_len E a > ALARM_BYTES \<and> al_ancestors a \<noteq> []
      then pop_ancestors E (a\<lparr>al_ancestors := butlast (al_ancestors a)\<rparr>) else a)"
  by pat_completeness auto
termination by (relation "measure (\<lambda>(E, a). length (al_ancestors a))") auto

declare pop_ancestors.simps [simp del]

definition fit :: "engine_env \<Rightarrow> alarm \<Rightarrow> alarm" where
  "fit E a =
     (let a1 = (if serialized_len E a > ALARM_BYTES
                then a\<lparr>al_detection := map_option clear_detection (al_detection a)\<rparr> else a)
      in case fit_ancestors E (length (al_ancestors a1)) a1 of
           (a2, True) \<Rightarrow> a2
         | (a2, False) \<Rightarrow>
             pop_ancestors E
               (if serialized_len E a2 > ALARM_BYTES then a2\<lparr>al_process := clear_args (al_process a2)\<rparr> else a2))"

subsection \<open>Raising an alarm\<close>

definition raise_alarm ::
  "engine_env \<Rightarrow> string \<Rightarrow> int \<Rightarrow> lineage \<Rightarrow> template \<Rightarrow> engine \<Rightarrow> nat \<Rightarrow> (alarm option \<times> engine \<times> nat) option" where
  "raise_alarm E key at li tm en n =
     (case collapse E key at n (en_collapse en) of
        (None, m, n') \<Rightarrow> Some (None, en\<lparr>en_collapse := m, en_lost := en_lost en + 1\<rparr>, n')
      | (Some (alarm_id, first_seen, count), m, n') \<Rightarrow>
          map_option (\<lambda>(process, ancestors).
            (Some (fit E \<lparr>al_detection = tm_detection tm, al_alarm_id = alarm_id, al_rule_set_id = tm_rule_set_id tm,
               al_rule_set_version = tm_rule_set_version tm, al_rule_id = tm_rule_id tm,
               al_rule_version = tm_rule_version tm, al_severity = tm_severity tm, al_confidence = tm_confidence tm,
               al_message = tm_message tm, al_first_seen_unix_ms = first_seen, al_last_seen_unix_ms = max at first_seen,
               al_count = count, al_process = process, al_ancestors = ancestors\<rparr>),
             en\<lparr>en_collapse := m\<rparr>, n'))
            (to_alarm_processes li))"

subsection \<open>One start\<close>

definition masked_line :: "process_start \<Rightarrow> lineage \<Rightarrow> string option" where
  "masked_line s li = map_option join_spaces (mask_args (te_exe (li_process li)) (map lossy (ps_args s)))"

definition set_line :: "string \<Rightarrow> string \<Rightarrow> process_event \<Rightarrow> process_event" where
  "set_line key t ev = set_or_skip key (EvString (fst (cut_text t CMDLINE_BYTES))) ev"

definition masked_event :: "process_event \<Rightarrow> string \<Rightarrow> lineage \<Rightarrow> process_event option" where
  "masked_event ev line li =
     (let ev1 = set_line ''process.cmdline'' line ev in
      case li_ancestors li of
        [] \<Rightarrow> Some ev1
      | parent # _ \<Rightarrow> map_option (\<lambda>args. set_line ''parent.cmdline'' (join_spaces args) ev1) (masked_args parent))"

text \<open>What the loop over the outcomes carries: the alarms so far, the engine and the next id.\<close>

type_synonym raised = "alarm list \<times> engine \<times> nat"

definition on_match ::
  "engine_env \<Rightarrow> process_start \<Rightarrow> lineage \<Rightarrow> verified_rule_set \<Rightarrow> event_outcome \<Rightarrow> raised \<Rightarrow> raised option" where
  "on_match E s li bundle oc st =
     (case st of (alarms, en, n) \<Rightarrow>
        case find (\<lambda>r. rule_id r = eo_rule_id oc) (rs_rules (vr_rules bundle)) of
          None \<Rightarrow> Some st
        | Some r \<Rightarrow>
            Option.bind (masked_line s li) (\<lambda>line.
            let accepted = vr_accepted bundle;
              key = ee_sha256 E (collapse_key E (av_rule_set_id accepted) (rule_id r) li line @ av_preimage_sha256 accepted)
            in map_option (\<lambda>(raised, en', n'). (alarms @ (case raised of None \<Rightarrow> [] | Some a \<Rightarrow> [a]), en', n'))
                 (raise_alarm E key (ps_at_unix_ms s) li
                   \<lparr>tm_detection = map_option (\<lambda>d. d\<lparr>det_observed_at_unix_ms := ps_at_unix_ms s\<rparr>) (eo_detection oc),
                    tm_rule_set_id = av_rule_set_id accepted, tm_rule_set_version = av_version accepted, tm_rule_id = rule_id r,
                    tm_rule_version = rule_version r, tm_severity = rule_severity r, tm_confidence = rule_confidence r,
                    tm_message = rule_finding_message r\<rparr> en n)))"

definition count_outcome :: "event_outcome \<Rightarrow> engine \<Rightarrow> engine" where
  "count_outcome oc en =
     en\<lparr>en_failures := en_failures en + (if eo_failure oc \<noteq> None then 1 else 0),
        en_unavailable := en_unavailable en + (if eo_unavailable oc then 1 else 0)\<rparr>"

fun outcomes_loop ::
  "engine_env \<Rightarrow> process_start \<Rightarrow> lineage \<Rightarrow> verified_rule_set \<Rightarrow> event_outcome list \<Rightarrow> raised \<Rightarrow> raised option" where
  "outcomes_loop E s li bundle [] st = Some st"
| "outcomes_loop E s li bundle (oc # ocs) (alarms, en, n) =
     (let st = (alarms, count_outcome oc en, n) in
      if eo_matched oc
      then Option.bind (on_match E s li bundle oc st) (outcomes_loop E s li bundle ocs)
      else outcomes_loop E s li bundle ocs st)"

text \<open>The loop over the rule pairs: budget left, whether the start was cut, next clock reading.\<close>

fun rules_loop ::
  "engine_env \<Rightarrow> process_start \<Rightarrow> lineage \<Rightarrow> process_event \<Rightarrow> rule_pair list \<Rightarrow> nat \<Rightarrow> bool \<Rightarrow> nat \<Rightarrow> raised \<Rightarrow>
   (bool \<times> nat \<times> raised) option" where
  "rules_loop E s li ev [] budget was_cut i st = Some (was_cut, i, st)"
| "rules_loop E s li ev ((bundle, compiled, restricted) # pairs) budget was_cut i st =
     (if was_cut then Some (was_cut, i, st)
      else if restricted then
        if \<not> names compiled ev then rules_loop E s li ev pairs budget was_cut i st
        else
          Option.bind (masked_line s li) (\<lambda>line.
          Option.bind (masked_event ev line li) (\<lambda>masked.
            case evaluate_within (ee_trace E) compiled bundle masked (ee_clock E) i budget of
              (outcomes, spent, budget', i') \<Rightarrow>
                Option.bind (outcomes_loop E s li bundle outcomes st)
                  (rules_loop E s li ev pairs budget' spent i')))
      else
        (case evaluate_within (ee_trace E) compiled bundle ev (ee_clock E) i u64_max of
           (outcomes, _, _, i') \<Rightarrow>
             Option.bind (outcomes_loop E s li bundle outcomes st)
               (rules_loop E s li ev pairs budget was_cut i')))"

definition ordered :: "rule_pair list \<Rightarrow> rule_pair list" where
  "ordered pairs = filter (\<lambda>(_, _, restricted). \<not> restricted) pairs @ filter (\<lambda>(_, _, restricted). restricted) pairs"

definition cut_template :: template where
  "cut_template =
     \<lparr>tm_detection = None, tm_rule_set_id = Identifier AGENT_RULE_SET, tm_rule_set_version = 1,
      tm_rule_id = Identifier EVALUATION_CUT, tm_rule_version = 1, tm_severity = Low, tm_confidence = Confidence 50,
      tm_message = EVALUATION_CUT_MESSAGE\<rparr>"

definition on_cut :: "engine_env \<Rightarrow> process_start \<Rightarrow> lineage \<Rightarrow> raised \<Rightarrow> raised option" where
  "on_cut E s li st =
     (case st of (alarms, en, n) \<Rightarrow>
        map_option (\<lambda>(raised, en', n'). (alarms @ (case raised of None \<Rightarrow> [] | Some a \<Rightarrow> [a]), en', n'))
          (raise_alarm E (collapse_key E (tm_rule_set_id cut_template) (tm_rule_id cut_template) li [])
            (ps_at_unix_ms s) li cut_template (en\<lparr>en_budget_cuts := en_budget_cuts en + 1\<rparr>) n))"

definition on_start ::
  "engine_env \<Rightarrow> process_start \<Rightarrow> rule_pair list \<Rightarrow> nat \<Rightarrow> (nat \<Rightarrow> seeded option) \<Rightarrow> nat \<Rightarrow> nat \<Rightarrow> engine \<Rightarrow>
   (nat \<times> raised) option" where
  "on_start E s rules now lookup i n en =
     (case table_start s now lookup (en_table en) of (ev, li, t) \<Rightarrow>
        Option.bind (rules_loop E s li ev (ordered rules) EVENT_OPERATIONS False i ([], en\<lparr>en_table := t\<rparr>, n))
          (\<lambda>(was_cut, i', st). map_option (Pair i') (if was_cut then on_cut E s li st else Some st)))"

definition engine_reap :: "(nat \<Rightarrow> bool) \<Rightarrow> nat \<Rightarrow> engine \<Rightarrow> engine" where
  "engine_reap alive now en = en\<lparr>en_table := table_reap alive now (en_table en)\<rparr>"

subsection \<open>Compiling the bundles\<close>

fun compile_loop ::
  "cel_parser \<Rightarrow> (ident \<Rightarrow> bool) \<Rightarrow> verified_rule_set list \<Rightarrow> rule_pair list \<times> nat \<times> nat \<times> nat \<Rightarrow>
   rule_pair list \<times> nat \<times> nat \<times> nat" where
  "compile_loop cel restricted [] st = st"
| "compile_loop cel restricted (b # bs) (pairs, accepted, refused, unfiltered) =
     (let r = restricted (av_rule_set_id (vr_accepted b));
        c0 = compile_event_rules cel b V1;
        c = (if r then restrict c0 else c0);
        bare = filter (\<lambda>x. rule_kind_of x = ProcessEventKind \<and> rule_programs x = None \<and>
          \<not> list_ex (\<lambda>(i, _). i = rule_id x) (cer_refused c)) (rs_rules (vr_rules b))
      in compile_loop cel restricted bs
           (if length (cer_rules c) > 0 then pairs @ [(b, c, r)] else pairs,
            accepted + length (cer_rules c), refused + length (cer_refused c), unfiltered + length bare))"

definition compile_bundles ::
  "cel_parser \<Rightarrow> (ident \<Rightarrow> bool) \<Rightarrow> verified_rule_set list \<Rightarrow> rule_pair list \<times> nat \<times> nat \<times> nat" where
  "compile_bundles cel restricted bundles = compile_loop cel restricted bundles ([], 0, 0, 0)"

section \<open>Masked text\<close>




definition mask_chars :: "string list \<Rightarrow> char set" where
  "mask_chars args = \<Union> (set ` set args) \<union> set MASK"






section \<open>The processes of an alarm\<close>

text \<open>An entry an alarm can carry: the kernel's strings hold no NUL, and the paths are neither empty
  nor longer than a string of the contract.\<close>

definition entry_clean :: "table_entry \<Rightarrow> bool" where
  "entry_clean e \<longleftrightarrow> te_exe e \<noteq> [] \<and> length (te_exe e) \<le> PATH_BYTES \<and> NUL \<notin> set (te_exe e) \<and>
     (case te_cwd e of None \<Rightarrow> True | Some c \<Rightarrow> c \<noteq> [] \<and> NUL \<notin> set c) \<and> list_all (\<lambda>arg. NUL \<notin> set arg) (te_args e)"




definition lineage_ok :: "lineage \<Rightarrow> bool" where
  "lineage_ok li \<longleftrightarrow> length (li_ancestors li) \<le> ALARM_ANCESTORS \<and>
     list_all entry_ok (li_process li # li_ancestors li) \<and> list_all entry_clean (li_process li # li_ancestors li)"


section \<open>Collapsing\<close>

definition collapse_inv :: "(string, collapsed) btree_map \<Rightarrow> bool" where
  "collapse_inv m \<longleftrightarrow> bt_invar m \<and> length m \<le> COLLAPSE_ENTRIES \<and>
     (\<forall>(_, c) \<in> set m. 1 \<le> co_count c \<and> co_count c \<le> i32_max \<and> 0 \<le> co_first_seen c \<and>
        validate_identifier ''alarm_id'' (as_str (co_alarm_id c)) V1 = Ok ())"

text \<open>What the engine relies on: a \<open>HashMap\<close> iterates over its entries, and \<open>new_id\<close> gives
  identifiers.\<close>

definition env_ok :: "engine_env \<Rightarrow> bool" where
  "env_ok E \<longleftrightarrow> (\<forall>m. set (ee_order E m) = set m) \<and>
     (\<forall>n i. ee_new_id E n = Some i \<longrightarrow> validate_identifier ''alarm_id'' (as_str i) V1 = Ok ())"

lemma oldest_of_None: "oldest_of xs = None \<longleftrightarrow> xs = []"
  by (cases xs) (auto split: option.splits if_splits)

lemma oldest_of_spec:
  "oldest_of xs = Some (k, c) \<Longrightarrow> (k, c) \<in> set xs \<and> (\<forall>(_, c') \<in> set xs. co_first_seen c \<le> co_first_seen c')"
proof (induction xs arbitrary: k c rule: oldest_of.induct)
    case (2 k' c' rest)
    show ?case
    proof (cases "oldest_of rest")
      case None
      moreover from this have "rest = []" by (simp add: oldest_of_None)
      ultimately show ?thesis using "2.prems" by simp
    next
      case (Some p)
      obtain k1 c1 where p: "p = (k1, c1)" by fastforce
      note ih = "2.IH" [OF Some [unfolded p]]
      show ?thesis
      proof (cases "co_first_seen c1 < co_first_seen c'")
        case True
        then show ?thesis using "2.prems" Some p ih by auto
      next
        case False
        then have "k = k'" "c = c'" using "2.prems" Some p by auto
        then show ?thesis using ih False by fastforce
      qed
    qed
  qed simp

lemma length_bt_remove: "bt_invar m \<Longrightarrow> (k, c) \<in> set m \<Longrightarrow> length (bt_remove k m) < length m"
  unfolding bt_remove_def by (rule length_filter_less) auto

lemma collapse_room_inv:
  assumes "env_ok E" "collapse_inv m"
  shows "collapse_inv (collapse_room E at m) \<and> length (collapse_room E at m) < COLLAPSE_ENTRIES \<and>
    set (collapse_room E at m) \<subseteq> set m"
proof -
  define m1 where "m1 = (if length m \<ge> COLLAPSE_ENTRIES
    then filter (\<lambda>(_, seen). i64_saturating_sub at (co_first_seen seen) \<le> COLLAPSE_WINDOW_MS) m else m)"
  have m1: "bt_invar m1" "set m1 \<subseteq> set m" "length m1 \<le> COLLAPSE_ENTRIES"
    using assms(2) by (auto simp: m1_def collapse_inv_def bt_filter_invar intro: le_trans [OF length_filter_le])
  have room: "collapse_room E at m = (if length m1 \<ge> COLLAPSE_ENTRIES
         then (case oldest_of (ee_order E m1) of Some (k, _) \<Rightarrow> bt_remove k m1 | None \<Rightarrow> m1) else m1)"
    unfolding collapse_room_def m1_def Let_def by (rule refl)
  have "bt_invar (collapse_room E at m) \<and> set (collapse_room E at m) \<subseteq> set m1 \<and> length (collapse_room E at m) < COLLAPSE_ENTRIES"
  proof (cases "length m1 \<ge> COLLAPSE_ENTRIES")
    case False
    then show ?thesis using m1 room by simp
  next
    case True
    then have "m1 \<noteq> []" by (auto simp: COLLAPSE_ENTRIES_def)
    moreover have order: "set (ee_order E m1) = set m1" using assms(1) by (simp add: env_ok_def)
    ultimately have "ee_order E m1 \<noteq> []" by auto
    then obtain k c where kc: "oldest_of (ee_order E m1) = Some (k, c)" using oldest_of_None by (metis option.exhaust surj_pair)
    then have "(k, c) \<in> set m1" using oldest_of_spec order by blast
    then have "length (bt_remove k m1) < length m1" by (rule length_bt_remove [OF m1(1)])
    moreover have "bt_invar (bt_remove k m1)" using m1(1) by (rule bt.invar_delete)
    moreover have "set (bt_remove k m1) \<subseteq> set m1" by (auto simp: bt_remove_def)
    ultimately show ?thesis using True kc room m1 by simp
  qed
  then show ?thesis using assms(2) m1 by (auto simp: collapse_inv_def)
qed

lemma length_bt_insert: "length (bt_insert k v m) \<le> Suc (length m)"
  by (induction k v m rule: bt_insert.induct) auto

lemma length_bt_insert_present: "bt_invar m \<Longrightarrow> bt_get m k = Some w \<Longrightarrow> length (bt_insert k v m) = length m"
proof (induction k v m rule: bt_insert.induct)
  case (2 k v k' v' m)
  have "\<not> k < k'" using 2(2,3) by (auto simp: bt_get_def bt_invar_def bt_keys_def split: if_splits dest!: map_of_SomeD)
  then show ?case using 2 by (auto simp: bt_get_def bt_invar_def bt_keys_def split: if_splits)
qed (simp add: bt_get_def)

lemma set_insert_subset: "set (bt_insert k (v :: collapsed) m) \<subseteq> insert (k, v) (set m)"
  by (induction k v m rule: bt_insert.induct) auto

lemma collapse_inv_insert:
  assumes "collapse_inv m" "length (bt_insert k c m) \<le> COLLAPSE_ENTRIES" "1 \<le> co_count c" "co_count c \<le> i32_max"
    "0 \<le> co_first_seen c" "validate_identifier ''alarm_id'' (as_str (co_alarm_id c)) V1 = Ok ()"
  shows "collapse_inv (bt_insert k c m)"
  using assms set_insert_subset [of k c m] by (auto simp: collapse_inv_def bt.invar_update)

lemma collapse_spec:
  assumes "env_ok E" "collapse_inv m" "0 \<le> at"
  shows "\<exists>r m' n'. collapse E key at n m = (r, m', n') \<and> collapse_inv m' \<and>
    (case r of
       None \<Rightarrow> True
     | Some (i, first, count) \<Rightarrow> validate_identifier ''alarm_id'' (as_str i) V1 = Ok () \<and> 0 \<le> first \<and> 1 \<le> count \<and> count \<le> i32_max \<and>
         bt_get m' key = Some \<lparr>co_alarm_id = i, co_first_seen = first, co_count = count\<rparr>)"
proof (cases "\<exists>seen. bt_get m key = Some seen \<and> in_window at seen")
  case True
  then obtain seen where seen: "bt_get m key = Some seen" "in_window at seen" by blast
  let ?count = "min (min (co_count seen + 1) (2 ^ 32 - 1)) i32_max"
  have mem: "(key, seen) \<in> set m" using seen(1) by (rule bt_get_in_set)
  have count: "1 \<le> ?count" "?count \<le> i32_max" by (simp_all add: i32_max_def)
  have "collapse_inv (bt_insert key (seen\<lparr>co_count := ?count\<rparr>) m)"
    using assms(2) mem seen(1) count length_bt_insert_present [of m key seen]
    by (intro collapse_inv_insert) (auto simp: collapse_inv_def)
  moreover have "bt_get (bt_insert key (seen\<lparr>co_count := ?count\<rparr>) m) key = Some (seen\<lparr>co_count := ?count\<rparr>)"
    using assms(2) by (simp add: collapse_inv_def bt.lookup_update)
  ultimately show ?thesis using seen count mem assms(2)
    by (intro exI conjI) (auto simp: collapse_def Let_def collapse_inv_def)
next
  case False
  then have c: "collapse E key at n m = collapse_new E key at n m" by (auto simp: collapse_def split: option.splits)
  note room = collapse_room_inv [OF assms(1,2), of at]
  show ?thesis
  proof (cases "ee_new_id E n")
    case None
    then show ?thesis using c room by (simp add: collapse_new_def)
  next
    case (Some i)
    let ?c = "\<lparr>co_alarm_id = i, co_first_seen = at, co_count = 1\<rparr>"
    have valid: "validate_identifier ''alarm_id'' (as_str i) V1 = Ok ()" using Some assms(1) by (auto simp: env_ok_def)
    have "collapse_inv (bt_insert key ?c (collapse_room E at m))"
      using room valid assms(3) length_bt_insert [of key ?c "collapse_room E at m"]
      by (intro collapse_inv_insert) (auto simp: i32_max_def)
    then show ?thesis using c Some valid assms(3) room
      by (simp add: collapse_new_def i32_max_def collapse_inv_def bt.lookup_update)
  qed
qed

section \<open>Fitting\<close>

text \<open>What fitting keeps: everything but the arguments, the detection's details and the farthest
  ancestors.\<close>

definition alarm_head ::
  "alarm \<Rightarrow> ident \<times> ident \<times> nat \<times> ident \<times> nat \<times> severity \<times> confidence \<times> string \<times> int \<times> int \<times> nat" where
  "alarm_head a = (al_alarm_id a, al_rule_set_id a, al_rule_set_version a, al_rule_id a, al_rule_version a, al_severity a,
     al_confidence a, al_message a, al_first_seen_unix_ms a, al_last_seen_unix_ms a, al_count a)"

definition fitted :: "alarm \<Rightarrow> alarm \<Rightarrow> bool" where
  "fitted a b \<longleftrightarrow> length (al_ancestors b) \<le> length (al_ancestors a) \<and>
     list_all2 (\<lambda>p q. q = p \<or> q = clear_args p) (take (length (al_ancestors b)) (al_ancestors a)) (al_ancestors b) \<and>
     (al_process b = al_process a \<or> al_process b = clear_args (al_process a)) \<and>
     (al_detection b = al_detection a \<or> al_detection b = map_option clear_detection (al_detection a)) \<and>
     alarm_head b = alarm_head a"

lemma alarm_head_update [simp]:
  "alarm_head (a\<lparr>al_detection := d\<rparr>) = alarm_head a" "alarm_head (a\<lparr>al_process := p\<rparr>) = alarm_head a"
  "alarm_head (a\<lparr>al_ancestors := ps\<rparr>) = alarm_head a"
  by (simp_all add: alarm_head_def)

lemma clear_args_twice [simp]: "clear_args (clear_args p) = clear_args p"
  by (simp add: clear_args_def)

lemma fitted_refl: "fitted a a"
  by (simp add: fitted_def list.rel_refl)

lemma fitted_detection: "fitted a (a\<lparr>al_detection := map_option clear_detection (al_detection a)\<rparr>)"
  by (simp add: fitted_def list.rel_refl)

lemma fitted_update:
  assumes "fitted a b" "i < length (al_ancestors b)"
  shows "fitted a (b\<lparr>al_ancestors := (al_ancestors b)[i := clear_args (al_ancestors b ! i)]\<rparr>)"
proof -
  let ?R = "\<lambda>p q. q = p \<or> q = clear_args p"
  have all: "list_all2 ?R (take (length (al_ancestors b)) (al_ancestors a)) (al_ancestors b)" using assms(1) by (simp add: fitted_def)
  let ?as = "take (length (al_ancestors b)) (al_ancestors a)"
  have "?R (?as ! i) (al_ancestors b ! i)" by (rule list_all2_nthD2 [OF all assms(2)])
  then have "?R (?as ! i) (clear_args (al_ancestors b ! i))" by auto
  then have "list_all2 ?R (?as[i := ?as ! i]) ((al_ancestors b)[i := clear_args (al_ancestors b ! i)])"
    by (rule list_all2_update_cong [OF all])
  then show ?thesis using assms(1) by (simp add: fitted_def)
qed

lemma fitted_process: "fitted a b \<Longrightarrow> fitted a (b\<lparr>al_process := clear_args (al_process b)\<rparr>)"
  by (auto simp: fitted_def)

lemma fitted_butlast: "fitted a b \<Longrightarrow> fitted a (b\<lparr>al_ancestors := butlast (al_ancestors b)\<rparr>)"
proof -
  assume f: "fitted a b"
  let ?R = "\<lambda>p q. q = p \<or> q = clear_args p" and ?n = "length (al_ancestors b)"
  have "list_all2 ?R (take (?n - 1) (take ?n (al_ancestors a))) (take (?n - 1) (al_ancestors b))"
    using f by (intro list_all2_takeI) (simp add: fitted_def)
  then have "list_all2 ?R (take (?n - 1) (al_ancestors a)) (butlast (al_ancestors b))"
    by (simp add: butlast_conv_take min_def split: if_splits)
  then show ?thesis using f by (auto simp: fitted_def)
qed

lemma fit_ancestors_fitted:
  "fit_ancestors E i b = (c, early) \<Longrightarrow> fitted a b \<Longrightarrow> i \<le> length (al_ancestors b) \<Longrightarrow>
   fitted a c \<and> (early \<longrightarrow> serialized_len E c \<le> ALARM_BYTES)"
proof (induction i arbitrary: b)
  case (Suc i)
  show ?case
  proof (cases "serialized_len E b \<le> ALARM_BYTES")
    case True
    then show ?thesis using Suc.prems by auto
  next
    case False
    have "fitted a (b\<lparr>al_ancestors := (al_ancestors b)[i := clear_args (al_ancestors b ! i)]\<rparr>)"
      using fitted_update [OF Suc.prems(2)] Suc.prems(3) by simp
    then show ?thesis using Suc.IH [of "b\<lparr>al_ancestors := (al_ancestors b)[i := clear_args (al_ancestors b ! i)]\<rparr>"] False Suc.prems
      by simp
  qed
qed simp

lemma fit_ancestors_same:
  "fit_ancestors E i b = (c, early) \<Longrightarrow> al_process c = al_process b \<and> al_detection c = al_detection b"
  by (induction i arbitrary: b) (auto split: if_splits)

lemma pop_ancestors_fitted:
  "fitted a b \<Longrightarrow> fitted a (pop_ancestors E b) \<and>
     (serialized_len E (pop_ancestors E b) \<le> ALARM_BYTES \<or> al_ancestors (pop_ancestors E b) = []) \<and>
     al_process (pop_ancestors E b) = al_process b \<and> al_detection (pop_ancestors E b) = al_detection b"
proof (induction E b rule: pop_ancestors.induct)
  case (1 E b)
  show ?case
  proof (cases "serialized_len E b > ALARM_BYTES \<and> al_ancestors b \<noteq> []")
    case True
    then show ?thesis using "1.IH" [OF True fitted_butlast [OF "1.prems"]] by (subst (1 2 3 4 5) pop_ancestors.simps) simp
  next
    case False
    then have "pop_ancestors E b = b" by (subst pop_ancestors.simps) auto
    then show ?thesis using "1.prems" False by auto
  qed
qed

text \<open>The result fits, or nothing that may be cut is left: no ancestors, no arguments and no
  details.\<close>

lemma fit_spec:
  "fitted a (fit E a) \<and>
   (serialized_len E (fit E a) \<le> ALARM_BYTES \<or>
    al_ancestors (fit E a) = [] \<and> al_process (fit E a) = clear_args (al_process a) \<and>
    al_detection (fit E a) = map_option clear_detection (al_detection a))"
proof -
  define a1 where "a1 = (if serialized_len E a > ALARM_BYTES
    then a\<lparr>al_detection := map_option clear_detection (al_detection a)\<rparr> else a)"
  obtain a2 early where a2: "fit_ancestors E (length (al_ancestors a1)) a1 = (a2, early)" by fastforce
  have "fitted a a1" by (simp add: a1_def fitted_refl fitted_detection)
  note two = fit_ancestors_fitted [OF a2 this order_refl]
  show ?thesis
  proof (cases early)
    case True
    then have "fit E a = a2" using a2 by (simp add: fit_def a1_def Let_def)
    then show ?thesis using two True by simp
  next
    case False
    let ?a3 = "if serialized_len E a2 > ALARM_BYTES then a2\<lparr>al_process := clear_args (al_process a2)\<rparr> else a2"
    have f: "fit E a = pop_ancestors E ?a3" using a2 False by (simp add: fit_def a1_def Let_def)
    have "fitted a ?a3" using two fitted_process by auto
    note pop = pop_ancestors_fitted [OF this, of E]
    show ?thesis
    proof (cases "serialized_len E (fit E a) \<le> ALARM_BYTES")
      case True
      then show ?thesis using pop f by simp
    next
      case big: False
      have large: "serialized_len E a > ALARM_BYTES"
      proof (rule ccontr)
        assume small: "\<not> serialized_len E a > ALARM_BYTES"
        then have "a1 = a" by (simp add: a1_def)
        then have "a2 = a" using a2 False small by (cases "al_ancestors a") auto
        then have "fit E a = a" using f small by (simp add: pop_ancestors.simps)
        then show False using big small by simp
      qed
      have "serialized_len E a2 > ALARM_BYTES"
      proof (rule ccontr)
        assume small: "\<not> serialized_len E a2 > ALARM_BYTES"
        then have "fit E a = a2" using f by (simp add: pop_ancestors.simps)
        then show False using big small by simp
      qed
      then show ?thesis using pop f big large fit_ancestors_same [OF a2] by (simp add: a1_def)
    qed
  qed
qed

text \<open>The stages of cutting an alarm, in order: as it is; without the recorded evaluation, and then
  without the arguments of ever nearer ancestors; then without its own arguments too, and with ever
  fewer ancestors.\<close>

definition without_args :: "alarm \<Rightarrow> nat \<Rightarrow> alarm" where
  "without_args a k =
     (let far = length (al_ancestors a) - k in
      a\<lparr>al_detection := map_option clear_detection (al_detection a),
        al_ancestors := take far (al_ancestors a) @ map clear_args (drop far (al_ancestors a))\<rparr>)"

definition without_ancestors :: "alarm \<Rightarrow> nat \<Rightarrow> alarm" where
  "without_ancestors a k =
     a\<lparr>al_detection := map_option clear_detection (al_detection a), al_process := clear_args (al_process a),
       al_ancestors := take (length (al_ancestors a) - k) (map clear_args (al_ancestors a))\<rparr>"

definition fit_stages :: "alarm \<Rightarrow> alarm list" where
  "fit_stages a =
     [a] @ map (without_args a) [0..<Suc (length (al_ancestors a))] @
     map (without_ancestors a) [0..<Suc (length (al_ancestors a))]"

lemma clear_next:
  assumes "i < length xs"
  shows "(take (Suc i) xs @ map f (drop (Suc i) xs))[i := f ((take (Suc i) xs @ map f (drop (Suc i) xs)) ! i)] =
    take i xs @ map f (drop i xs)"
  using assms by (simp add: take_Suc_conv_app_nth nth_append list_update_append Cons_nth_drop_Suc [symmetric, of i xs])

lemma fit_ancestors_stages:
  "i \<le> length (al_ancestors a) \<Longrightarrow>
   fit_ancestors E i (without_args a (length (al_ancestors a) - i)) =
     (case find (\<lambda>x. serialized_len E x \<le> ALARM_BYTES)
          (map (without_args a) [length (al_ancestors a) - i..<length (al_ancestors a)]) of
        Some x \<Rightarrow> (x, True) | None \<Rightarrow> (without_args a (length (al_ancestors a)), False))"
proof (induction i)
  case (Suc i)
  let ?n = "length (al_ancestors a)" and ?b = "without_args a (length (al_ancestors a) - Suc i)"
  have upt: "[?n - Suc i..<?n] = (?n - Suc i) # [?n - i..<?n]"
    using Suc.prems by (simp add: upt_conv_Cons Suc_diff_Suc)
  have "?b\<lparr>al_ancestors := (al_ancestors ?b)[i := clear_args (al_ancestors ?b ! i)]\<rparr> = without_args a (?n - i)"
    using Suc.prems clear_next [of i "al_ancestors a" clear_args] by (simp add: without_args_def Let_def)
  then show ?case using Suc.IH Suc.prems unfolding upt by (simp add: Suc_leD)
qed simp

lemma pop_ancestors_stages:
  "k \<le> length (al_ancestors a) \<Longrightarrow>
   pop_ancestors E (without_ancestors a k) =
     (case find (\<lambda>x. serialized_len E x \<le> ALARM_BYTES) (map (without_ancestors a) [k..<Suc (length (al_ancestors a))]) of
        Some x \<Rightarrow> x | None \<Rightarrow> without_ancestors a (length (al_ancestors a)))"
proof (induction "length (al_ancestors a) - k" arbitrary: k)
  case 0
  then show ?case by (subst pop_ancestors.simps) (simp add: without_ancestors_def)
next
  case (Suc d)
  let ?n = "length (al_ancestors a)" and ?b = "without_ancestors a k"
  have less: "k < ?n" using Suc.hyps(2) by simp
  have upt: "[k..<Suc ?n] = k # [Suc k..<Suc ?n]" using less by (simp add: upt_conv_Cons)
  have "?b\<lparr>al_ancestors := butlast (al_ancestors ?b)\<rparr> = without_ancestors a (Suc k)" "al_ancestors ?b \<noteq> []"
    using less by (auto simp: without_ancestors_def butlast_take)
  then have "pop_ancestors E ?b = (if serialized_len E ?b \<le> ALARM_BYTES then ?b else pop_ancestors E (without_ancestors a (Suc k)))"
    by (subst pop_ancestors.simps) simp
  then show ?case using Suc.hyps(1) [of "Suc k"] Suc.hyps(2) less unfolding upt by simp
qed

lemma find_append: "find P (xs @ ys) = (case find P xs of None \<Rightarrow> find P ys | Some x \<Rightarrow> Some x)"
  by (induction xs) auto

lemma fit_is_first_stage:
  "fit E a = (case find (\<lambda>x. serialized_len E x \<le> ALARM_BYTES) (fit_stages a) of Some x \<Rightarrow> x | None \<Rightarrow> last (fit_stages a))"
proof (cases "serialized_len E a \<le> ALARM_BYTES")
  case True
  then have "fit_ancestors E (length (al_ancestors a)) a = (a, al_ancestors a \<noteq> [])" by (cases "al_ancestors a") auto
  then show ?thesis using True by (simp add: fit_def Let_def fit_stages_def pop_ancestors.simps split: bool.splits)
next
  case False
  let ?n = "length (al_ancestors a)" and ?P = "\<lambda>x. serialized_len E x \<le> ALARM_BYTES"
  have zero: "a\<lparr>al_detection := map_option clear_detection (al_detection a)\<rparr> = without_args a 0"
    by (simp add: without_args_def)
  have last: "(without_args a ?n)\<lparr>al_process := clear_args (al_process (without_args a ?n))\<rparr> = without_ancestors a 0"
    by (simp add: without_args_def without_ancestors_def)
  have "fit E a = (case find ?P (map (without_args a) [0..<?n]) of
      Some x \<Rightarrow> x | None \<Rightarrow> pop_ancestors E (if ?P (without_args a ?n) then without_args a ?n else without_ancestors a 0))"
    using False fit_ancestors_stages [of ?n a E] zero last without_args_def [of a 0, THEN arg_cong, of al_ancestors]
    by (simp add: fit_def Let_def not_le split: option.splits)
  then show ?thesis using False pop_ancestors_stages [of 0 a E]
    by (simp add: fit_stages_def find_append pop_ancestors.simps [of E "without_args a ?n"] split: option.splits)
qed

section \<open>Alarms that validate\<close>

text \<open>Every check of \<open>Alarm::validate\<close> but those of the detection and of the serialized size.\<close>

definition alarm_core_ok :: "alarm \<Rightarrow> bool" where
  "alarm_core_ok a \<longleftrightarrow>
     validate_identifier ''alarm_id'' (as_str (al_alarm_id a)) V1 = Ok () \<and>
     validate_identifier ''rule_set_id'' (as_str (al_rule_set_id a)) V1 = Ok () \<and>
     validate_identifier ''rule_id'' (as_str (al_rule_id a)) V1 = Ok () \<and>
     al_rule_set_version a \<noteq> 0 \<and> al_rule_version a \<noteq> 0 \<and> validate_string ''message'' (al_message a) V1 = Ok () \<and>
     0 \<le> al_first_seen_unix_ms a \<and> al_first_seen_unix_ms a \<le> al_last_seen_unix_ms a \<and>
     1 \<le> al_count a \<and> al_count a \<le> i32_max \<and> length (al_ancestors a) \<le> ALARM_ANCESTORS \<and>
     alarm_process_validate (al_process a) V1 = Ok () \<and> list_all (\<lambda>p. alarm_process_validate p V1 = Ok ()) (al_ancestors a)"





definition template_ok :: "template \<Rightarrow> bool" where
  "template_ok tm \<longleftrightarrow>
     validate_identifier ''rule_set_id'' (as_str (tm_rule_set_id tm)) V1 = Ok () \<and>
     validate_identifier ''rule_id'' (as_str (tm_rule_id tm)) V1 = Ok () \<and>
     tm_rule_set_version tm \<noteq> 0 \<and> tm_rule_version tm \<noteq> 0 \<and> validate_string ''message'' (tm_message tm) V1 = Ok ()"


section \<open>What the kernel reports\<close>

lemma first_char_boundary:
  assumes "valid_utf8 s" "s \<noteq> []"
  shows "\<exists>n. 0 < n \<and> n \<le> 4 \<and> is_char_boundary s n"
proof -
  obtain a t where s: "s = a # t" using assms(2) by (cases s) auto
  obtain n where n: "utf8_chunk a t = (n, True)" "valid_utf8 (drop n (a # t))"
    using utf8_chunk_valid assms(1) s by blast
  have "0 < n" "n \<le> length s" using utf8_chunk_pos [of a t] utf8_chunk_le [of a t] n s by simp_all
  moreover have "n \<le> 4" using n(1) by (auto simp: utf8_chunk_def split: if_splits list.splits)
  moreover have "is_char_boundary s n"
  proof (cases "n = length s")
    case False
    then have "drop n s = s ! n # drop (Suc n) s" using \<open>n \<le> length s\<close> by (simp add: Cons_nth_drop_Suc)
    then show ?thesis using valid_utf8_hd n(2) s False \<open>n \<le> length s\<close> by (metis is_char_boundary_def le_neq_implies_less)
  qed (simp add: is_char_boundary_def)
  ultimately show ?thesis by blast
qed

lemma cut_text_empty: "valid_utf8 t \<Longrightarrow> 4 \<le> n \<Longrightarrow> fst (cut_text t n) = [] \<longleftrightarrow> t = []"
proof -
  assume t: "valid_utf8 t" and n: "4 \<le> n"
  show ?thesis
  proof (cases "t = []")
    case False
    then have "floor_boundary t n \<noteq> 0"
      using first_char_boundary [OF t] floor_boundary_greatest [of t _ n] n by (metis le_trans le_zero_eq less_irrefl)
    then show ?thesis using False by (simp add: cut_text_def)
  qed (simp add: cut_text_def)
qed

lemma path_text_empty [simp]: "path_text b = [] \<longleftrightarrow> b = []"
  by (simp add: path_text_def cut_text_empty lossy_valid PATH_BYTES_def)

lemma set_cut_text: "set (fst (cut_text t n)) \<subseteq> set t"
  using cut_text_spec(3) [of t n] set_mono_prefix by (metis prod.collapse)

lemma path_text_no_NUL [simp]: "NUL \<notin> set b \<Longrightarrow> NUL \<notin> set (path_text b)"
  using set_cut_text lossy_no_NUL unfolding path_text_def by blast


text \<open>Reports without NUL: the kernel's strings end at one. An executable and a working directory
  have a path, and the name of a process is a \<open>comm\<close> of at most 64 bytes.\<close>

definition path_clean :: "string \<Rightarrow> bool" where
  "path_clean b \<longleftrightarrow> b \<noteq> [] \<and> NUL \<notin> set b"

definition start_clean :: "process_start \<Rightarrow> bool" where
  "start_clean s \<longleftrightarrow> path_clean (ps_exe s) \<and> pred_option path_clean (ps_cwd s) \<and> 0 \<le> ps_at_unix_ms s \<and>
     list_all (\<lambda>arg. NUL \<notin> set arg) (ps_args s)"

definition seeded_clean :: "seeded \<Rightarrow> bool" where
  "seeded_clean x \<longleftrightarrow> NUL \<notin> set (se_name x) \<and> length (se_name x) \<le> 64 \<and>
     pred_option (\<lambda>link. NUL \<notin> set link) (se_exe x) \<and> pred_option path_clean (se_cwd x) \<and>
     list_all (\<lambda>arg. NUL \<notin> set arg) (se_args x)"





definition entries_clean :: "process_table \<Rightarrow> bool" where
  "entries_clean t \<longleftrightarrow> (\<forall>(k, e) \<in> set (pt_entries t). entry_clean e)"



definition reports_clean :: "process_start \<Rightarrow> (nat \<Rightarrow> seeded option) \<Rightarrow> bool" where
  "reports_clean s lookup \<longleftrightarrow> start_clean s \<and> pred_option seeded_clean (ps_parent s) \<and>
     (\<forall>pid. pred_option seeded_clean (lookup pid))"




section \<open>One start\<close>

definition bundle_ok :: "verified_rule_set \<Rightarrow> bool" where
  "bundle_ok b \<longleftrightarrow> rule_set_validate (vr_rules b) V1 = Ok () \<and>
     validate_identifier ''rule_set_id'' (as_str (av_rule_set_id (vr_accepted b))) V1 = Ok () \<and> av_version (vr_accepted b) \<noteq> 0"



text \<open>What holds between two matches: the alarms so far validate, the collapsed alarms are well
  formed and the table is untouched.\<close>

definition raised_ok :: "process_table \<Rightarrow> raised \<Rightarrow> bool" where
  "raised_ok t = (\<lambda>(alarms, en, n). list_all alarm_core_ok alarms \<and> en_table en = t \<and> collapse_inv (en_collapse en))"










definition engine_ok :: "engine \<Rightarrow> bool" where
  "engine_ok en \<longleftrightarrow> table_good (en_table en) \<and> entries_clean (en_table en) \<and> collapse_inv (en_collapse en)"




section \<open>Masked events\<close>

lemma event_get_masked:
  assumes "masked_event ev line li = Some ev'" "bt_invar (pe_values ev)"
  shows "event_get ev' ''process.cmdline'' = Some (EvString (fst (cut_text line CMDLINE_BYTES)))"
    and "k \<notin> {''process.cmdline'', ''parent.cmdline''} \<Longrightarrow> event_get ev' k = event_get ev k"
    and "li_ancestors li = p # ps \<Longrightarrow> masked_args p = Some args \<Longrightarrow>
      event_get ev' ''parent.cmdline'' = Some (EvString (fst (cut_text (join_spaces args) CMDLINE_BYTES)))"
proof -
  have acc: "event_accepts ''process.cmdline'' (EvString (fst (cut_text u CMDLINE_BYTES)))"
    "event_accepts ''parent.cmdline'' (EvString (fst (cut_text u CMDLINE_BYTES)))" for u
    using cut_text_spec(1) [of u CMDLINE_BYTES] by (auto simp: accept_simps CMDLINE_BYTES_def prod_eq_iff)
  note get = get_set_or_skip set_or_skip_invar assms(2) acc
  show "event_get ev' ''process.cmdline'' = Some (EvString (fst (cut_text line CMDLINE_BYTES)))"
    using assms(1) by (auto simp: masked_event_def Let_def set_line_def get split: list.splits)
  show "event_get ev' k = event_get ev k" if "k \<notin> {''process.cmdline'', ''parent.cmdline''}"
    using assms(1) that by (auto simp: masked_event_def Let_def set_line_def get split: list.splits)
  show "event_get ev' ''parent.cmdline'' = Some (EvString (fst (cut_text (join_spaces args) CMDLINE_BYTES)))"
    if "li_ancestors li = p # ps" "masked_args p = Some args"
    using assms(1) that by (auto simp: masked_event_def Let_def set_line_def get)
qed



lemmas alarm_engine_evals [evals] =
  EVENT_OPERATIONS_def AGENT_RULE_SET_def EVALUATION_CUT_def EVALUATION_CUT_MESSAGE_def
  COLLAPSE_WINDOW_MS_def COLLAPSE_ENTRIES_def collapse_room_def collapse_new_def in_window_def
  collapse_def collapse_fields_def collapse_key_def serialized_len_def clear_detection_def
  clear_args_def fit_def raise_alarm_def masked_line_def set_line_def masked_event_def
  on_match_def count_outcome_def ordered_def cut_template_def on_cut_def on_start_def
  engine_reap_def compile_bundles_def mask_chars_def entry_clean_def lineage_ok_def env_ok_def
  alarm_head_def fitted_def alarm_core_ok_def template_ok_def path_clean_def start_clean_def
  seeded_clean_def entries_clean_def reports_clean_def bundle_ok_def raised_ok_def engine_ok_def
  pop_ancestors.simps

section \<open>An example\<close>

definition eng_env :: engine_env where
  "eng_env = \<lparr>ee_trace = ev_env, ee_clock = ev_clock, ee_sha256 = take 32, ee_alarm_json = (\<lambda>_. Some 500), ee_order = rev,
     ee_new_id = (\<lambda>n. if n = 0 then Some (Identifier ''i'') else None)\<rparr>"



lemma eng_env_ok: "env_ok eng_env"
  by (simp add: env_ok_def eng_env_def validate_identifier_def evals)




section \<open>Properties\<close>



text \<open>C29: repeats of a match collapse. Within ten minutes of the first match a repeat carries the same
  alarm id and first time with the count grown by one, up to the largest signed 32-bit number, and
  changes no other open alarm; it is never lost. Any other match opens an alarm under a new id with
  count one, or is lost when no id can be made. At most 4096 alarms are kept open, and while there
  is room for one more none is forgotten.\<close>

theorem repeats_collapse:
  assumes "env_ok E" and "collapse_inv m" and "0 \<le> at"
  defines "repeat \<equiv> \<lambda>seen. 0 \<le> at - co_first_seen seen \<and> at - co_first_seen seen \<le> 10 * 60 * 1000"
  shows "case collapse E key at n m of (r, m', n') \<Rightarrow>
    length m' \<le> 4096 \<and> (length m < 4096 \<longrightarrow> (\<forall>k. k \<noteq> key \<longrightarrow> bt_get m' k = bt_get m k)) \<and>
    (case filter_option repeat (bt_get m key) of
       Some seen \<Rightarrow>
         let count = min (co_count seen + 1) i32_max in
         r = Some (co_alarm_id seen, co_first_seen seen, count) \<and> n' = n \<and>
         bt_get m' key = Some (seen\<lparr>co_count := count\<rparr>) \<and> (\<forall>k. k \<noteq> key \<longrightarrow> bt_get m' k = bt_get m k)
     | None \<Rightarrow>
         (case ee_new_id E n of
            None \<Rightarrow> r = None
          | Some i \<Rightarrow> r = Some (i, at, 1) \<and>
              bt_get m' key = Some \<lparr>co_alarm_id = i, co_first_seen = at, co_count = 1\<rparr>))"
proof -
  have rep: "in_window at seen \<longleftrightarrow> repeat seen" for seen
    by (auto simp: in_window_def repeat_def i64_saturating_sub_def clamp_i64_def COLLAPSE_WINDOW_MS_def i64_defs)
  obtain r m' n' where c: "collapse E key at n m = (r, m', n')" "collapse_inv m'"
    "case r of None \<Rightarrow> True | Some (i, first, count) \<Rightarrow>
       bt_get m' key = Some \<lparr>co_alarm_id = i, co_first_seen = first, co_count = count\<rparr>"
    using collapse_spec [OF assms(1-3), of key n] by (auto split: option.splits)
  have len: "length m' \<le> 4096" using c(2) by (simp add: collapse_inv_def COLLAPSE_ENTRIES_def)
  have sat: "min (Suc (min x 4294967294)) i32_max = min (Suc x) i32_max" for x by (simp add: i32_max_def min_def)
  have inv: "bt_invar m" using assms(2) by (simp add: collapse_inv_def)
  have room: "collapse_room E at m = m" if "length m < 4096" using that by (simp add: collapse_room_def COLLAPSE_ENTRIES_def Let_def)
  show ?thesis
  proof (cases "filter_option repeat (bt_get m key)")
    case None
    then have "collapse E key at n m = collapse_new E key at n m"
      by (auto simp: collapse_def rep filter_option_def split: option.splits if_splits)
    then show ?thesis using None c len room inv
      by (auto simp: collapse_new_def bt.lookup_update split: option.splits)
  next
    case (Some seen)
    then have "bt_get m key = Some seen" "in_window at seen" by (auto simp: rep filter_option_def split: option.splits if_splits)
    then show ?thesis using Some c(1) len inv sat by (auto simp: collapse_def Let_def bt.lookup_update)
  qed
qed

theorem repeats_collapse_witness:
  "collapse eng_env ''k'' 7 0 [(''k'', \<lparr>co_alarm_id = Identifier ''i'', co_first_seen = 5, co_count = 3\<rparr>)] =
     (Some (Identifier ''i'', 5, 4), [(''k'', \<lparr>co_alarm_id = Identifier ''i'', co_first_seen = 5, co_count = 4\<rparr>)], 0) \<and>
   (case collapse eng_env ''k'' 7 0 [(''k'', \<lparr>co_alarm_id = Identifier ''i'', co_first_seen = 5, co_count = 3\<rparr>)] of
      (_, m', _) \<Rightarrow> length m' \<le> 4096)"
proof -
  have "collapse_inv [(''k'', \<lparr>co_alarm_id = Identifier ''i'', co_first_seen = 5, co_count = 3\<rparr>)]"
    by (simp add: collapse_inv_def COLLAPSE_ENTRIES_def i32_max_def validate_identifier_def bt_invar_def bt_keys_def evals)
  from repeats_collapse [OF eng_env_ok this, where at = 7 and key = "''k''" and n = 0] show ?thesis
    by (simp add: collapse_def bt_get_def in_window_def COLLAPSE_WINDOW_MS_def i32_max_def Let_def evals)
qed

text \<open>What a restricted rule set sees. The command line of the process and of its parent are
  replaced by their masked texts, cut at the bound of the key; every other value of the event is the
  one the unrestricted sets see.\<close>

theorem restricted_sees_masked:
  assumes "masked_event ev line li = Some ev'" and "bt_invar (pe_values ev)"
  shows "event_get ev' ''process.cmdline'' = Some (EvString (fst (cut_text line CMDLINE_BYTES))) \<and>
    (\<forall>p ps args. li_ancestors li = p # ps \<and> masked_args p = Some args \<longrightarrow>
       event_get ev' ''parent.cmdline'' = Some (EvString (fst (cut_text (join_spaces args) CMDLINE_BYTES)))) \<and>
    (\<forall>k. k \<noteq> ''process.cmdline'' \<and> k \<noteq> ''parent.cmdline'' \<longrightarrow> event_get ev' k = event_get ev k)"
  using event_get_masked [OF assms] by simp

theorem restricted_sees_masked_witness:
  "\<exists>ev'. masked_event ev_start ''a b'' \<lparr>li_process = tx_seed, li_ancestors = []\<rparr> = Some ev' \<and>
     event_get ev' ''process.cmdline'' = Some (EvString ''a b'') \<and> event_get ev' ''process.uid'' = Some (EvInteger 0)"
proof -
  obtain ev' where ev': "masked_event ev_start ''a b'' \<lparr>li_process = tx_seed, li_ancestors = []\<rparr> = Some ev'"
    by (simp add: masked_event_def Let_def)
  have "bt_invar (pe_values ev_start)" by (simp add: ev_start_def bt_invar_def bt_keys_def)
  from restricted_sees_masked [OF ev' this] ev' show ?thesis
    by (simp add: cut_text_def CMDLINE_BYTES_def ev_start_def event_get_def bt_get_def)
qed

text \<open>C30: an alarm too large for its limit gives up its least valuable parts, in order and only as far
  as it must. The result is the first that fits of: the alarm as it is; without its recorded
  evaluation; without the arguments of the farthest ancestor, of the two farthest and so on; without
  its own arguments; without the farthest ancestor, the two farthest and so on. When none fits it is
  the last of them, with no ancestors and no arguments. The identity, the rule, the times and the
  count stay.\<close>

theorem fitted_alarm:
  "fit E a = (case find (\<lambda>x. serialized_len E x \<le> ALARM_BYTES)
       ([a] @ map (without_args a) [0..<Suc (length (al_ancestors a))] @
        map (without_ancestors a) [0..<Suc (length (al_ancestors a))]) of
     Some x \<Rightarrow> x | None \<Rightarrow> without_ancestors a (length (al_ancestors a))) \<and>
   alarm_head (fit E a) = alarm_head a \<and> fitted a (fit E a)"
proof -
  have last: "last (fit_stages a) = without_ancestors a (length (al_ancestors a))" by (simp add: fit_stages_def)
  have "fitted a (fit E a)" using fit_spec [of a E] by blast
  then have "alarm_head (fit E a) = alarm_head a \<and> fitted a (fit E a)" unfolding fitted_def by blast
  then show ?thesis using fit_is_first_stage [of E a, unfolded last, unfolded fit_stages_def] by blast
qed

end
