(* ===== verification/Str_Ops.thy ===== *)
theory Str_Ops
  imports Lossy Contracts
begin

text \<open>
  The string methods of Rust's standard library the agent's parsers use: characters and white
  space, trimming, lines, splitting, and reading decimal numbers. A \<open>str\<close> is its UTF-8 bytes; white
  space is Unicode's, so it is decided on whole characters.
\<close>

section \<open>Definitions\<close>

subsection \<open>Characters\<close>

text \<open>\<open>str::chars\<close>, each character as its bytes.\<close>

function chars :: "string \<Rightarrow> string list" where
  "chars [] = []"
| "chars (a # s) = take (fst (utf8_chunk a s)) (a # s) # chars (drop (fst (utf8_chunk a s)) (a # s))"
  by pat_completeness auto
termination
  by (relation "measure length") (use utf8_chunk_pos in \<open>auto simp: drop_Cons'\<close>)

declare chars.simps(2) [simp del]

text \<open>\<open>char::is_whitespace\<close>: the characters with the property \<open>White_Space\<close>.\<close>

definition is_whitespace :: "string \<Rightarrow> bool" where
  "is_whitespace c \<longleftrightarrow>
     (case c of
        [a] \<Rightarrow> 9 \<le> byte a \<and> byte a \<le> 13 \<or> byte a = 32
      | [a, b] \<Rightarrow> byte a = 194 \<and> (byte b = 133 \<or> byte b = 160)
      | [a, b, d] \<Rightarrow>
          byte a = 225 \<and> byte b = 154 \<and> byte d = 128 \<or>
          byte a = 226 \<and> byte b = 128 \<and> (128 \<le> byte d \<and> byte d \<le> 138 \<or> byte d = 168 \<or> byte d = 169 \<or> byte d = 175) \<or>
          byte a = 226 \<and> byte b = 129 \<and> byte d = 159 \<or>
          byte a = 227 \<and> byte b = 128 \<and> byte d = 128
      | _ \<Rightarrow> False)"

definition trim_start :: "string \<Rightarrow> string" where
  "trim_start s = concat (dropWhile is_whitespace (chars s))"

definition trim_end :: "string \<Rightarrow> string" where
  "trim_end s = concat (rev (dropWhile is_whitespace (rev (chars s))))"

definition trim :: "string \<Rightarrow> string" where
  "trim s = concat (rev (dropWhile is_whitespace (rev (dropWhile is_whitespace (chars s)))))"

definition trim_ascii_start :: "string \<Rightarrow> string" where
  "trim_ascii_start s = dropWhile is_ascii_whitespace s"

subsection \<open>Splitting\<close>

fun split_on :: "char \<Rightarrow> string \<Rightarrow> string list" where
  "split_on c [] = [[]]"
| "split_on c (x # xs) =
     (if x = c then [] # split_on c xs
      else (case split_on c xs of w # ws \<Rightarrow> (x # w) # ws | [] \<Rightarrow> [[x]]))"

definition rsplit_once :: "char \<Rightarrow> string \<Rightarrow> (string \<times> string) option" where
  "rsplit_once c s = map_option (\<lambda>i. (take i s, drop (Suc i) s)) (rfind_byte (\<lambda>x. x = c) s)"

definition strip_suffix :: "string \<Rightarrow> string \<Rightarrow> string option" where
  "strip_suffix p s = (if ends_with s p then Some (take (length s - length p) s) else None)"

text \<open>\<open>str::lines\<close>: a carriage return is dropped only together with its line feed.\<close>

definition strip_cr :: "string \<Rightarrow> string" where
  "strip_cr l = (case strip_suffix [CHR 0x0D] l of Some l' \<Rightarrow> l' | None \<Rightarrow> l)"

definition lines :: "string \<Rightarrow> string list" where
  "lines s =
     (let ps = split_on (CHR 0x0A) s in
      map strip_cr (butlast ps) @ (if List.last ps = [] then [] else [List.last ps]))"

text \<open>\<open>str::split_whitespace\<close>: the non-empty runs between white space.\<close>

fun words_of :: "string list \<Rightarrow> string \<Rightarrow> string list" where
  "words_of [] w = (if w = [] then [] else [w])"
| "words_of (c # cs) w =
     (if is_whitespace c then (if w = [] then words_of cs [] else w # words_of cs [])
      else words_of cs (w @ c))"

definition split_whitespace :: "string \<Rightarrow> string list" where
  "split_whitespace s = words_of (chars s) []"

text \<open>The \<open>n\<close>th item of an iterator.\<close>

definition nth_item :: "nat \<Rightarrow> 'a list \<Rightarrow> 'a option" where
  "nth_item n xs = (if n < length xs then Some (xs ! n) else None)"

subsection \<open>Numbers\<close>

fun digits_value :: "nat \<Rightarrow> string \<Rightarrow> nat option" where
  "digits_value n [] = Some n"
| "digits_value n (c # s) = (if is_ascii_digit c then digits_value (10 * n + (byte c - 48)) s else None)"

text \<open>\<open>parse\<close> of an unsigned type with the given largest value, and of \<open>i64\<close>.\<close>

definition parse_unsigned :: "nat \<Rightarrow> string \<Rightarrow> nat option" where
  "parse_unsigned m s =
     (let ds = (case s of c # rest \<Rightarrow> if c = CHR ''+'' then rest else s | [] \<Rightarrow> []) in
      if ds = [] then None
      else case digits_value 0 ds of Some n \<Rightarrow> if n \<le> m then Some n else None | None \<Rightarrow> None)"

definition parse_i64 :: "string \<Rightarrow> int option" where
  "parse_i64 s =
     (case s of
        c # rest \<Rightarrow>
          if c = CHR ''-'' then
            (if rest = [] then None
             else case digits_value 0 rest of
                    Some n \<Rightarrow> if n \<le> 2 ^ 63 then Some (- int n) else None
                  | None \<Rightarrow> None)
          else map_option int (parse_unsigned (2 ^ 63 - 1) s)
      | [] \<Rightarrow> None)"

definition u32_max :: nat where "u32_max = 2 ^ 32 - 1"

section \<open>Splitting and joining\<close>

lemma split_on_nonempty [simp]: "split_on c s \<noteq> []"
  by (induction s) (auto split: list.splits)

lemma split_on_none: "c \<notin> set s \<Longrightarrow> split_on c s = [s]"
  by (induction s) auto

lemma split_on_append: "c \<notin> set s \<Longrightarrow> split_on c (s @ c # t) = s # split_on c t"
  by (induction s) auto

lemma split_on_parts: "w \<in> set (split_on c s) \<Longrightarrow> c \<notin> set w"
  by (induction s arbitrary: w) (auto split: if_splits list.splits)

fun join_with :: "char \<Rightarrow> string list \<Rightarrow> string" where
  "join_with c [] = []"
| "join_with c [w] = w"
| "join_with c (w # v # ws) = w @ c # join_with c (v # ws)"

lemma split_on_join: "ws \<noteq> [] \<Longrightarrow> list_all (\<lambda>w. c \<notin> set w) ws \<Longrightarrow> split_on c (join_with c ws) = ws"
  by (induction c ws rule: join_with.induct) (simp_all add: split_on_none split_on_append)

lemma join_split_on: "join_with c (split_on c s) = s"
proof (induction s)
  case (Cons x s)
  then show ?case by (cases "split_on c s"; cases "tl (split_on c s)") (auto split: list.splits)
qed simp

lemma find_byte_at: "\<not> list_ex p s \<Longrightarrow> p c \<Longrightarrow> find_byte p (s @ c # t) = Some (length s)"
  by (induction s) auto

lemma split_once_append: "c \<notin> set s \<Longrightarrow> split_once c (s @ c # t) = Some (s, t)"
  by (subst split_once_def, subst find_byte_at) (auto simp: list_ex_iff)

lemma split_once_Some: "split_once c s = Some (a, b) \<longleftrightarrow> s = a @ c # b \<and> c \<notin> set a"
proof
  assume "split_once c s = Some (a, b)"
  then obtain i where i: "find_byte (\<lambda>x. x = c) s = Some i" "a = take i s" "b = drop (Suc i) s"
    by (auto simp: split_once_def)
  from find_byte_Some [OF i(1)] i show "s = a @ c # b \<and> c \<notin> set a"
    by (auto simp: id_take_nth_drop [symmetric] in_set_conv_nth)
next
  assume "s = a @ c # b \<and> c \<notin> set a"
  then show "split_once c s = Some (a, b)" by (simp add: split_once_append)
qed

lemma split_once_None: "split_once c s = None \<longleftrightarrow> c \<notin> set s"
  by (auto simp: split_once_def find_byte_None)

lemma split_on_lines:
  "list_all (\<lambda>l. CHR 0x0A \<notin> set l) ls \<Longrightarrow> split_on (CHR 0x0A) (concat (map (\<lambda>l. l @ [CHR 0x0A]) ls)) = ls @ [[]]"
  by (induction ls) (simp_all add: split_on_append)

lemma lines_unlines:
  "list_all (\<lambda>l. CHR 0x0A \<notin> set l \<and> \<not> ends_with l [CHR 0x0D]) ls \<Longrightarrow> lines (concat (map (\<lambda>l. l @ [CHR 0x0A]) ls)) = ls"
  using split_on_lines [of ls]
  by (auto simp: lines_def Let_def list_all_iff strip_cr_def strip_suffix_def intro!: map_idI)

section \<open>Numbers\<close>

lemma digits_value_append:
  "digits_value n (s @ t) = (case digits_value n s of None \<Rightarrow> None | Some m \<Rightarrow> digits_value m t)"
  by (induction n s rule: digits_value.induct) auto

lemma digits_value_print: "digits_value 0 (nat_to_string n) = Some n"
proof (induction n rule: nat_to_string.induct)
  case (1 n)
  have "is_ascii_digit (char_of (48 + m))" "byte (char_of (48 + m) :: char) - 48 = m" if "m < 10" for m
    using that by (auto simp: is_ascii_digit_def)
  then show ?case using 1 by (auto simp: nat_to_string.simps [of n] digits_value_append)
qed

lemma parse_unsigned_print: "n \<le> m \<Longrightarrow> parse_unsigned m (nat_to_string n) = Some n"
proof -
  assume n: "n \<le> m"
  obtain c rest where cr: "nat_to_string n = c # rest" by (cases "nat_to_string n") auto
  then have "is_ascii_digit c" using nat_to_string_digits [of c n] by simp
  then have "c \<noteq> CHR ''+''" by (auto simp: is_ascii_digit_def)
  then show ?thesis using n cr digits_value_print [of n] by (simp add: parse_unsigned_def)
qed

lemma parse_unsigned_le: "parse_unsigned m s = Some n \<Longrightarrow> n \<le> m"
  by (auto simp: parse_unsigned_def Let_def split: if_splits option.splits)

section \<open>Characters\<close>

lemma concat_chars [simp]: "concat (chars s) = s"
  by (induction s rule: chars.induct) (simp_all add: chars.simps(2))

lemma chars_valid: "valid_utf8 s \<Longrightarrow> c \<in> set (chars s) \<Longrightarrow> valid_utf8 c"
proof (induction s rule: chars.induct)
  case (2 a s)
  obtain n where n: "utf8_chunk a s = (n, True)" "valid_utf8 (drop n (a # s))"
    using utf8_chunk_valid [OF "2.prems"(1)] by blast
  then show ?case using "2.IH" "2.prems" utf8_chunk_good [of a s n] by (auto simp: chars.simps(2))
qed simp

lemma ascii_chunk: "byte a < 128 \<Longrightarrow> chars (a # s) = [a] # chars s"
  by (simp add: chars.simps(2) utf8_chunk_def)

lemma chars_ascii: "list_all (\<lambda>c. byte c < 128) s \<Longrightarrow> chars s = map (\<lambda>c. [c]) s"
  by (induction s) (simp_all add: ascii_chunk)

lemma sublist_trim: "\<exists>u v. s = u @ trim s @ v"
proof -
  let ?d = "dropWhile is_whitespace (chars s)" and ?t = "takeWhile is_whitespace (chars s)"
  have "?d = rev (dropWhile is_whitespace (rev ?d)) @ rev (takeWhile is_whitespace (rev ?d))"
    by (metis rev_append rev_rev_ident takeWhile_dropWhile_id)
  then have "concat ?d = trim s @ concat (rev (takeWhile is_whitespace (rev ?d)))"
    unfolding trim_def by (metis concat_append)
  moreover have "s = concat ?t @ concat ?d" by (metis concat_append concat_chars takeWhile_dropWhile_id)
  ultimately show ?thesis by metis
qed

lemma set_trim: "set (trim s) \<subseteq> set s"
  using sublist_trim [of s] by (metis set_append Un_upper1 Un_upper2 le_supI2 subset_trans)

lemma words_of_nonempty: "v \<in> set (words_of cs w) \<Longrightarrow> [] \<notin> set cs \<Longrightarrow> v \<noteq> []"
  by (induction cs w rule: words_of.induct) (auto split: if_splits)

end
