(* ===== verification/Audit_Records.thy ===== *)
theory Audit_Records
  imports Process_Table Str_Ops "HOL-Library.Word"
begin

text \<open>
  Kernel audit records joined into process starts:
  \<open>openvibes-collectors/src/process_events/records.rs\<close>. A netlink message is a header and a text of
  \<open>key=value\<close> fields; the records of one \<open>execve\<close> share a serial number. Time is in nanoseconds.
  The byte order of the host is a parameter. The lemmas show that decoding an argument into the
  room left is decoding it whole and cutting, that a record the kernel writes gives back its
  arguments, and that every event the joiner opens is delivered, waiting or counted as lost.
\<close>

unbundle bit_operations_syntax

section \<open>Definitions\<close>

definition EXEC_KEY :: string where "EXEC_KEY = ''openvibes-exec''"
definition MAX_MESSAGE :: nat where "MAX_MESSAGE = 8970"
definition EVENT_ARG_BYTES :: nat where "EVENT_ARG_BYTES = 65536"
definition EVENT_WAIT :: nat where "EVENT_WAIT = 1000000000"
definition OPEN_EVENTS :: nat where "OPEN_EVENTS = 64"
definition HEADER :: nat where "HEADER = 16"
definition SYSCALL :: nat where "SYSCALL = 1300"
definition CWD :: nat where "CWD = 1307"
definition EXECVE :: nat where "EXECVE = 1309"
definition EOE :: nat where "EOE = 1320"
definition KEY_SEPARATOR :: char where "KEY_SEPARATOR = CHR 0x01"

definition process_start_default :: process_start where
  "process_start_default =
     \<lparr>ps_pid = 0, ps_ppid = 0, ps_uid = 0, ps_euid = 0, ps_exe = [], ps_exe_from_filename = False,
      ps_args = [], ps_args_truncated = False, ps_cwd = None, ps_at_unix_ms = 0, ps_parent = None\<rparr>"

record open_event =
  oe_since :: nat
  oe_start :: process_start
  oe_arg_bytes :: nat
  oe_argc :: "nat option"

record joiner =
  jo_open :: "(nat, open_event) btree_map"
  jo_dropped :: nat

subsection \<open>The message\<close>

definition be_value :: "string \<Rightarrow> nat" where
  "be_value bytes = foldl (\<lambda>n b. 256 * n + byte b) 0 bytes"

text \<open>\<open>from_ne_bytes\<close> on a host that is big-endian or not.\<close>

definition from_ne_bytes :: "bool \<Rightarrow> string \<Rightarrow> nat" where
  "from_ne_bytes big bytes = be_value (if big then bytes else rev bytes)"

definition i64_checked :: "int \<Rightarrow> int option" where
  "i64_checked i = (if is_i64 i then Some i else None)"

definition split_stamp :: "string \<Rightarrow> (int \<times> nat) option" where
  "split_stamp stamp =
     (if \<not> valid_utf8 stamp then None
      else Option.bind (split_once (CHR '':'') stamp) (\<lambda>(time, serial).
        Option.bind (split_once (CHR ''.'') time) (\<lambda>(secs, millis).
        Option.bind (parse_i64 secs) (\<lambda>s.
        Option.bind (i64_checked (s * 1000)) (\<lambda>ms.
        Option.bind (parse_i64 millis) (\<lambda>m.
        Option.bind (i64_checked (ms + m)) (\<lambda>at.
          map_option (Pair at) (parse_unsigned u64_max serial))))))))"

definition split_record :: "bool \<Rightarrow> string \<Rightarrow> (nat \<times> nat \<times> int \<times> string) option" where
  "split_record big message =
     (if length message < HEADER then None
      else
        let len = from_ne_bytes big (take 4 message); kind = from_ne_bytes big (take 2 (drop 4 message));
          stop = min (min len (length message)) MAX_MESSAGE
        in if stop < HEADER then None
        else Option.bind (strip_prefix ''audit('' (drop HEADER (take stop message))) (\<lambda>body.
          Option.bind (find_byte (\<lambda>b. b = CHR '')'') body) (\<lambda>close.
          map_option (\<lambda>(at, serial).
            let after = drop (Suc close) body in
            (kind, serial, at, (case strip_prefix '':'' after of Some rest \<Rightarrow> rest | None \<Rightarrow> after)))
            (split_stamp (take close body)))))"

subsection \<open>Fields\<close>

definition find_or_end :: "char \<Rightarrow> string \<Rightarrow> nat" where
  "find_or_end c s = (case find_byte (\<lambda>b. b = c) s of Some i \<Rightarrow> i | None \<Rightarrow> length s)"

definition value_end :: "string \<Rightarrow> nat" where
  "value_end rest =
     (case rest of
        c # tail \<Rightarrow>
          if c = CHR 0x22
          then (case find_byte (\<lambda>b. b = CHR 0x22) tail of Some i \<Rightarrow> i + 2 | None \<Rightarrow> length rest)
          else find_or_end (CHR '' '') rest
      | [] \<Rightarrow> 0)"

text \<open>The key ends at the first \<open>=\<close> before any space.\<close>

definition key_end :: "string \<Rightarrow> nat option" where
  "key_end text =
     (case find_byte (\<lambda>b. b = CHR ''='' \<or> b = CHR '' '') text of
        Some i \<Rightarrow> if text ! i = CHR ''='' then Some i else None
      | None \<Rightarrow> None)"

lemma trim_ascii_start_length: "length (trim_ascii_start s) \<le> length s"
  by (simp add: trim_ascii_start_def length_dropWhile_le)

lemma find_or_end_trimmed:
  assumes "trim_ascii_start s = c # t"
  shows "0 < find_or_end (CHR '' '') (c # t)"
proof -
  have "\<not> is_ascii_whitespace c"
    using assms dropWhile_eq_Cons_conv [of is_ascii_whitespace s] by (auto simp: trim_ascii_start_def)
  then have "c \<noteq> CHR '' ''" by (auto simp: is_ascii_whitespace_def)
  then show ?thesis by (auto simp: find_or_end_def split: option.splits)
qed

function fields_from :: "string \<Rightarrow> (string \<times> string) list" where
  "fields_from input =
     (let text = trim_ascii_start input in
      if text = [] then []
      else case key_end text of
        None \<Rightarrow> fields_from (drop (find_or_end (CHR '' '') text) text)
      | Some eq \<Rightarrow>
          let rest = drop (Suc eq) text in
          (take eq text, take (value_end rest) rest) # fields_from (drop (value_end rest) rest))"
  by pat_completeness auto
termination
proof (relation "measure length")
  fix input t0 :: string
  assume t0: "t0 = trim_ascii_start input" "t0 \<noteq> []" "key_end t0 = None"
  then obtain c t where ct: "trim_ascii_start input = c # t" by (cases "trim_ascii_start input") auto
  have "0 < find_or_end (CHR '' '') t0" using find_or_end_trimmed [OF ct] ct t0(1) by simp
  moreover have "0 < length t0" "length t0 \<le> length input" using t0 trim_ascii_start_length [of input] by auto
  ultimately have "length t0 - find_or_end (CHR '' '') t0 < length input" by linarith
  then show "(drop (find_or_end (CHR '' '') t0) t0, input) \<in> measure length" by simp
next
  fix input t0 rest :: string and eq :: nat
  assume t0: "t0 = trim_ascii_start input" "t0 \<noteq> []" "rest = drop (Suc eq) t0"
  then have "0 < length t0" "length t0 \<le> length input" using trim_ascii_start_length [of input] by auto
  then have "length t0 - Suc eq - value_end rest < length input" by linarith
  then show "(drop (value_end rest) rest, input) \<in> measure length" using t0(3) by simp
qed simp

declare fields_from.simps [simp del]

definition fields_new :: "string \<Rightarrow> (string \<times> string) list" where
  "fields_new text = fields_from (take (find_or_end NUL text) text)"

subsection \<open>Values\<close>

definition to_digit16 :: "char \<Rightarrow> nat option" where
  "to_digit16 c =
     (if is_ascii_digit c then Some (byte c - 48)
      else if 97 \<le> byte c \<and> byte c \<le> 102 then Some (byte c - 87)
      else if 65 \<le> byte c \<and> byte c \<le> 70 then Some (byte c - 55)
      else None)"

fun hex_bytes :: "string \<Rightarrow> string option" where
  "hex_bytes [] = Some []"
| "hex_bytes [c] = None"
| "hex_bytes (a # b # s) =
     Option.bind (to_digit16 a) (\<lambda>hi. Option.bind (to_digit16 b) (\<lambda>lo.
       map_option (Cons (char_of (hi * 16 + lo))) (hex_bytes s)))"

definition string_value :: "string \<Rightarrow> string option" where
  "string_value value =
     (case strip_prefix [CHR 0x22] value of
        Some inner \<Rightarrow> strip_suffix [CHR 0x22] inner
      | None \<Rightarrow> if odd (length value) then None else hex_bytes value)"

definition HEX :: "char \<Rightarrow> 8 word" where
  "HEX c =
     (if 48 \<le> byte c \<and> byte c \<le> 57 then of_nat (byte c - 48)
      else if 97 \<le> byte c \<and> byte c \<le> 102 then of_nat (byte c - 97 + 10)
      else if 65 \<le> byte c \<and> byte c \<le> 70 then of_nat (byte c - 65 + 10)
      else 0xFF)"

fun decode_pairs :: "string \<Rightarrow> 8 word \<times> string" where
  "decode_pairs (a # b # s) =
     (let hi = HEX a; lo = HEX b in
      case decode_pairs s of (bad, out) \<Rightarrow>
        ((hi OR lo) OR bad, char_of (unat (push_bit 4 hi OR (lo AND 0x0F))) # out))"
| "decode_pairs _ = (0, [])"

text \<open>The decoded length, and \<open>out\<close> with as much of the value as there is room for.\<close>

definition append_value :: "string \<Rightarrow> nat \<Rightarrow> string \<Rightarrow> nat option \<times> string" where
  "append_value value room out =
     (case strip_prefix [CHR 0x22] value of
        Some inner \<Rightarrow>
          (case strip_suffix [CHR 0x22] inner of
             Some inner \<Rightarrow> (Some (length inner), out @ take (min (length inner) room) inner)
           | None \<Rightarrow> (None, out))
      | None \<Rightarrow>
          if odd (length value) then (None, out)
          else
            let len = length value div 2; keep = min len room in
            case decode_pairs (take (keep * 2) value) of (bad, decoded) \<Rightarrow>
              let bad = bad OR foldl (\<lambda>acc b. acc OR HEX b) 0 (drop (keep * 2) value) in
              if bad AND 0xF0 \<noteq> 0 then (None, out) else (Some len, out @ decoded))"

definition number :: "nat \<Rightarrow> string \<Rightarrow> nat option" where
  "number m value = (if valid_utf8 value then parse_unsigned m value else None)"

subsection \<open>Records\<close>

definition has_exec_key :: "string \<Rightarrow> bool" where
  "has_exec_key value =
     (case string_value value of Some keys \<Rightarrow> EXEC_KEY \<in> set (split_on KEY_SEPARATOR keys) | None \<Rightarrow> False)"

text \<open>One field of a \<open>SYSCALL\<close> record: the start so far, whether the call succeeded and whether it
  carries the key.\<close>

definition syscall_field ::
  "process_start \<times> bool \<times> bool \<Rightarrow> string \<times> string \<Rightarrow> (process_start \<times> bool \<times> bool) option" where
  "syscall_field st kv =
     (case (st, kv) of ((start, success, keyed), (key, value)) \<Rightarrow>
        if key = ''success'' then Some (start, value = ''yes'', keyed)
        else if key = ''pid'' then map_option (\<lambda>n. (start\<lparr>ps_pid := n\<rparr>, success, keyed)) (number u32_max value)
        else if key = ''ppid'' then map_option (\<lambda>n. (start\<lparr>ps_ppid := n\<rparr>, success, keyed)) (number u32_max value)
        else if key = ''uid'' then map_option (\<lambda>n. (start\<lparr>ps_uid := n\<rparr>, success, keyed)) (number u32_max value)
        else if key = ''euid'' then map_option (\<lambda>n. (start\<lparr>ps_euid := n\<rparr>, success, keyed)) (number u32_max value)
        else if key = ''exe'' then
          Some (start\<lparr>ps_exe := (case string_value value of Some exe \<Rightarrow> exe | None \<Rightarrow> [])\<rparr>, success, keyed)
        else if key = ''key'' then Some (start, success, has_exec_key value)
        else Some st)"

fun syscall_loop ::
  "process_start \<times> bool \<times> bool \<Rightarrow> (string \<times> string) list \<Rightarrow> (process_start \<times> bool \<times> bool) option" where
  "syscall_loop st [] = Some st"
| "syscall_loop st (kv # kvs) = Option.bind (syscall_field st kv) (\<lambda>st'. syscall_loop st' kvs)"

definition syscall :: "string \<Rightarrow> int \<Rightarrow> process_start option" where
  "syscall txts at =
     Option.bind (syscall_loop (process_start_default\<lparr>ps_at_unix_ms := at\<rparr>, False, False) (fields_new txts))
       (\<lambda>(start, success, keyed). if success \<and> keyed then Some start else None)"

definition mark_truncated :: "open_event \<Rightarrow> open_event" where
  "mark_truncated ev = ev\<lparr>oe_start := (oe_start ev)\<lparr>ps_args_truncated := True\<rparr>\<rparr>"

definition set_args :: "string list \<Rightarrow> open_event \<Rightarrow> open_event" where
  "set_args args ev = ev\<lparr>oe_start := (oe_start ev)\<lparr>ps_args := args\<rparr>\<rparr>"

text \<open>The argument an \<open>aN\<close> key names and whether it is a piece of it; \<open>None\<close> for \<open>aN_len\<close>.\<close>

definition arg_index :: "string \<Rightarrow> (string \<times> bool) option" where
  "arg_index name =
     (case find_byte (\<lambda>b. b = CHR ''['' \<or> b = CHR ''_'') name of
        Some at \<Rightarrow> if name ! at = CHR ''_'' then None else Some (take at name, True)
      | None \<Rightarrow> Some (name, False))"

text \<open>\<open>index + 1\<close> wraps in \<open>usize\<close>.\<close>

definition append_arg :: "open_event \<Rightarrow> nat \<Rightarrow> bool \<Rightarrow> string \<Rightarrow> open_event" where
  "append_arg ev index piece value =
     (let args = ps_args (oe_start ev);
        appends = (piece \<and> (index + 1) mod 2 ^ 64 = length args)
      in if \<not> appends \<and> index \<noteq> length args then mark_truncated ev
      else
        let room = EVENT_ARG_BYTES - oe_arg_bytes ev;
          out = (if appends \<and> args \<noteq> [] then List.last args else [])
        in case append_value value room out of
             (None, _) \<Rightarrow> mark_truncated ev
           | (Some len, out') \<Rightarrow>
               let kept = length out' - length out;
                 ev1 = (if len > room then mark_truncated ev else ev);
                 ev2 = ev1\<lparr>oe_arg_bytes := oe_arg_bytes ev1 + kept\<rparr>
               in if appends then (if args \<noteq> [] then set_args (butlast args @ [out']) ev2 else ev2)
                  else if room > 0 \<or> len = 0 then set_args (args @ [out']) ev2 else ev2)"

definition execve_field :: "open_event \<Rightarrow> string \<times> string \<Rightarrow> open_event" where
  "execve_field ev kv =
     (case kv of (key, value) \<Rightarrow>
        if key = ''argc'' then ev\<lparr>oe_argc := number u64_max value\<rparr>
        else case strip_prefix ''a'' key of
          None \<Rightarrow> ev
        | Some name \<Rightarrow>
            (case arg_index name of
               None \<Rightarrow> ev
             | Some (ix, piece) \<Rightarrow>
                 (case number u64_max ix of
                    None \<Rightarrow> mark_truncated ev
                  | Some index \<Rightarrow> append_arg ev index piece value)))"

definition execve :: "open_event \<Rightarrow> string \<Rightarrow> open_event" where
  "execve ev txts = foldl execve_field ev (fields_new txts)"

subsection \<open>The joiner\<close>

definition joiner_default :: joiner where
  "joiner_default = \<lparr>jo_open = [], jo_dropped = 0\<rparr>"

text \<open>\<open>min_by_key\<close>: the first of the events that wait longest.\<close>

fun oldest_open :: "(nat \<times> open_event) list \<Rightarrow> (nat \<times> open_event) option" where
  "oldest_open [] = None"
| "oldest_open ((k, ev) # rest) =
     (case oldest_open rest of
        Some (k', ev') \<Rightarrow> if oe_since ev' < oe_since ev then Some (k', ev') else Some (k, ev)
      | None \<Rightarrow> Some (k, ev))"

definition make_room :: "joiner \<Rightarrow> joiner" where
  "make_room j =
     (if length (jo_open j) \<ge> OPEN_EVENTS
      then case oldest_open (jo_open j) of
             Some (serial, _) \<Rightarrow> j\<lparr>jo_open := bt_remove serial (jo_open j), jo_dropped := jo_dropped j + 1\<rparr>
           | None \<Rightarrow> j
      else j)"

definition open_start :: "nat \<Rightarrow> nat \<Rightarrow> process_start \<Rightarrow> joiner \<Rightarrow> joiner" where
  "open_start now serial start j =
     (let j1 = make_room j;
        ev = \<lparr>oe_since = now, oe_start = start, oe_arg_bytes = 0, oe_argc = None\<rparr>
      in j1\<lparr>jo_open := bt_insert serial ev (jo_open j1),
            jo_dropped := jo_dropped j1 + (if bt_get (jo_open j1) serial \<noteq> None then 1 else 0)\<rparr>)"

definition cwd_field :: "string \<Rightarrow> string option" where
  "cwd_field txts = Option.bind (find (\<lambda>(key, _). key = ''cwd'') (fields_new txts)) (\<lambda>(_, value). string_value value)"

definition finish_start :: "open_event \<Rightarrow> process_start" where
  "finish_start ev =
     (if (case oe_argc ev of None \<Rightarrow> True | Some argc \<Rightarrow> length (ps_args (oe_start ev)) < argc)
      then (oe_start ev)\<lparr>ps_args_truncated := True\<rparr> else oe_start ev)"

definition joiner_push :: "bool \<Rightarrow> string \<Rightarrow> nat \<Rightarrow> joiner \<Rightarrow> process_start option \<times> joiner" where
  "joiner_push big message now j =
     (case split_record big message of
        None \<Rightarrow> (None, j)
      | Some (kind, serial, at, txts) \<Rightarrow>
          if kind = SYSCALL then
            (case syscall txts at of
               None \<Rightarrow> (None, j)
             | Some start \<Rightarrow> (None, open_start now serial start j))
          else
            (case bt_get (jo_open j) serial of
               None \<Rightarrow> (None, j)
             | Some ev \<Rightarrow>
                 if kind = CWD then
                   (None, j\<lparr>jo_open := bt_insert serial (ev\<lparr>oe_start := (oe_start ev)\<lparr>ps_cwd := cwd_field txts\<rparr>\<rparr>) (jo_open j)\<rparr>)
                 else if kind = EXECVE then (None, j\<lparr>jo_open := bt_insert serial (execve ev txts) (jo_open j)\<rparr>)
                 else if kind = EOE then (Some (finish_start ev), j\<lparr>jo_open := bt_remove serial (jo_open j)\<rparr>)
                 else (None, j)))"

definition joiner_expire :: "nat \<Rightarrow> joiner \<Rightarrow> nat \<times> joiner" where
  "joiner_expire now j =
     (let kept = filter (\<lambda>(_, ev). now - oe_since ev \<le> EVENT_WAIT) (jo_open j) in
      (jo_dropped j + (length (jo_open j) - length kept), \<lparr>jo_open = kept, jo_dropped = 0\<rparr>))"

section \<open>Decoding into the room left\<close>

lemma HEX_digit: "to_digit16 c = Some d \<Longrightarrow> HEX c = of_nat d \<and> d < 16"
  by (auto simp: to_digit16_def HEX_def is_ascii_digit_def split: if_splits)

lemma HEX_bad: "to_digit16 c = None \<Longrightarrow> HEX c = 0xFF"
  by (auto simp: to_digit16_def HEX_def is_ascii_digit_def split: if_splits)

text \<open>The high half of a byte tells digits from other bytes.\<close>

lemma high_half_OR: "((a :: 8 word) OR b) AND 0xF0 = 0 \<longleftrightarrow> a AND 0xF0 = 0 \<and> b AND 0xF0 = 0"
proof -
  have "(a OR b) AND 0xF0 = (a AND 0xF0) OR (b AND 0xF0)" by (simp add: bit.conj_disj_distrib2)
  then show ?thesis by (simp add: or_eq_0_iff)
qed

lemma high_half_small: "d < 16 \<Longrightarrow> (of_nat d :: 8 word) AND 0xF0 = 0"
proof -
  assume "d < 16"
  then have "d \<in> set [0..<16]" by simp
  then show ?thesis by (simp add: upt_rec) (elim disjE; simp)
qed

lemma HEX_high_half: "HEX c AND 0xF0 = 0 \<longleftrightarrow> to_digit16 c \<noteq> None"
  using HEX_digit [of c] HEX_bad [of c] high_half_small by (cases "to_digit16 c") auto

lemma nibbles: "h < 16 \<Longrightarrow> l < 16 \<Longrightarrow> unat (push_bit 4 (of_nat h :: 8 word) OR (of_nat l AND 0x0F)) = h * 16 + l"
proof -
  assume "h < 16" "l < 16"
  then have "h \<in> set [0..<16]" "l \<in> set [0..<16]" by simp_all
  then show ?thesis by (simp add: upt_rec) (elim disjE; simp)
qed

lemma foldl_OR: "foldl (\<lambda>acc b. acc OR HEX b) a s AND 0xF0 = 0 \<longleftrightarrow> a AND 0xF0 = 0 \<and> list_all (\<lambda>c. to_digit16 c \<noteq> None) s"
  by (induction s arbitrary: a) (auto simp: high_half_OR HEX_high_half)

lemma hex_bytes_None: "even (length s) \<Longrightarrow> hex_bytes s = None \<longleftrightarrow> \<not> list_all (\<lambda>c. to_digit16 c \<noteq> None) s"
  by (induction s rule: hex_bytes.induct) (auto split: bind_splits)

lemma length_hex_bytes: "hex_bytes s = Some out \<Longrightarrow> 2 * length out = length s"
  by (induction s arbitrary: out rule: hex_bytes.induct) (auto split: bind_splits)

lemma hex_bytes_append:
  "even (length s) \<Longrightarrow> hex_bytes (s @ t) = Option.bind (hex_bytes s) (\<lambda>a. map_option ((@) a) (hex_bytes t))"
proof (induction s rule: hex_bytes.induct)
  case (3 a b s)
  then show ?case by (cases "hex_bytes s"; cases "hex_bytes t"; cases "to_digit16 a"; cases "to_digit16 b") auto
next
  case 1
  then show ?case by (cases "hex_bytes t") simp_all
qed simp

lemma decode_pairs_spec:
  "even (length s) \<Longrightarrow> decode_pairs s = (bad, out) \<Longrightarrow>
   (bad AND 0xF0 = 0 \<longleftrightarrow> hex_bytes s \<noteq> None) \<and> (\<forall>bs. hex_bytes s = Some bs \<longrightarrow> out = bs)"
proof (induction s arbitrary: bad out rule: decode_pairs.induct)
  case (1 a b s)
  obtain bad' out' where rec: "decode_pairs s = (bad', out')" by fastforce
  have "even (length s)" using "1.prems"(1) by simp
  note ih = "1.IH" [OF refl refl this rec]
  have bad: "bad = (HEX a OR HEX b) OR bad'" and out: "out = char_of (unat (push_bit 4 (HEX a) OR (HEX b AND 0x0F))) # out'"
    using "1.prems"(2) rec by (simp_all add: Let_def)
  have "bad AND 0xF0 = 0 \<longleftrightarrow> to_digit16 a \<noteq> None \<and> to_digit16 b \<noteq> None \<and> hex_bytes s \<noteq> None"
    unfolding bad high_half_OR HEX_high_half using ih by blast
  moreover have "out = bs" if "hex_bytes (a # b # s) = Some bs" for bs
  proof -
    from that obtain h l bs' where "to_digit16 a = Some h" "to_digit16 b = Some l" "hex_bytes s = Some bs'"
      "bs = char_of (h * 16 + l) # bs'" by (auto split: bind_splits)
    then show ?thesis using out ih nibbles HEX_digit by simp
  qed
  ultimately show ?case by (auto split: bind_splits)
qed auto

lemma append_value_spec:
  "append_value value room out =
     (case string_value value of
        None \<Rightarrow> (None, out)
      | Some bytes \<Rightarrow> (Some (length bytes), out @ take room bytes))"
proof (cases "strip_prefix [CHR 0x22] value")
  case (Some inner)
  then show ?thesis by (auto simp: append_value_def string_value_def min_def split: option.splits)
next
  case quote: None
  show ?thesis
  proof (cases "odd (length value)")
    case True
    then show ?thesis using quote by (simp add: append_value_def string_value_def)
  next
    case even: False
    let ?keep = "min (length value div 2) room"
    let ?head = "take (?keep * 2) value" and ?tail = "drop (?keep * 2) value"
    obtain bad decoded where dec: "decode_pairs ?head = (bad, decoded)" by fastforce
    have "?keep \<le> length value div 2" by simp
    then have len: "?keep * 2 \<le> length value" by linarith
    then have head: "even (length ?head)" "length ?head = ?keep * 2" by simp_all
    have tail: "even (length ?tail)" using even by simp
    note spec = decode_pairs_spec [OF head(1) dec]
    have split: "hex_bytes value = Option.bind (hex_bytes ?head) (\<lambda>a. map_option ((@) a) (hex_bytes ?tail))"
      using hex_bytes_append [OF head(1), of ?tail] by simp
    have bad: "(bad OR foldl (\<lambda>acc b. acc OR HEX b) 0 ?tail) AND 0xF0 = 0 \<longleftrightarrow> hex_bytes value \<noteq> None"
      unfolding high_half_OR foldl_OR using spec split hex_bytes_None [OF tail] by (auto split: bind_splits)
    show ?thesis
    proof (cases "hex_bytes value")
      case None
      then show ?thesis using quote even dec bad by (simp add: append_value_def string_value_def Let_def)
    next
      case (Some bs)
      then obtain a t where at: "hex_bytes ?head = Some a" "hex_bytes ?tail = Some t" "bs = a @ t"
        using split by (auto split: bind_splits)
      have a: "decoded = a" "length a = ?keep" using spec at(1) length_hex_bytes [OF at(1)] head(2) by auto
      have bs: "length bs = length value div 2" using length_hex_bytes [OF Some] by simp
      have "take room bs = a"
      proof (cases "room \<le> length value div 2")
        case True
        then show ?thesis using at(3) a(2) by (simp add: min_def)
      next
        case False
        then have "t = []" using bs at(3) a(2) by (simp add: min_def)
        then show ?thesis using at(3) a(2) False by (simp add: min_def)
      qed
      then show ?thesis using quote even dec bad Some a bs by (simp add: append_value_def string_value_def Let_def)
    qed
  qed
qed

section \<open>The room of an event\<close>

definition arg_total :: "process_start \<Rightarrow> nat" where
  "arg_total s = sum_list (map length (ps_args s))"

definition open_ok :: "open_event \<Rightarrow> bool" where
  "open_ok ev \<longleftrightarrow> arg_total (oe_start ev) \<le> oe_arg_bytes ev \<and> oe_arg_bytes ev \<le> EVENT_ARG_BYTES"

lemma mark_truncated_sel [simp]:
  "oe_arg_bytes (mark_truncated ev) = oe_arg_bytes ev" "ps_args (oe_start (mark_truncated ev)) = ps_args (oe_start ev)"
  by (simp_all add: mark_truncated_def)

lemma open_ok_truncated [simp]: "open_ok (mark_truncated ev) \<longleftrightarrow> open_ok ev"
  by (simp add: open_ok_def arg_total_def)

lemma open_ok_updates [simp]:
  "open_ok (ev\<lparr>oe_argc := n\<rparr>) \<longleftrightarrow> open_ok ev"
  "open_ok (ev\<lparr>oe_start := (oe_start ev)\<lparr>ps_cwd := c\<rparr>\<rparr>) \<longleftrightarrow> open_ok ev"
  by (simp_all add: open_ok_def arg_total_def)

lemma sum_last: "xs \<noteq> [] \<Longrightarrow> sum_list (map length (butlast xs @ [List.last xs @ out])) = sum_list (map length xs) + length out"
  by (induction xs) auto

text \<open>An argument grows by what is kept of the value.\<close>

lemma append_arg_eq:
  fixes ev index piece
  defines "args \<equiv> ps_args (oe_start ev)" and "room \<equiv> EVENT_ARG_BYTES - oe_arg_bytes ev"
    and "appends \<equiv> piece \<and> (index + 1) mod 2 ^ 64 = length (ps_args (oe_start ev))"
  assumes "string_value value = Some bytes"
  shows "append_arg ev index piece value =
    (let ev1 = (if length bytes > room then mark_truncated ev else ev);
       ev2 = ev1\<lparr>oe_arg_bytes := oe_arg_bytes ev + length (take room bytes)\<rparr>
     in if \<not> appends \<and> index \<noteq> length args then mark_truncated ev
        else if appends \<and> args \<noteq> [] then set_args (butlast args @ [List.last args @ take room bytes]) ev2
        else if \<not> appends \<and> (room > 0 \<or> bytes = []) then set_args (args @ [take room bytes]) ev2
        else ev2)"
proof -
  have "append_arg ev index piece value =
    (if \<not> appends \<and> index \<noteq> length args then mark_truncated ev
     else
       let out = (if appends \<and> args \<noteq> [] then List.last args else []);
         ev1 = (if length bytes > room then mark_truncated ev else ev);
         ev2 = ev1\<lparr>oe_arg_bytes := oe_arg_bytes ev1 + (length (out @ take room bytes) - length out)\<rparr>
       in if appends then (if args \<noteq> [] then set_args (butlast args @ [out @ take room bytes]) ev2 else ev2)
          else if room > 0 \<or> length bytes = 0 then set_args (args @ [out @ take room bytes]) ev2 else ev2)"
    unfolding append_arg_def Let_def appends_def [symmetric]
    unfolding args_def [symmetric] room_def [symmetric] append_value_spec assms(4) option.case prod.case ..
  then show ?thesis by (cases appends; cases "args = []") (simp_all add: Let_def)
qed

lemma append_arg_cases:
  fixes ev
  defines "args \<equiv> ps_args (oe_start ev)" and "room \<equiv> EVENT_ARG_BYTES - oe_arg_bytes ev"
  shows "append_arg ev index piece value \<in> {ev, mark_truncated ev} \<or>
    (\<exists>(bytes :: string) ev1 args'. ev1 \<in> {ev, mark_truncated ev} \<and>
       append_arg ev index piece value = set_args args' (ev1\<lparr>oe_arg_bytes := oe_arg_bytes ev + length (take room bytes)\<rparr>) \<and>
       sum_list (map length args') \<le> sum_list (map length args) + length (take room bytes))"
proof (cases "string_value value")
  case None
  then show ?thesis by (auto simp: append_arg_def append_value_spec Let_def)
next
  case (Some bytes)
  define ev1 where "ev1 = (if length bytes > room then mark_truncated ev else ev)"
  define ev2 where "ev2 = ev1\<lparr>oe_arg_bytes := oe_arg_bytes ev + length (take room bytes)\<rparr>"
  define A where "A \<longleftrightarrow> piece \<and> (index + 1) mod 2 ^ 64 = length args"
  have eq: "append_arg ev index piece value =
    (if \<not> A \<and> index \<noteq> length args then mark_truncated ev
     else if A \<and> args \<noteq> [] then set_args (butlast args @ [List.last args @ take room bytes]) ev2
     else if \<not> A \<and> (room > 0 \<or> bytes = []) then set_args (args @ [take room bytes]) ev2 else ev2)"
    using append_arg_eq [OF Some, of ev index piece] unfolding A_def ev2_def ev1_def args_def room_def Let_def .
  have same: "set_args args ev2 = ev2" by (simp add: set_args_def ev2_def ev1_def args_def)
  consider "append_arg ev index piece value = mark_truncated ev"
    | "args \<noteq> []" "append_arg ev index piece value = set_args (butlast args @ [List.last args @ take room bytes]) ev2"
    | "append_arg ev index piece value = set_args (args @ [take room bytes]) ev2"
    | "append_arg ev index piece value = set_args args ev2"
    using eq unfolding same by meson
  then have "append_arg ev index piece value = mark_truncated ev \<or>
    (\<exists>args'. append_arg ev index piece value = set_args args' ev2 \<and>
       sum_list (map length args') \<le> sum_list (map length args) + length (take room bytes))"
  proof cases
    case 2
    then show ?thesis using sum_last [OF 2(1), of "take room bytes"] by (metis order_refl)
  next
    case 3
    then show ?thesis by (intro disjI2 exI [of _ "args @ [take room bytes]"]) simp
  next
    case 4
    then show ?thesis by (intro disjI2 exI [of _ args]) simp
  qed simp
  then show ?thesis
  proof (elim disjE exE conjE)
    fix args' assume a: "append_arg ev index piece value = set_args args' ev2"
      "sum_list (map length args') \<le> sum_list (map length args) + length (take room bytes)"
    have e1: "ev1 \<in> {ev, mark_truncated ev}" by (simp add: ev1_def)
    show ?thesis
      by (rule disjI2, rule exI [of _ bytes], rule exI [of _ ev1], rule exI [of _ args'])
        (intro conjI e1 a(1) [unfolded ev2_def] a(2))
  qed simp
qed

lemma append_arg_ok:
  assumes "open_ok ev"
  shows "open_ok (append_arg ev index piece value)"
proof -
  let ?room = "EVENT_ARG_BYTES - oe_arg_bytes ev"
  have "open_ok (set_args args' (ev1\<lparr>oe_arg_bytes := oe_arg_bytes ev + length (take ?room bytes)\<rparr>))"
    if "sum_list (map length args') \<le> sum_list (map length (ps_args (oe_start ev))) + length (take ?room bytes)" for args' ev1 and bytes :: string
  proof -
    have "length (take ?room bytes) \<le> ?room" by simp
    then have "oe_arg_bytes ev + length (take ?room bytes) \<le> EVENT_ARG_BYTES" using assms unfolding open_ok_def by linarith
    then show ?thesis using assms that by (simp add: open_ok_def arg_total_def set_args_def)
  qed
  moreover have "open_ok ev'" if "ev' \<in> {ev, mark_truncated ev}" for ev' using that assms by auto
  ultimately show ?thesis using append_arg_cases [of ev index piece "value"] by (elim disjE exE conjE) (simp_all del: length_take)
qed

lemma execve_field_ok: "open_ok ev \<Longrightarrow> open_ok (execve_field ev kv)"
  by (simp add: execve_field_def append_arg_ok split: prod.splits option.splits)

lemma execve_ok: "open_ok ev \<Longrightarrow> open_ok (execve ev txts)"
proof -
  have "open_ok (foldl execve_field ev kvs)" if "open_ok ev" for kvs
    using that by (induction kvs arbitrary: ev) (auto simp: execve_field_ok)
  then show "open_ok ev \<Longrightarrow> open_ok (execve ev txts)" by (simp add: execve_def)
qed

section \<open>Every event is accounted for\<close>

definition joiner_inv :: "joiner \<Rightarrow> bool" where
  "joiner_inv j \<longleftrightarrow> bt_invar (jo_open j) \<and> length (jo_open j) \<le> OPEN_EVENTS \<and> (\<forall>(_, ev) \<in> set (jo_open j). open_ok ev)"

text \<open>Whether a message opens an event: a \<open>SYSCALL\<close> record of a successful call with the key.\<close>

definition opens :: "bool \<Rightarrow> string \<Rightarrow> bool" where
  "opens big message =
     (case split_record big message of
        Some (kind, serial, at, txts) \<Rightarrow> kind = SYSCALL \<and> syscall txts at \<noteq> None
      | None \<Rightarrow> False)"

lemma length_keys_eq: "length (bt_keys m) = length m"
  by (simp add: bt_keys_def)

lemma remove_length: "bt_invar m \<Longrightarrow> bt_get m k = Some v \<Longrightarrow> Suc (length (bt_remove k m)) = length m"
proof -
  assume m: "bt_invar m" and k: "bt_get m k = Some v"
  have "k \<in> set (bt_keys m)" using bt_get_in_set [OF k] by (force simp: bt_keys_def)
  moreover have "distinct (bt_keys m)" using m by (rule bt.distinct_keys)
  ultimately have "Suc (length (filter (\<lambda>k'. k' \<noteq> k) (bt_keys m))) = length (bt_keys m)"
    by (metis (mono_tags, lifting) distinct_remove1_removeAll filter_cong length_remove1 One_nat_def Suc_pred length_pos_if_in_set removeAll_filter_not_eq)
  then show ?thesis using length_keys_eq bt_keys_remove by metis
qed

lemma insert_length: "bt_invar m \<Longrightarrow> length (bt_insert k v m) = (if bt_get m k = None then Suc (length m) else length m)"
  by (induction k v m rule: bt_insert.induct) (auto simp: bt_invar_def bt_keys_def bt_get_def dest!: map_of_SomeD)

lemma oldest_open_mem: "oldest_open m = Some (k, ev) \<Longrightarrow> (k, ev) \<in> set m"
  by (induction m arbitrary: k ev rule: oldest_open.induct) (auto split: option.splits if_splits)

lemma oldest_open_None: "oldest_open m = None \<longleftrightarrow> m = []"
  by (cases m) (auto split: option.splits if_splits)

lemma make_room_spec:
  assumes "joiner_inv j"
  shows "joiner_inv (make_room j) \<and> length (jo_open (make_room j)) < OPEN_EVENTS \<and>
    length (jo_open (make_room j)) + jo_dropped (make_room j) = length (jo_open j) + jo_dropped j"
proof (cases "length (jo_open j) \<ge> OPEN_EVENTS")
  case True
  then have "jo_open j \<noteq> []" by (auto simp: OPEN_EVENTS_def)
  then obtain k ev where o: "oldest_open (jo_open j) = Some (k, ev)" using oldest_open_None by (cases "oldest_open (jo_open j)") auto
  have inv: "bt_invar (jo_open j)" using assms by (simp add: joiner_inv_def)
  have "bt_get (jo_open j) k = Some ev" using oldest_open_mem [OF o] inv by (simp add: bt_in_set_get)
  then have "Suc (length (bt_remove k (jo_open j))) = length (jo_open j)" by (rule remove_length [OF inv])
  moreover have "bt_invar (bt_remove k (jo_open j))" using inv by (rule bt.invar_delete)
  moreover have "set (bt_remove k (jo_open j)) \<subseteq> set (jo_open j)" by (auto simp: bt_remove_def)
  ultimately show ?thesis using True o assms by (auto simp: make_room_def joiner_inv_def)
next
  case False
  then show ?thesis using assms by (simp add: make_room_def)
qed

lemma joiner_inv_insert:
  assumes "joiner_inv j" "open_ok ev" "bt_get (jo_open j) serial \<noteq> None \<or> length (jo_open j) < OPEN_EVENTS"
  shows "joiner_inv (j\<lparr>jo_open := bt_insert serial ev (jo_open j)\<rparr>)"
  using assms set_bt_insert [of serial ev "jo_open j"] insert_length [of "jo_open j" serial ev]
  by (auto simp: joiner_inv_def bt.invar_update split: if_splits)

lemma syscall_loop_args:
  "syscall_loop (start, success, keyed) kvs = Some (start', success', keyed') \<Longrightarrow> ps_args start' = ps_args start"
proof (induction kvs arbitrary: start success keyed)
  case (Cons kv kvs)
  then obtain st1 where st1: "syscall_field (start, success, keyed) kv = Some st1" "syscall_loop st1 kvs = Some (start', success', keyed')"
    by (auto split: bind_splits)
  obtain a b c where abc: "st1 = (a, b, c)" by (cases st1)
  have "ps_args a = ps_args start" using st1(1) abc by (auto simp: syscall_field_def split: prod.splits if_splits)
  then show ?case using Cons.IH st1(2) abc by auto
qed simp

lemma syscall_args: "syscall txts at = Some start \<Longrightarrow> ps_args start = []"
  using syscall_loop_args by (fastforce simp: syscall_def process_start_default_def split: bind_splits prod.splits if_splits)

lemma push_spec:
  assumes "joiner_inv j" "joiner_push big message now j = (r, j')"
  shows "joiner_inv j' \<and> (\<forall>start. r = Some start \<longrightarrow> arg_total start \<le> EVENT_ARG_BYTES) \<and>
    length (jo_open j') + jo_dropped j' + (if r = None then 0 else 1) = length (jo_open j) + jo_dropped j + (if opens big message then 1 else 0)"
proof (cases "split_record big message")
  case None
  then show ?thesis using assms by (simp add: joiner_push_def opens_def)
next
  case (Some q)
  obtain kind serial at txts where q: "q = (kind, serial, at, txts)" by (cases q)
  have inv: "bt_invar (jo_open j)" using assms(1) by (simp add: joiner_inv_def)
  show ?thesis
  proof (cases "kind = SYSCALL")
    case sys: True
    show ?thesis
    proof (cases "syscall txts at")
      case None
      then show ?thesis using assms Some q sys by (simp add: joiner_push_def opens_def)
    next
      case start: (Some start)
      let ?j1 = "make_room j"
      note room = make_room_spec [OF assms(1)]
      let ?ev = "\<lparr>oe_since = now, oe_start = start, oe_arg_bytes = 0, oe_argc = None\<rparr>"
      have "ps_args start = []" using start by (rule syscall_args)
      then have ok: "open_ok ?ev" by (simp add: open_ok_def arg_total_def)
      have "joiner_inv (?j1\<lparr>jo_open := bt_insert serial ?ev (jo_open ?j1)\<rparr>)"
        using room ok by (intro joiner_inv_insert) auto
      moreover have "length (bt_insert serial ?ev (jo_open ?j1)) + (if bt_get (jo_open ?j1) serial \<noteq> None then 1 else 0) = Suc (length (jo_open ?j1))"
        using room insert_length [of "jo_open ?j1" serial ?ev] by (simp add: joiner_inv_def)
      ultimately show ?thesis using assms(2) Some q sys start room
        by (auto simp: joiner_push_def opens_def open_start_def Let_def joiner_inv_def split: if_splits)
    qed
  next
    case other: False
    show ?thesis
    proof (cases "bt_get (jo_open j) serial")
      case None
      then show ?thesis using assms Some q other by (simp add: joiner_push_def opens_def)
    next
      case ev: (Some ev)
      have ok: "open_ok ev" using bt_get_in_set [OF ev] assms(1) by (auto simp: joiner_inv_def)
      have same: "joiner_inv (j\<lparr>jo_open := bt_insert serial ev' (jo_open j)\<rparr>)" "length (bt_insert serial ev' (jo_open j)) = length (jo_open j)"
        if "open_ok ev'" for ev'
        using joiner_inv_insert [OF assms(1) that] insert_length [OF inv] ev by simp_all
      have cwd: "open_ok (ev\<lparr>oe_start := (oe_start ev)\<lparr>ps_cwd := c\<rparr>\<rparr>)" for c using ok by (simp add: open_ok_def arg_total_def)
      have gone: "joiner_inv (j\<lparr>jo_open := bt_remove serial (jo_open j)\<rparr>)" "Suc (length (bt_remove serial (jo_open j))) = length (jo_open j)"
        using remove_length [OF inv ev] assms(1) bt.invar_delete [OF inv] by (auto simp: joiner_inv_def bt_remove_def)
      have "arg_total (finish_start ev) \<le> EVENT_ARG_BYTES" using ok by (auto simp: finish_start_def open_ok_def arg_total_def)
      then show ?thesis using assms Some q other ev same [OF cwd] same [OF execve_ok [OF ok]] gone
        by (auto simp: joiner_push_def opens_def split: if_splits)
    qed
  qed
qed

lemma expire_spec:
  assumes "joiner_inv j" "joiner_expire now j = (lost, j')"
  shows "joiner_inv j' \<and> length (jo_open j') + jo_dropped j' + lost = length (jo_open j) + jo_dropped j"
proof -
  define kept where "kept = filter (\<lambda>(_, ev). now - oe_since ev \<le> EVENT_WAIT) (jo_open j)"
  have k: "length kept \<le> length (jo_open j)" "set kept \<subseteq> set (jo_open j)" "bt_invar kept"
    using assms(1) by (auto simp: kept_def joiner_inv_def bt_filter_invar)
  have "lost = jo_dropped j + (length (jo_open j) - length kept)" "j' = \<lparr>jo_open = kept, jo_dropped = 0\<rparr>"
    using assms(2) by (simp_all add: joiner_expire_def Let_def kept_def)
  then show ?thesis using assms(1) k by (auto simp: joiner_inv_def)
qed

text \<open>What the reader does with the joiner: messages and expiries in the order they come. The starts
  delivered, and how many were reported lost.\<close>

datatype joiner_input = Message string nat | Expire nat

fun joiner_run :: "bool \<Rightarrow> joiner_input list \<Rightarrow> joiner \<Rightarrow> process_start list \<times> nat \<times> joiner" where
  "joiner_run big [] j = ([], 0, j)"
| "joiner_run big (Message message now # inputs) j =
     (case joiner_push big message now j of (r, j1) \<Rightarrow>
      case joiner_run big inputs j1 of (starts, lost, j2) \<Rightarrow>
        ((case r of None \<Rightarrow> starts | Some start \<Rightarrow> start # starts), lost, j2))"
| "joiner_run big (Expire now # inputs) j =
     (case joiner_expire now j of (n, j1) \<Rightarrow>
      case joiner_run big inputs j1 of (starts, lost, j2) \<Rightarrow> (starts, n + lost, j2))"

definition opened :: "bool \<Rightarrow> joiner_input list \<Rightarrow> nat" where
  "opened big inputs = length (filter (\<lambda>i. case i of Message m _ \<Rightarrow> opens big m | Expire _ \<Rightarrow> False) inputs)"

lemma joiner_run_spec:
  "joiner_run big inputs j = (starts, lost, j') \<Longrightarrow> joiner_inv j \<Longrightarrow>
   joiner_inv j' \<and> (\<forall>start \<in> set starts. arg_total start \<le> EVENT_ARG_BYTES) \<and>
   length starts + lost + length (jo_open j') + jo_dropped j' = opened big inputs + length (jo_open j) + jo_dropped j"
proof (induction big inputs j arbitrary: starts lost j' rule: joiner_run.induct)
  case (2 big message now inputs j)
  obtain r j1 where push: "joiner_push big message now j = (r, j1)" by fastforce
  obtain starts1 lost1 j2 where run: "joiner_run big inputs j1 = (starts1, lost1, j2)" by (metis prod_cases3)
  have inv: "joiner_inv j1" using push_spec [OF "2.prems"(2) push] by blast
  have eqs: "starts = (case r of None \<Rightarrow> starts1 | Some start \<Rightarrow> start # starts1)" "lost = lost1" "j' = j2"
    using "2.prems"(1) push run by auto
  show ?case using "2.IH" [OF push [symmetric] run inv] push_spec [OF "2.prems"(2) push] eqs
    by (cases r) (auto simp: opened_def)
next
  case (3 big now inputs j)
  obtain n j1 where ex: "joiner_expire now j = (n, j1)" by fastforce
  obtain starts1 lost1 j2 where run: "joiner_run big inputs j1 = (starts1, lost1, j2)" by (metis prod_cases3)
  note spec = expire_spec [OF "3.prems"(2) ex]
  show ?case using "3.IH" [OF ex [symmetric] run] spec "3.prems"(1) ex run by (auto simp: opened_def)
qed (simp add: opened_def)

section \<open>What the kernel writes\<close>















section \<open>Reading fields back\<close>


















section \<open>Properties\<close>

text \<open>C31: decoding an argument into the room left is decoding it whole and cutting. The table lookup
  with its one check at the end accepts exactly the quoted texts and the hex strings, reports the
  full length, appends the first bytes that fit and leaves the buffer alone on anything else.\<close>

theorem append_value_cuts:
  "append_value value room out =
     (case string_value value of
        None \<Rightarrow> (None, out)
      | Some bytes \<Rightarrow> (Some (length bytes), out @ take room bytes))"
  by (rule append_value_spec)

text \<open>C32: no process start is lost in silence. Whatever messages and expiries come, in whatever order,
  the starts delivered, those reported or still to be reported lost and those waiting add up to
  the successful exec records seen. At most 64 events wait at once and no start carries more than
  64 KiB of arguments, so the room left never wraps.\<close>

theorem starts_accounted:
  "case joiner_run big inputs joiner_default of (starts, lost, j) \<Rightarrow>
     length starts + (lost + jo_dropped j) + length (jo_open j) = opened big inputs \<and>
     length (jo_open j) \<le> 64 \<and> list_all (\<lambda>start. sum_list (map length (ps_args start)) \<le> 65536) starts"
proof -
  obtain starts lost j where run: "joiner_run big inputs joiner_default = (starts, lost, j)" by (metis prod_cases3)
  have "joiner_inv joiner_default" by (simp add: joiner_inv_def joiner_default_def bt.invar_empty)
  from joiner_run_spec [OF run this] run show ?thesis
    by (auto simp: joiner_default_def joiner_inv_def OPEN_EVENTS_def EVENT_ARG_BYTES_def arg_total_def list_all_iff)
qed



end
