(* ===== verification/Hardening_Out.thy ===== *)
theory Hardening_Out
  imports Str_Ops
begin

text \<open>
  What the hardening collectors share: \<open>openvibes-collectors/src/hardening.rs\<close>. The host's files are
  a parameter: what opening a path gives, the names in a directory, whether a path is a directory
  and the metadata of a path. Paths are absolute, as on the host. A run collects facts and errors;
  the \<open>expect\<close> on a key or a source sets \<open>hd_panicked\<close>, which the lemmas show never happens.
\<close>

section \<open>Definitions\<close>

definition HARDENING_SOURCE :: string where "HARDENING_SOURCE = ''hardening''"
definition MAX_FILE :: nat where "MAX_FILE = 1024 * 1024"
definition MAX_STRING :: nat where "MAX_STRING = 4096"
definition MAX_LIST :: nat where "MAX_LIST = 10000"

datatype io_kind = IoNotFound | IoPermissionDenied | IoInvalidData | IoOther

record host_fs =
  hf_open :: "string \<Rightarrow> (string, io_kind) result"
  hf_names :: "string \<Rightarrow> string list"
  hf_is_dir :: "string \<Rightarrow> bool"
  hf_meta :: "string \<Rightarrow> (nat \<times> nat \<times> nat) option"

record hardening =
  hd_facts :: "fact list"
  hd_errors :: "collector_error list"
  hd_panicked :: bool

definition hardening_default :: hardening where
  "hardening_default = \<lparr>hd_facts = [], hd_errors = [], hd_panicked = False\<rparr>"

subsection \<open>Reading\<close>

definition io_code :: "io_kind \<Rightarrow> collector_error_code" where
  "io_code k =
     (case k of
        IoNotFound \<Rightarrow> NotFound
      | IoPermissionDenied \<Rightarrow> PermissionDenied
      | IoInvalidData \<Rightarrow> InvalidData
      | IoOther \<Rightarrow> Internal)"

definition read_bounded :: "host_fs \<Rightarrow> string \<Rightarrow> (string, collector_error_code) result" where
  "read_bounded fs path =
     (case hf_open fs path of
        Err k \<Rightarrow> Err (io_code k)
      | Ok bytes \<Rightarrow>
          let text = take (MAX_FILE + 1) bytes in
          if \<not> valid_utf8 text then Err (io_code IoInvalidData)
          else if length text > MAX_FILE then Err InvalidData
          else Ok text)"

definition out_path :: "string \<Rightarrow> string" where
  "out_path path = CHR ''/'' # dropWhile (\<lambda>c. c = CHR ''/'') path"

definition out_read :: "host_fs \<Rightarrow> string \<Rightarrow> (string, collector_error_code) result" where
  "out_read fs path = read_bounded fs (out_path path)"

definition path_join :: "string \<Rightarrow> string \<Rightarrow> string" where
  "path_join dir name = (if ends_with dir ''/'' then dir @ name else dir @ ''/'' @ name)"

definition dir_files :: "host_fs \<Rightarrow> string \<Rightarrow> string \<Rightarrow> string list" where
  "dir_files fs dir sfx =
     sort (map (path_join dir) (filter (\<lambda>n. valid_utf8 n \<and> ends_with n sfx) (hf_names fs dir)))"

subsection \<open>Facts and errors\<close>

definition push_fact :: "string \<Rightarrow> fact_value \<Rightarrow> hardening \<Rightarrow> hardening" where
  "push_fact key v out =
     (case (identifier_new key, identifier_new HARDENING_SOURCE) of
        (Ok k, Ok src) \<Rightarrow> out\<lparr>hd_facts := hd_facts out @ [\<lparr>fact_key = k, fact_source = src, fact_val = v\<rparr>]\<rparr>
      | _ \<Rightarrow> out\<lparr>hd_panicked := True\<rparr>)"

definition out_string :: "string \<Rightarrow> string \<Rightarrow> hardening \<Rightarrow> hardening" where
  "out_string key v out =
     push_fact key (FString (filter (\<lambda>c. c \<noteq> NUL) (take (floor_boundary v (min (length v) MAX_STRING)) v))) out"

definition out_int :: "string \<Rightarrow> int \<Rightarrow> hardening \<Rightarrow> hardening" where
  "out_int key v out = push_fact key (FInteger v) out"

definition out_bool :: "string \<Rightarrow> bool \<Rightarrow> hardening \<Rightarrow> hardening" where
  "out_bool key v out = push_fact key (FBoolean v) out"

text \<open>\<open>list_len\<close>: the items kept, sorted and unique.\<close>

definition list_items_of :: "string list \<Rightarrow> string list" where
  "list_items_of vs =
     remdups_adj (sort (filter (\<lambda>v. v \<noteq> [] \<and> length v \<le> MAX_STRING \<and> NUL \<notin> set v) vs))"

definition list_len :: "string \<Rightarrow> string list \<Rightarrow> hardening \<Rightarrow> nat \<times> hardening" where
  "list_len key vs out =
     (let items = list_items_of vs in (length items, push_fact key (FStringList (take MAX_LIST items)) out))"

definition out_list :: "string \<Rightarrow> string list \<Rightarrow> hardening \<Rightarrow> hardening" where
  "out_list key vs out = snd (list_len key vs out)"

definition counted_list :: "string \<Rightarrow> string list \<Rightarrow> hardening \<Rightarrow> hardening" where
  "counted_list key vs out =
     (case list_len key vs out of (count, out') \<Rightarrow> out_int (key @ ''.count'') (min (int count) i64_max) out')"

definition out_error :: "string \<Rightarrow> collector_error_code \<Rightarrow> string \<Rightarrow> hardening \<Rightarrow> hardening" where
  "out_error src code message out =
     (case identifier_new (HARDENING_SOURCE @ ''.'' @ src) of
        Ok i \<Rightarrow> out\<lparr>hd_errors := hd_errors out @
          [\<lparr>ce_collector = i, ce_code = code, ce_message = message, ce_retryable = (code \<noteq> Unsupported)\<rparr>]\<rparr>
      | Err _ \<Rightarrow> out\<lparr>hd_panicked := True\<rparr>)"

text \<open>A plain non-negative decimal, else -1.\<close>

definition plain_int :: "string \<Rightarrow> int" where
  "plain_int v =
     (let v = trim v in
      if v \<noteq> [] \<and> length v \<le> 18 \<and> list_all is_ascii_digit v
      then (case parse_i64 v of Some i \<Rightarrow> i | None \<Rightarrow> -1) else -1)"

text \<open>Several facts in a row.\<close>

definition out_each :: "('a \<Rightarrow> hardening \<Rightarrow> hardening) \<Rightarrow> 'a list \<Rightarrow> hardening \<Rightarrow> hardening" where
  "out_each f xs out = foldl (\<lambda>out x. f x out) out xs"

definition eq_ignore_ascii_case :: "string \<Rightarrow> string \<Rightarrow> bool" where
  "eq_ignore_ascii_case a b \<longleftrightarrow> to_ascii_lowercase a = to_ascii_lowercase b"

definition last_item :: "'a list \<Rightarrow> 'a option" where
  "last_item xs = (if xs = [] then None else Some (List.last xs))"

definition filter_map :: "('a \<Rightarrow> 'b option) \<Rightarrow> 'a list \<Rightarrow> 'b list" where
  "filter_map f xs = concat (map (\<lambda>x. case f x of None \<Rightarrow> [] | Some y \<Rightarrow> [y]) xs)"

definition or_empty :: "string option \<Rightarrow> string" where
  "or_empty v = (case v of Some s \<Rightarrow> s | None \<Rightarrow> [])"

definition ok_list :: "('a, 'e) result \<Rightarrow> 'a list" where
  "ok_list r = (case r of Ok x \<Rightarrow> [x] | Err _ \<Rightarrow> [])"

section \<open>What a collector may do\<close>

text \<open>A collector with a catalog of keys: it only adds facts, in the order of its catalog and each
  at most once, with values the fact contract accepts, and never panics. Its errors name a source.\<close>

definition emits :: "string list \<Rightarrow> (hardening \<Rightarrow> hardening) \<Rightarrow> bool" where
  "emits catalog f \<longleftrightarrow>
     (\<forall>out. \<exists>facts errors. hd_facts (f out) = hd_facts out @ facts \<and> hd_errors (f out) = hd_errors out @ errors \<and>
        hd_panicked (f out) = hd_panicked out \<and> subseq (map (\<lambda>x. as_str (fact_key x)) facts) catalog \<and>
        list_all (\<lambda>x. validate_fact x V1 = Ok () \<and> as_str (fact_source x) = HARDENING_SOURCE) facts \<and>
        list_all (\<lambda>e. starts_with (as_str (ce_collector e)) (HARDENING_SOURCE @ ''.'')) errors)"

definition catalog_ok :: "string \<Rightarrow> bool" where
  "catalog_ok key \<longleftrightarrow> validate_identifier ''identifier'' key V1 = Ok ()"

lemma emits_id [simp, intro]: "emits [] (\<lambda>out. out)"
  by (auto simp: emits_def)

lemma emits_comp:
  assumes "emits a f" "emits b g"
  shows "emits (a @ b) (\<lambda>out. g (f out))"
  unfolding emits_def
proof
  fix out
  obtain fs es where f: "hd_facts (f out) = hd_facts out @ fs" "hd_errors (f out) = hd_errors out @ es"
    "hd_panicked (f out) = hd_panicked out" "subseq (map (\<lambda>x. as_str (fact_key x)) fs) a"
    "list_all (\<lambda>x. validate_fact x V1 = Ok () \<and> as_str (fact_source x) = HARDENING_SOURCE) fs"
    "list_all (\<lambda>e. starts_with (as_str (ce_collector e)) (HARDENING_SOURCE @ ''.'')) es"
    using assms(1) unfolding emits_def by blast
  obtain fs' es' where g: "hd_facts (g (f out)) = hd_facts (f out) @ fs'" "hd_errors (g (f out)) = hd_errors (f out) @ es'"
    "hd_panicked (g (f out)) = hd_panicked (f out)" "subseq (map (\<lambda>x. as_str (fact_key x)) fs') b"
    "list_all (\<lambda>x. validate_fact x V1 = Ok () \<and> as_str (fact_source x) = HARDENING_SOURCE) fs'"
    "list_all (\<lambda>e. starts_with (as_str (ce_collector e)) (HARDENING_SOURCE @ ''.'')) es'"
    using assms(2) unfolding emits_def by blast
  show "\<exists>facts errors. hd_facts (g (f out)) = hd_facts out @ facts \<and> hd_errors (g (f out)) = hd_errors out @ errors \<and>
        hd_panicked (g (f out)) = hd_panicked out \<and> subseq (map (\<lambda>x. as_str (fact_key x)) facts) (a @ b) \<and>
        list_all (\<lambda>x. validate_fact x V1 = Ok () \<and> as_str (fact_source x) = HARDENING_SOURCE) facts \<and>
        list_all (\<lambda>e. starts_with (as_str (ce_collector e)) (HARDENING_SOURCE @ ''.'')) errors"
    using f g by (intro exI [of _ "fs @ fs'"] exI [of _ "es @ es'"]) (simp add: list_emb_append_mono)
qed

lemma emits_weaken: "emits a f \<Longrightarrow> subseq a b \<Longrightarrow> emits b f"
  unfolding emits_def by (meson subseq_order.order_trans)

lemma emits_case_result:
  "(\<And>x. r = Ok x \<Longrightarrow> emits a (f x)) \<Longrightarrow> (\<And>e. r = Err e \<Longrightarrow> emits a (g e)) \<Longrightarrow>
   emits a (\<lambda>out. case r of Ok x \<Rightarrow> f x out | Err e \<Rightarrow> g e out)"
  by (cases r) simp_all

lemma emits_if: "(P \<Longrightarrow> emits a f) \<Longrightarrow> (\<not> P \<Longrightarrow> emits a g) \<Longrightarrow> emits a (\<lambda>out. if P then f out else g out)"
  by (cases P) simp_all

lemma emits_nothing: "emits [] f \<Longrightarrow> emits a f"
  by (erule emits_weaken) simp

lemma source_ok: "identifier_new HARDENING_SOURCE = Ok (Identifier HARDENING_SOURCE)"
  by (simp add: HARDENING_SOURCE_def identifier_new_def validate_identifier_def evals)

lemma emits_push:
  assumes "catalog_ok key"
    and "\<And>k src. validate_fact \<lparr>fact_key = Identifier key, fact_source = src, fact_val = v\<rparr> V1 = Ok ()"
  shows "emits [key] (push_fact key v)"
proof -
  have "identifier_new key = Ok (Identifier key)" using assms(1) by (simp add: catalog_ok_def identifier_new_def)
  then have "push_fact key v out = out\<lparr>hd_facts := hd_facts out @
      [\<lparr>fact_key = Identifier key, fact_source = Identifier HARDENING_SOURCE, fact_val = v\<rparr>]\<rparr>" for out
    by (simp add: push_fact_def source_ok)
  then show ?thesis using assms(2) by (auto simp: emits_def)
qed

lemma emits_int: "catalog_ok key \<Longrightarrow> emits [key] (out_int key v)"
  unfolding out_int_def by (rule emits_push) (simp_all add: validate_fact_def)

lemma emits_bool: "catalog_ok key \<Longrightarrow> emits [key] (out_bool key v)"
  unfolding out_bool_def by (rule emits_push) (simp_all add: validate_fact_def)

lemma emits_string: "catalog_ok key \<Longrightarrow> emits [key] (out_string key v)"
proof -
  assume key: "catalog_ok key"
  let ?t = "filter (\<lambda>c. c \<noteq> NUL) (take (floor_boundary v (min (length v) MAX_STRING)) v)"
  have "length ?t \<le> length (take (floor_boundary v (min (length v) MAX_STRING)) v)" by (rule length_filter_le)
  also have "\<dots> \<le> MAX_STRING" using floor_boundary_le [of v "min (length v) MAX_STRING"] by simp
  finally show ?thesis using key unfolding out_string_def
    by (intro emits_push) (simp_all add: validate_fact_def MAX_STRING_def)
qed

lemma list_items_sorted: "sorted_wrt (<) (list_items_of vs)"
proof -
  have "sorted xs \<Longrightarrow> sorted_wrt (<) (remdups_adj xs)" for xs :: "string list"
    by (induction xs rule: remdups_adj.induct) (auto simp: order_le_less)
  then show ?thesis by (simp add: list_items_of_def)
qed

lemma set_list_items: "v \<in> set (list_items_of vs) \<longleftrightarrow> v \<in> set vs \<and> v \<noteq> [] \<and> length v \<le> MAX_STRING \<and> NUL \<notin> set v"
  by (simp add: list_items_of_def)

lemma emits_list_fact: "catalog_ok key \<Longrightarrow> emits [key] (push_fact key (FStringList (take MAX_LIST (list_items_of vs))))"
proof -
  assume key: "catalog_ok key"
  let ?items = "take MAX_LIST (list_items_of vs)"
  have "\<not> unsorted_pair ?items" using list_items_sorted by (simp add: unsorted_pair_iff sorted_wrt_take)
  moreover have "validate_strings f ?items V1 = Ok ()" for f
    by (auto simp: validate_strings_Ok_iff validate_string_Ok_iff set_list_items MAX_STRING_def dest!: in_set_takeD)
  moreover have "MAX_LIST \<le> fact_list_limit V1 key" by (simp add: fact_list_limit_def MAX_LIST_def)
  ultimately show ?thesis using key by (intro emits_push) (simp_all add: validate_fact_def)
qed

lemma emits_list: "catalog_ok key \<Longrightarrow> emits [key] (out_list key vs)"
  using emits_list_fact [of key vs] by (simp add: out_list_def [abs_def] list_len_def Let_def)

lemma emits_counted_list:
  assumes "catalog_ok key" "catalog_ok (key @ ''.count'')"
  shows "emits [key, key @ ''.count''] (counted_list key vs)"
  using emits_comp [OF emits_list_fact [OF assms(1), of vs] emits_int [OF assms(2)]]
  by (simp add: counted_list_def [abs_def] list_len_def Let_def)

lemma emits_error:
  assumes "identifier_new (HARDENING_SOURCE @ ''.'' @ src) = Ok i"
  shows "emits [] (out_error src code message)"
proof -
  have "as_str i = HARDENING_SOURCE @ ''.'' @ src" using assms by (auto simp: identifier_new_def rbind_Ok_iff)
  then show ?thesis using assms by (auto simp: emits_def out_error_def starts_with_def)
qed

lemma emits_each:
  "(\<And>x. x \<in> set xs \<Longrightarrow> emits (c x) (f x)) \<Longrightarrow> emits (concat (map c xs)) (out_each f xs)"
proof (induction xs)
  case Nil
  then show ?case by (simp add: out_each_def)
next
  case (Cons x xs)
  have "emits (c x @ concat (map c xs)) (\<lambda>out. out_each f xs (f x out))"
    using Cons by (intro emits_comp) auto
  then show ?case by (simp add: out_each_def)
qed

lemma plain_int_range: "-1 \<le> plain_int v"
  by (auto simp: plain_int_def Let_def parse_i64_def parse_unsigned_def list_all_iff is_ascii_digit_def
      split: option.splits list.splits if_splits)

end
