(* ===== verification/Sshd_Config.thy ===== *)
theory Sshd_Config
  imports Hardening_Out
begin

text \<open>
  The settings of \<open>sshd_config\<close> as sshd reads them:
  \<open>openvibes-collectors/src/hardening/sshd.rs\<close>. \<open>Include\<close> is followed up to eight levels deep, so the
  reading is recursive in the levels left. The lemmas show that the greedy matcher of file names
  agrees with the meaning of a pattern, and that what is collected is the first global value of
  each keyword in reading order.
\<close>

section \<open>Definitions\<close>

definition CONFIG :: string where "CONFIG = ''/etc/ssh/sshd_config''"
definition MAX_DEPTH :: nat where "MAX_DEPTH = 8"

definition SSHD_STRINGS :: "string list" where
  "SSHD_STRINGS =
     [''permitrootlogin'', ''passwordauthentication'', ''permitemptypasswords'', ''pubkeyauthentication'',
      ''kbdinteractiveauthentication'', ''hostbasedauthentication'', ''ignorerhosts'', ''usepam'',
      ''x11forwarding'', ''allowtcpforwarding'', ''allowagentforwarding'', ''permituserenvironment'',
      ''permittunnel'', ''gssapiauthentication'', ''loglevel'', ''banner'', ''ciphers'', ''macs'',
      ''kexalgorithms'', ''maxstartups'', ''allowusers'', ''allowgroups'', ''denyusers'', ''denygroups'']"

definition SSHD_INTS :: "string list" where
  "SSHD_INTS = [''maxauthtries'', ''maxsessions'', ''logingracetime'', ''clientaliveinterval'', ''clientalivecountmax'']"

definition SINGLE :: "string list" where
  "SINGLE =
     [''permitrootlogin'', ''passwordauthentication'', ''permitemptypasswords'', ''pubkeyauthentication'',
      ''kbdinteractiveauthentication'', ''hostbasedauthentication'', ''ignorerhosts'', ''usepam'',
      ''x11forwarding'', ''allowtcpforwarding'', ''allowagentforwarding'', ''permittunnel'',
      ''gssapiauthentication'', ''loglevel'', ''banner'', ''ciphers'', ''macs'', ''kexalgorithms'',
      ''maxauthtries'', ''maxsessions'', ''logingracetime'']"

record sshd_config =
  sc_values :: "string \<rightharpoonup> string"
  sc_match_blocks :: int
  sc_in_match :: bool

definition sshd_config_default :: sshd_config where
  "sshd_config_default = \<lparr>sc_values = Map.empty, sc_match_blocks = 0, sc_in_match = False\<rparr>"

subsection \<open>Arguments\<close>

text \<open>On the characters of the line: white space separates, double quotes group, and a token that
  starts with \<open>#\<close> begins a comment.\<close>

function arguments_of :: "string list \<Rightarrow> string list" where
  "arguments_of cs =
     (case dropWhile is_whitespace cs of
        [] \<Rightarrow> []
      | c # rest \<Rightarrow>
          if c = ''#'' then []
          else if c = [CHR 0x22] then
            concat (takeWhile (\<lambda>x. x \<noteq> [CHR 0x22]) rest) # arguments_of (drop 1 (dropWhile (\<lambda>x. x \<noteq> [CHR 0x22]) rest))
          else
            concat (takeWhile (\<lambda>x. \<not> is_whitespace x) (c # rest)) #
            arguments_of (dropWhile (\<lambda>x. \<not> is_whitespace x) (c # rest)))"
  by pat_completeness auto
termination
proof (relation "measure length")
  fix cs c rest assume d: "dropWhile is_whitespace cs = c # rest" "\<not> c = ''#''"
  have len: "length (c # rest) \<le> length cs" using length_dropWhile_le [of is_whitespace cs] d by simp
  show "(drop 1 (dropWhile (\<lambda>x. x \<noteq> [CHR 0x22]) rest), cs) \<in> measure length"
    using len length_dropWhile_le [of "\<lambda>x. x \<noteq> [CHR 0x22]" rest] by simp
  have "\<not> is_whitespace c" using d dropWhile_eq_Cons_conv [of is_whitespace cs] by auto
  then show "(dropWhile (\<lambda>x. \<not> is_whitespace x) (c # rest), cs) \<in> measure length"
    using len length_dropWhile_le [of "\<lambda>x. \<not> is_whitespace x" rest] by simp
qed simp

declare arguments_of.simps [simp del]

definition arguments :: "string \<Rightarrow> string list" where
  "arguments s = arguments_of (chars s)"

subsection \<open>File names\<close>

text \<open>The loop with one backtrack point; not returning would be \<open>None\<close>.\<close>

partial_function (option) glob_loop ::
  "string \<Rightarrow> string \<Rightarrow> nat \<Rightarrow> nat \<Rightarrow> (nat \<times> nat) option \<Rightarrow> bool option" where
  "glob_loop p n pi ni star =
     (if ni < length n then
        if pi < length p \<and> (p ! pi = CHR ''?'' \<or> p ! pi = n ! ni) then glob_loop p n (pi + 1) (ni + 1) star
        else if pi < length p \<and> p ! pi = CHR ''*'' then glob_loop p n (pi + 1) ni (Some (pi, ni))
        else case star of
               Some (sp, sn) \<Rightarrow> glob_loop p n (sp + 1) (sn + 1) (Some (sp, sn + 1))
             | None \<Rightarrow> Some False
      else Some (list_all (\<lambda>c. c = CHR ''*'') (drop pi p)))"

definition glob :: "string \<Rightarrow> string \<Rightarrow> bool option" where
  "glob pat name = glob_loop pat name 0 0 None"

text \<open>\<open>parent\<close> and \<open>file_name\<close> of an absolute path.\<close>

definition path_split :: "string \<Rightarrow> (string \<times> string) option" where
  "path_split path =
     (let cs = filter (\<lambda>c. c \<noteq> [] \<and> c \<noteq> ''.'') (split_on (CHR ''/'') path) in
      if cs = [] \<or> List.last cs = ''..'' then None
      else Some (CHR ''/'' # join_with (CHR ''/'') (butlast cs), List.last cs))"

definition included :: "host_fs \<Rightarrow> string \<Rightarrow> string list" where
  "included fs pat =
     (let path = out_path (if starts_with pat ''/'' then pat else ''/etc/ssh/'' @ pat) in
      case path_split path of
        None \<Rightarrow> []
      | Some (dir, name) \<Rightarrow>
          if CHR ''*'' \<notin> set name \<and> CHR ''?'' \<notin> set name then [path]
          else sort (map (path_join dir) (filter (\<lambda>n. valid_utf8 n \<and> glob name n = Some True) (hf_names fs dir))))"

subsection \<open>Lines\<close>

datatype sshd_line = SkipLine | MatchLine | IncludeLine "string list" | SettingLine string string

definition separator :: "string \<Rightarrow> bool" where
  "separator c \<longleftrightarrow> is_whitespace c \<or> c = ''=''"

definition sshd_line_of :: "string \<Rightarrow> sshd_line" where
  "sshd_line_of raw =
     (let cs = chars (trim raw);
        keyword = to_ascii_lowercase (concat (takeWhile (\<lambda>c. \<not> separator c) cs))
      in if keyword = [] \<or> starts_with keyword ''#'' then SkipLine
      else
        let args = arguments_of (dropWhile separator (dropWhile (\<lambda>c. \<not> separator c) cs)) in
        if keyword = ''match'' then MatchLine
        else if keyword = ''include'' then IncludeLine args
        else SettingLine keyword (if keyword \<in> set SINGLE then (case args of a # _ \<Rightarrow> a | [] \<Rightarrow> []) else join_spaces args))"

definition TOO_DEEP :: string where "TOO_DEEP = ''sshd_config includes are nested too deep''"

definition include_error :: "string \<Rightarrow> string" where
  "include_error file = ''cannot read included '' @ file"

text \<open>The files of one \<open>Include\<close>, each read by \<open>inner\<close>; a \<open>Match\<close> block a file opens ends with it.\<close>

fun sshd_includes ::
  "host_fs \<Rightarrow> (string \<Rightarrow> sshd_config \<Rightarrow> (sshd_config, string) result) \<Rightarrow> string list \<Rightarrow> sshd_config \<Rightarrow>
   (sshd_config, string) result" where
  "sshd_includes fs inner [] config = Ok config"
| "sshd_includes fs inner (file # files) config =
     (case read_bounded fs file of
        Err _ \<Rightarrow> Err (include_error file)
      | Ok content \<Rightarrow>
          rbind (inner content config) (\<lambda>config'.
            sshd_includes fs inner files (config'\<lparr>sc_in_match := sc_in_match config\<rparr>)))"

definition set_value :: "string \<Rightarrow> string \<Rightarrow> sshd_config \<Rightarrow> sshd_config" where
  "set_value k v config =
     (case sc_values config k of None \<Rightarrow> config\<lparr>sc_values := (sc_values config)(k \<mapsto> v)\<rparr> | Some _ \<Rightarrow> config)"

text \<open>\<open>inner\<close> is \<open>None\<close> at the deepest level.\<close>

fun sshd_lines ::
  "host_fs \<Rightarrow> (string \<Rightarrow> sshd_config \<Rightarrow> (sshd_config, string) result) option \<Rightarrow> string list \<Rightarrow> sshd_config \<Rightarrow>
   (sshd_config, string) result" where
  "sshd_lines fs inner [] config = Ok config"
| "sshd_lines fs inner (l # ls) config =
     (case sshd_line_of l of
        SkipLine \<Rightarrow> sshd_lines fs inner ls config
      | MatchLine \<Rightarrow> sshd_lines fs inner ls (config\<lparr>sc_match_blocks := sc_match_blocks config + 1, sc_in_match := True\<rparr>)
      | IncludeLine pats \<Rightarrow>
          (case inner of
             None \<Rightarrow> Err TOO_DEEP
           | Some f \<Rightarrow>
               rbind (sshd_includes fs f (concat (map (included fs) pats)) config) (sshd_lines fs inner ls))
      | SettingLine k v \<Rightarrow> sshd_lines fs inner ls (if sc_in_match config then config else set_value k v config))"

text \<open>\<open>parse\<close> with \<open>r\<close> levels of inclusion left.\<close>

primrec sshd_parse :: "host_fs \<Rightarrow> nat \<Rightarrow> string \<Rightarrow> sshd_config \<Rightarrow> (sshd_config, string) result" where
  "sshd_parse fs 0 content config = sshd_lines fs None (lines content) config"
| "sshd_parse fs (Suc r) content config = sshd_lines fs (Some (sshd_parse fs r)) (lines content) config"

subsection \<open>Facts\<close>

definition sshd_facts :: "sshd_config \<Rightarrow> hardening \<Rightarrow> hardening" where
  "sshd_facts config out =
     out_int ''sshd.match_blocks'' (sc_match_blocks config)
       (out_each (\<lambda>key. out_int (''sshd.'' @ key) (case sc_values config key of Some v \<Rightarrow> plain_int v | None \<Rightarrow> -1)) SSHD_INTS
         (out_each (\<lambda>key. out_string (''sshd.'' @ key) (or_empty (sc_values config key))) SSHD_STRINGS out))"

definition sshd_collect :: "host_fs \<Rightarrow> hardening \<Rightarrow> hardening" where
  "sshd_collect fs out =
     (case out_read fs CONFIG of
        Err code \<Rightarrow> out_error ''sshd'' code ''cannot read /etc/ssh/sshd_config'' out
      | Ok content \<Rightarrow>
          (case sshd_parse fs MAX_DEPTH content sshd_config_default of
             Err message \<Rightarrow> out_error ''sshd'' PermissionDenied message out
           | Ok config \<Rightarrow> sshd_facts config out))"

section \<open>Matching file names\<close>

text \<open>What a pattern means.\<close>

fun pattern_matches :: "string \<Rightarrow> string \<Rightarrow> bool" where
  "pattern_matches [] n \<longleftrightarrow> n = []"
| "pattern_matches (x # p) n \<longleftrightarrow>
     (if x = CHR ''*'' then list_ex (\<lambda>k. pattern_matches p (drop k n)) [0..<Suc (length n)]
      else case n of [] \<Rightarrow> False | c # n' \<Rightarrow> (x = CHR ''?'' \<or> x = c) \<and> pattern_matches p n')"

definition matches_byte :: "char \<Rightarrow> char \<Rightarrow> bool" where
  "matches_byte x c \<longleftrightarrow> x \<noteq> CHR ''*'' \<and> (x = CHR ''?'' \<or> x = c)"

lemma matches_star: "pattern_matches (CHR ''*'' # p) n \<longleftrightarrow> (\<exists>k \<le> length n. pattern_matches p (drop k n))"
  by (auto simp: list_ex_iff less_Suc_eq_le simp del: upt_Suc)

lemma matches_star_iff: "pattern_matches (CHR ''*'' # p) n \<longleftrightarrow> (\<exists>k. pattern_matches p (drop k n))"
  by (metis drop_all matches_star nat_le_linear order_refl)

lemma matches_nil: "pattern_matches p [] \<longleftrightarrow> list_all (\<lambda>c. c = CHR ''*'') p"
  by (induction p) auto

declare pattern_matches.simps(2) [simp del]

lemma matches_literal: "matches_byte x c \<Longrightarrow> pattern_matches (x # p) (c # n) \<longleftrightarrow> pattern_matches p n"
  by (simp add: matches_byte_def pattern_matches.simps(2))

lemma matches_seg: "list_all2 matches_byte seg xs \<Longrightarrow> pattern_matches (seg @ q) (xs @ r) \<longleftrightarrow> pattern_matches q r"
  by (induction seg xs rule: list_all2_induct) (simp_all add: matches_literal)

text \<open>A segment without stars takes as many bytes as it is long.\<close>

lemma matches_seg_split:
  "CHR ''*'' \<notin> set seg \<Longrightarrow> pattern_matches (seg @ q) m \<Longrightarrow> length seg \<le> length m \<and> pattern_matches q (drop (length seg) m)"
  by (induction seg arbitrary: m) (auto simp: pattern_matches.simps(2) split: if_splits list.splits)

lemma matches_byte_no_star: "list_all2 matches_byte seg xs \<Longrightarrow> CHR ''*'' \<notin> set seg"
  by (induction seg xs rule: list_all2_induct) (auto simp: matches_byte_def)

text \<open>The state of the loop: what is matched since the last star, and that only that star's extent is open.\<close>

definition glob_inv :: "string \<Rightarrow> string \<Rightarrow> nat \<Rightarrow> nat \<Rightarrow> (nat \<times> nat) option \<Rightarrow> bool" where
  "glob_inv p n pi ni star \<longleftrightarrow>
     (case star of
        None \<Rightarrow> \<exists>seg q xs r. p = seg @ q \<and> n = xs @ r \<and> list_all2 matches_byte seg xs \<and> pi = length seg \<and> ni = length xs
      | Some (sp, sn) \<Rightarrow>
          \<exists>pre seg q nl xs r. p = pre @ CHR ''*'' # seg @ q \<and> n = nl @ xs @ r \<and> list_all2 matches_byte seg xs \<and>
            sp = length pre \<and> pi = sp + 1 + length seg \<and> sn = length nl \<and> ni = sn + length xs \<and>
            (pattern_matches p n \<longleftrightarrow> (\<exists>k \<ge> sn. pattern_matches (seg @ q) (drop k n))))"

lemma glob_inv_NoneI:
  "p = seg @ q \<Longrightarrow> n = xs @ r \<Longrightarrow> list_all2 matches_byte seg xs \<Longrightarrow> pi = length seg \<Longrightarrow> ni = length xs \<Longrightarrow> glob_inv p n pi ni None"
  unfolding glob_inv_def option.case by blast

lemma glob_inv_NoneE:
  assumes "glob_inv p n pi ni None"
  obtains seg q xs r where "p = seg @ q" "n = xs @ r" "list_all2 matches_byte seg xs" "pi = length seg" "ni = length xs"
  using assms unfolding glob_inv_def option.case by blast

lemma glob_inv_SomeI:
  "p = pre @ CHR ''*'' # seg @ q \<Longrightarrow> n = nl @ xs @ r \<Longrightarrow> list_all2 matches_byte seg xs \<Longrightarrow> sp = length pre \<Longrightarrow>
   pi = sp + 1 + length seg \<Longrightarrow> sn = length nl \<Longrightarrow> ni = sn + length xs \<Longrightarrow>
   (pattern_matches p n \<longleftrightarrow> (\<exists>k \<ge> sn. pattern_matches (seg @ q) (drop k n))) \<Longrightarrow> glob_inv p n pi ni (Some (sp, sn))"
  unfolding glob_inv_def option.case prod.case by blast

lemma glob_inv_SomeE:
  assumes "glob_inv p n pi ni (Some (sp, sn))"
  obtains pre seg q nl xs r where "p = pre @ CHR ''*'' # seg @ q" "n = nl @ xs @ r" "list_all2 matches_byte seg xs"
    "sp = length pre" "pi = sp + 1 + length seg" "sn = length nl" "ni = sn + length xs"
    "pattern_matches p n \<longleftrightarrow> (\<exists>k \<ge> sn. pattern_matches (seg @ q) (drop k n))"
  using assms unfolding glob_inv_def option.case prod.case by blast

definition glob_rank :: "string \<Rightarrow> string \<Rightarrow> nat \<Rightarrow> nat \<Rightarrow> (nat \<times> nat) option \<Rightarrow> nat \<times> nat" where
  "glob_rank p n pi ni star =
     (length n + 1 - (case star of None \<Rightarrow> 0 | Some (_, sn) \<Rightarrow> sn), length p - pi)"

lemma glob_inv_char:
  assumes "glob_inv p n pi ni star" "ni < length n" "pi < length p" "matches_byte (p ! pi) (n ! ni)"
  shows "glob_inv p n (pi + 1) (ni + 1) star"
proof (cases star)
  case None
  with assms(1) obtain seg q xs r where d: "p = seg @ q" "n = xs @ r" "list_all2 matches_byte seg xs" "pi = length seg" "ni = length xs"
    by (auto elim: glob_inv_NoneE)
  obtain x q' c r' where qr: "q = x # q'" "r = c # r'" using assms(2,3) d by (cases q; cases r) auto
  then have "matches_byte x c" using assms(4) d by (simp add: nth_append)
  then have "list_all2 matches_byte (seg @ [x]) (xs @ [c])" using d(3) by (simp add: list_all2_appendI)
  then show ?thesis unfolding None using d qr by (intro glob_inv_NoneI [of p "seg @ [x]" q' n "xs @ [c]" r']) simp_all
next
  case (Some s)
  obtain sp sn where s: "s = (sp, sn)" by fastforce
  obtain pre seg q nl xs r where d: "p = pre @ CHR ''*'' # seg @ q" "n = nl @ xs @ r" "list_all2 matches_byte seg xs"
    "sp = length pre" "pi = sp + 1 + length seg" "sn = length nl" "ni = sn + length xs"
    "pattern_matches p n \<longleftrightarrow> (\<exists>k \<ge> sn. pattern_matches (seg @ q) (drop k n))"
    using assms(1) unfolding Some s by (rule glob_inv_SomeE)
  obtain x q' c r' where qr: "q = x # q'" "r = c # r'" using assms(2,3) d by (cases q; cases r) auto
  then have "matches_byte x c" using assms(4) d by (simp add: nth_append)
  then have "list_all2 matches_byte (seg @ [x]) (xs @ [c])" using d(3) by (simp add: list_all2_appendI)
  then show ?thesis unfolding Some s using d(4-7) qr d(8)
    by (intro glob_inv_SomeI [of p pre "seg @ [x]" q' n nl "xs @ [c]" r']) (simp_all add: d(1,2))
qed

text \<open>A star found: what was matched before it is matched as early as it can be, so nothing is lost
  by leaving it there.\<close>

lemma glob_inv_star:
  assumes "glob_inv p n pi ni star" "pi < length p" "p ! pi = CHR ''*''"
  shows "glob_inv p n (pi + 1) ni (Some (pi, ni))"
proof -
  have "\<exists>pre q nl r. p = pre @ CHR ''*'' # q \<and> n = nl @ r \<and> pi = length pre \<and> ni = length nl \<and>
    (pattern_matches p n \<longleftrightarrow> pattern_matches (CHR ''*'' # q) r)"
  proof (cases star)
    case None
    with assms(1) obtain seg q xs r where d: "p = seg @ q" "n = xs @ r" "list_all2 matches_byte seg xs" "pi = length seg" "ni = length xs"
      by (auto elim: glob_inv_NoneE)
    obtain q' where "q = CHR ''*'' # q'" using assms(2,3) d by (cases q) auto
    then show ?thesis using d matches_seg [OF d(3), of q r] by auto
  next
    case (Some s)
    obtain sp sn where s: "s = (sp, sn)" by fastforce
    obtain pre seg q nl xs r where d: "p = pre @ CHR ''*'' # seg @ q" "n = nl @ xs @ r" "list_all2 matches_byte seg xs"
      "sp = length pre" "pi = sp + 1 + length seg" "sn = length nl" "ni = sn + length xs"
      "pattern_matches p n \<longleftrightarrow> (\<exists>k \<ge> sn. pattern_matches (seg @ q) (drop k n))"
      using assms(1) unfolding Some s by (rule glob_inv_SomeE)
    obtain q' where q: "q = CHR ''*'' # q'" using assms(2,3) d by (cases q) (auto simp: nth_append)
    have len: "length seg = length xs" using d(3) by (rule list_all2_lengthD)
    have "pattern_matches p n \<longleftrightarrow> pattern_matches q r"
    proof
      assume "pattern_matches p n"
      then obtain k where k: "sn \<le> k" "pattern_matches (seg @ q) (drop k n)" using d(8) by blast
      have "pattern_matches q (drop (length seg) (drop k n))"
        using matches_seg_split [OF matches_byte_no_star [OF d(3)] k(2)] by blast
      then have "\<exists>j. pattern_matches q' (drop j (drop (length seg + k) n))" unfolding q matches_star_iff by simp
      then obtain j where "pattern_matches q' (drop (j + length seg + k) n)" by (auto simp: add.commute add.left_commute)
      moreover have "drop (j + length seg + k) n = drop (j + (k - sn)) r" using d k(1) len by simp
      ultimately show "pattern_matches q r" unfolding q matches_star_iff by auto
    next
      assume "pattern_matches q r"
      then have "pattern_matches (seg @ q) (drop sn n)" using matches_seg [OF d(3), of q r] d by simp
      then show "pattern_matches p n" using d(8) by blast
    qed
    then show ?thesis using d(1,2,4-7) q len
      by (intro exI [of _ "pre @ CHR ''*'' # seg"] exI [of _ q'] exI [of _ "nl @ xs"] exI [of _ r]) simp
  qed
  then obtain pre q nl r where d: "p = pre @ CHR ''*'' # q" "n = nl @ r" "pi = length pre" "ni = length nl"
    "pattern_matches p n \<longleftrightarrow> pattern_matches (CHR ''*'' # q) r" by blast
  have "(\<exists>k. pattern_matches q (drop k r)) \<longleftrightarrow> (\<exists>k \<ge> length nl. pattern_matches q (drop k n))"
  proof
    assume "\<exists>k. pattern_matches q (drop k r)"
    then obtain k where "pattern_matches q (drop k r)" by blast
    then show "\<exists>k \<ge> length nl. pattern_matches q (drop k n)" using d(2) by (intro exI [of _ "length nl + k"]) simp
  next
    assume "\<exists>k \<ge> length nl. pattern_matches q (drop k n)"
    then show "\<exists>k. pattern_matches q (drop k r)" using d(2) by auto
  qed
  then have "pattern_matches p n \<longleftrightarrow> (\<exists>k \<ge> ni. pattern_matches ([] @ q) (drop k n))"
    using d(4,5) by (simp only: matches_star_iff append_Nil)
  then show ?thesis using d(1-4) by (intro glob_inv_SomeI [of p pre "[]" q n nl "[]" r]) simp_all
qed

lemma glob_inv_back:
  assumes "glob_inv p n pi ni (Some (sp, sn))" "ni < length n" "\<not> (pi < length p \<and> matches_byte (p ! pi) (n ! ni))"
    and "\<not> (pi < length p \<and> p ! pi = CHR ''*'')"
  shows "glob_inv p n (sp + 1) (sn + 1) (Some (sp, sn + 1))"
proof -
  obtain pre seg q nl xs r where d: "p = pre @ CHR ''*'' # seg @ q" "n = nl @ xs @ r" "list_all2 matches_byte seg xs"
    "sp = length pre" "pi = sp + 1 + length seg" "sn = length nl" "ni = sn + length xs"
    "pattern_matches p n \<longleftrightarrow> (\<exists>k \<ge> sn. pattern_matches (seg @ q) (drop k n))"
    using assms(1) by (rule glob_inv_SomeE)
  obtain c r' where r: "r = c # r'" using assms(2) d by (cases r) auto
  have "\<not> pattern_matches q r"
  proof (cases q)
    case (Cons x q')
    then have "\<not> matches_byte x c" "x \<noteq> CHR ''*''" using assms(3,4) d r by (auto simp: nth_append)
    then show ?thesis using Cons r by (auto simp: pattern_matches.simps(2) matches_byte_def)
  qed (simp add: r)
  then have no: "\<not> pattern_matches (seg @ q) (drop sn n)" using matches_seg [OF d(3), of q r] d by simp
  have "(\<exists>k \<ge> sn. pattern_matches (seg @ q) (drop k n)) \<longleftrightarrow> (\<exists>k \<ge> sn + 1. pattern_matches (seg @ q) (drop k n))"
    using no by (metis Suc_eq_plus1 Suc_leD le_neq_implies_less Suc_leI)
  then have "pattern_matches p n \<longleftrightarrow> (\<exists>k \<ge> sn + 1. pattern_matches ([] @ seg @ q) (drop k n))" using d(8) by simp
  moreover obtain b n' where b: "xs @ r = b # n'" using r by (cases "xs @ r") auto
  ultimately show ?thesis using d(1,2,4-7) by (intro glob_inv_SomeI [of p pre "[]" "seg @ q" n "nl @ [b]" "[]" n']) simp_all
qed

lemma glob_inv_end:
  assumes "glob_inv p n pi ni star" "\<not> ni < length n"
  shows "list_all (\<lambda>c. c = CHR ''*'') (drop pi p) \<longleftrightarrow> pattern_matches p n"
proof (cases star)
  case None
  with assms(1) obtain seg q xs r where d: "p = seg @ q" "n = xs @ r" "list_all2 matches_byte seg xs" "pi = length seg" "ni = length xs"
    by (auto elim: glob_inv_NoneE)
  then show ?thesis using assms(2) matches_seg [OF d(3), of q r] by (simp add: matches_nil)
next
  case (Some s)
  obtain sp sn where s: "s = (sp, sn)" by fastforce
  obtain pre seg q nl xs r where d: "p = pre @ CHR ''*'' # seg @ q" "n = nl @ xs @ r" "list_all2 matches_byte seg xs"
    "sp = length pre" "pi = sp + 1 + length seg" "sn = length nl" "ni = sn + length xs"
    "pattern_matches p n \<longleftrightarrow> (\<exists>k \<ge> sn. pattern_matches (seg @ q) (drop k n))"
    using assms(1) unfolding Some s by (rule glob_inv_SomeE)
  have r: "r = []" using assms(2) d by simp
  have len: "length seg = length xs" using d(3) by (rule list_all2_lengthD)
  have "pattern_matches p n \<longleftrightarrow> pattern_matches q []"
  proof
    assume "pattern_matches p n"
    then obtain k where k: "sn \<le> k" "pattern_matches (seg @ q) (drop k n)" using d(8) by blast
    from matches_seg_split [OF matches_byte_no_star [OF d(3)] k(2)]
    have fit: "length seg \<le> length (drop k n)" "pattern_matches q (drop (length seg) (drop k n))" by blast+
    have "drop (length seg) (drop k n) = []" using k(1) d r len by simp
    then show "pattern_matches q []" using fit(2) by simp
  next
    assume "pattern_matches q []"
    then have "pattern_matches (seg @ q) (drop sn n)" using matches_seg [OF d(3), of q "[]"] d r by simp
    then show "pattern_matches p n" using d(8) by blast
  qed
  then show ?thesis using d by (simp add: matches_nil)
qed

lemma glob_loop_matches:
  assumes "CHR ''*'' \<notin> set n" "glob_inv p n pi ni star"
  shows "glob_loop p n pi ni star = Some (pattern_matches p n)"
  using assms(2)
proof (induction "glob_rank p n pi ni star" arbitrary: pi ni star rule: wf_induct_rule [OF wf_lex_prod [OF wf_less_than wf_less_than]])
  case less: 1
  note inv = less.prems
  show ?case
  proof (cases "ni < length n")
    case False
    then show ?thesis using glob_inv_end [OF inv] by (simp add: glob_loop.simps)
  next
    case ni: True
    have lit: "matches_byte (p ! pi) (n ! ni) \<longleftrightarrow> p ! pi = CHR ''?'' \<or> p ! pi = n ! ni"
      using assms(1) nth_mem [OF ni] by (auto simp: matches_byte_def)
    have sn: "sn \<le> ni" if "star = Some (sp, sn)" for sp sn using inv unfolding that by (rule glob_inv_SomeE) simp
    consider (char) "pi < length p" "matches_byte (p ! pi) (n ! ni)"
      | (star) "pi < length p" "p ! pi = CHR ''*''" "\<not> matches_byte (p ! pi) (n ! ni)"
      | (other) "\<not> (pi < length p \<and> matches_byte (p ! pi) (n ! ni))" "\<not> (pi < length p \<and> p ! pi = CHR ''*'')" by blast
    then show ?thesis
    proof cases
      case char
      have "glob_loop p n (pi + 1) (ni + 1) star = Some (pattern_matches p n)"
        using char by (intro less.hyps glob_inv_char [OF inv ni]) (auto simp: glob_rank_def)
      then show ?thesis using ni char lit by (subst glob_loop.simps) simp
    next
      case star
      have "(glob_rank p n (pi + 1) ni (Some (pi, ni)), glob_rank p n pi ni star) \<in> less_than <*lex*> less_than"
        using star(1) ni sn by (cases star) (auto simp: glob_rank_def)
      then have "glob_loop p n (pi + 1) ni (Some (pi, ni)) = Some (pattern_matches p n)"
        using star by (intro less.hyps glob_inv_star [OF inv]) auto
      then show ?thesis using ni star lit by (subst glob_loop.simps) simp
    next
      case other
      show ?thesis
      proof (cases star)
        case None
        with inv obtain seg q xs r where d: "p = seg @ q" "n = xs @ r" "list_all2 matches_byte seg xs" "pi = length seg" "ni = length xs"
          by (auto elim: glob_inv_NoneE)
        obtain c r' where r: "r = c # r'" using ni d by (cases r) auto
        have "\<not> pattern_matches q r"
          using other d r by (cases q) (auto simp: pattern_matches.simps(2) matches_byte_def)
        then have "\<not> pattern_matches p n" using d matches_seg [OF d(3), of q r] by simp
        then show ?thesis using ni None other lit by (subst glob_loop.simps) auto
      next
        case (Some s)
        obtain sp sn' where s: "s = (sp, sn')" by fastforce
        have "(glob_rank p n (sp + 1) (sn' + 1) (Some (sp, sn' + 1)), glob_rank p n pi ni star) \<in> less_than <*lex*> less_than"
          using Some s ni sn [of sp sn'] by (auto simp: glob_rank_def)
        then have "glob_loop p n (sp + 1) (sn' + 1) (Some (sp, sn' + 1)) = Some (pattern_matches p n)"
          using glob_inv_back [OF inv [unfolded Some s] ni other] by (intro less.hyps) auto
        then show ?thesis using ni Some s other lit by (subst glob_loop.simps) auto
      qed
    qed
  qed
qed

lemma glob_matches: "CHR ''*'' \<notin> set n \<Longrightarrow> glob p n = Some (pattern_matches p n)"
  unfolding glob_def by (rule glob_loop_matches) (auto intro: glob_inv_NoneI [of p "[]" p n "[]" n])

section \<open>What is read\<close>

text \<open>The reading of a file, without a configuration to fill: the global settings in the order sshd
  meets them, and how many \<open>Match\<close> lines there are. \<open>m\<close> says whether a \<open>Match\<close> block is open.\<close>

type_synonym reading = "((string \<times> string) list \<times> nat, string) result"

definition both :: "reading \<Rightarrow> reading \<Rightarrow> reading" where
  "both a b = rbind a (\<lambda>(s, i). rbind b (\<lambda>(t, j). Ok (s @ t, i + j)))"

fun reading_files :: "host_fs \<Rightarrow> (string \<Rightarrow> bool \<Rightarrow> reading) \<Rightarrow> string list \<Rightarrow> bool \<Rightarrow> reading" where
  "reading_files fs inner [] m = Ok ([], 0)"
| "reading_files fs inner (file # files) m =
     (case read_bounded fs file of
        Err _ \<Rightarrow> Err (include_error file)
      | Ok content \<Rightarrow> both (inner content m) (reading_files fs inner files m))"

fun reading_lines :: "host_fs \<Rightarrow> (string \<Rightarrow> bool \<Rightarrow> reading) option \<Rightarrow> string list \<Rightarrow> bool \<Rightarrow> reading" where
  "reading_lines fs inner [] m = Ok ([], 0)"
| "reading_lines fs inner (l # ls) m =
     (case sshd_line_of l of
        SkipLine \<Rightarrow> reading_lines fs inner ls m
      | MatchLine \<Rightarrow> both (Ok ([], 1)) (reading_lines fs inner ls True)
      | IncludeLine pats \<Rightarrow>
          (case inner of
             None \<Rightarrow> Err TOO_DEEP
           | Some f \<Rightarrow> both (reading_files fs f (concat (map (included fs) pats)) m) (reading_lines fs inner ls m))
      | SettingLine k v \<Rightarrow> both (Ok (if m then [] else [(k, v)], 0)) (reading_lines fs inner ls m))"

primrec sshd_reading :: "host_fs \<Rightarrow> nat \<Rightarrow> string \<Rightarrow> bool \<Rightarrow> reading" where
  "sshd_reading fs 0 content m = reading_lines fs None (lines content) m"
| "sshd_reading fs (Suc r) content m = reading_lines fs (Some (sshd_reading fs r)) (lines content) m"

text \<open>What a reading adds to a configuration: values not set before, the first of each keyword.\<close>

definition settle_config :: "sshd_config \<Rightarrow> (string \<times> string) list \<times> nat \<Rightarrow> sshd_config" where
  "settle_config c r = c\<lparr>sc_values := map_of (fst r) ++ sc_values c, sc_match_blocks := sc_match_blocks c + int (snd r)\<rparr>"

definition sim ::
  "(string \<Rightarrow> sshd_config \<Rightarrow> (sshd_config, string) result) \<Rightarrow> (string \<Rightarrow> bool \<Rightarrow> reading) \<Rightarrow> bool" where
  "sim f g \<longleftrightarrow> (\<forall>x c. rbind (f x c) (\<lambda>c'. Ok (c'\<lparr>sc_in_match := sc_in_match c\<rparr>)) = rbind (g x (sc_in_match c)) (\<lambda>r. Ok (settle_config c r)))"

lemma config_nil [simp]: "settle_config c ([], 0) = c"
  by (simp add: settle_config_def)

lemma config_settle: "settle_config (settle_config c r) r' = settle_config c (fst r @ fst r', snd r + snd r')"
  by (simp add: settle_config_def)

lemma config_in_match [simp]: "sc_in_match (settle_config c r) = sc_in_match c"
  by (simp add: settle_config_def)

lemma config_update [simp]: "settle_config (c\<lparr>sc_in_match := m\<rparr>) r = (settle_config c r)\<lparr>sc_in_match := m\<rparr>"
  by (simp add: settle_config_def)

lemma config_same [simp]: "(settle_config c r)\<lparr>sc_in_match := sc_in_match c\<rparr> = settle_config c r"
  by (cases c) (simp add: settle_config_def)

lemma set_value_settle: "set_value k v c = settle_config c ([(k, v)], 0)"
proof (cases "sc_values c k")
  case None
  have "[k \<mapsto> v] ++ sc_values c = (sc_values c)(k \<mapsto> v)" using None by (auto simp: map_add_def split: option.splits)
  then show ?thesis using None by (simp add: set_value_def settle_config_def)
next
  case (Some w)
  then have "[k \<mapsto> v] ++ sc_values c = sc_values c" by (auto simp: map_add_def split: option.splits)
  then show ?thesis using Some by (simp add: set_value_def settle_config_def)
qed

lemma both_settle:
  "rbind (both a b) (\<lambda>r. Ok (settle_config c r)) = rbind a (\<lambda>r. rbind b (\<lambda>r'. Ok (settle_config (settle_config c r) r')))"
  by (cases a; cases b) (auto simp: both_def config_settle)

lemma both_settle_at:
  "rbind (both a b) (\<lambda>r. Ok ((settle_config c r)\<lparr>sc_in_match := m\<rparr>)) =
   rbind a (\<lambda>r. rbind b (\<lambda>r'. Ok ((settle_config (settle_config c r) r')\<lparr>sc_in_match := m\<rparr>)))"
  by (cases a; cases b) (auto simp: both_def config_settle)

lemma sim_includes:
  assumes "sim f g"
  shows "sshd_includes fs f files c = rbind (reading_files fs g files (sc_in_match c)) (\<lambda>r. Ok (settle_config c r))"
proof (induction files arbitrary: c)
  case (Cons path paths)
  show ?case
  proof (cases "read_bounded fs path")
    case (Ok content)
    have f: "rbind (f content c) (\<lambda>c'. Ok (c'\<lparr>sc_in_match := sc_in_match c\<rparr>)) = rbind (g content (sc_in_match c)) (\<lambda>r. Ok (settle_config c r))"
      using assms by (simp add: sim_def)
    show ?thesis
    proof (cases "g content (sc_in_match c)")
      case (Ok r)
      then obtain c' where "f content c = Ok c'" "c'\<lparr>sc_in_match := sc_in_match c\<rparr> = settle_config c r"
        using f by (cases "f content c") auto
      then show ?thesis using \<open>read_bounded fs path = Ok content\<close> Ok Cons.IH [of "settle_config c r"] by (simp add: both_settle)
    next
      case (Err e)
      then have "f content c = Err e" using f by (cases "f content c") auto
      then show ?thesis using \<open>read_bounded fs path = Ok content\<close> Err by (simp add: both_def)
    qed
  qed simp
qed simp

lemma sim_lines:
  assumes "rel_option sim inner inner'"
  shows "rbind (sshd_lines fs inner ls c) (\<lambda>c'. Ok (c'\<lparr>sc_in_match := m\<rparr>)) =
    rbind (reading_lines fs inner' ls (sc_in_match c)) (\<lambda>r. Ok (settle_config (c\<lparr>sc_in_match := m\<rparr>) r))"
proof (induction ls arbitrary: c)
  case (Cons l ls)
  show ?case
  proof (cases "sshd_line_of l")
    case MatchLine
    have "c\<lparr>sc_match_blocks := sc_match_blocks c + 1\<rparr> = settle_config c ([], Suc 0)" by (simp add: settle_config_def)
    then show ?thesis using MatchLine Cons.IH [of "(settle_config c ([], Suc 0))\<lparr>sc_in_match := True\<rparr>"] by (simp add: both_settle_at)
  next
    case (IncludeLine pats)
    show ?thesis
    proof (cases inner)
      case None
      then show ?thesis using IncludeLine assms by (cases inner') simp_all
    next
      case (Some f)
      then obtain g where g: "inner' = Some g" "sim f g" using assms by (cases inner') auto
      let ?fs = "concat (map (included fs) pats)"
      note inc = sim_includes [OF g(2), of fs ?fs c]
      show ?thesis
      proof (cases "reading_files fs g ?fs (sc_in_match c)")
        case (Ok r)
        then show ?thesis using IncludeLine Some g(1) inc Cons.IH [of "settle_config c r"] by (simp add: both_settle_at)
      next
        case (Err e)
        then show ?thesis using IncludeLine Some g(1) inc by (simp add: both_def)
      qed
    qed
  next
    case (SettingLine k v)
    show ?thesis using SettingLine Cons.IH [of c] Cons.IH [of "settle_config c ([(k, v)], 0)"]
      by (simp add: both_settle_at set_value_settle)
  qed (use Cons.IH in simp)
qed simp

lemma sim_parse: "sim (sshd_parse fs r) (sshd_reading fs r)"
proof (induction r)
  case 0
  show ?case using sim_lines [of None None fs] by (simp add: sim_def)
next
  case (Suc r)
  then show ?case using sim_lines [of "Some (sshd_parse fs r)" "Some (sshd_reading fs r)" fs] by (simp add: sim_def)
qed

lemma sshd_parse_reading:
  "rbind (sshd_parse fs r content sshd_config_default) (\<lambda>c. Ok (sc_values c, sc_match_blocks c)) =
   rbind (sshd_reading fs r content False) (\<lambda>(settings, n). Ok (map_of settings, int n))"
proof -
  have *: "rbind (sshd_parse fs r content sshd_config_default) (\<lambda>c'. Ok (c'\<lparr>sc_in_match := False\<rparr>)) =
    rbind (sshd_reading fs r content False) (\<lambda>r. Ok (settle_config sshd_config_default r))"
    using sim_parse [of fs r, unfolded sim_def, rule_format, of content sshd_config_default]
    by (simp add: sshd_config_default_def)
  show ?thesis
  proof (cases "sshd_reading fs r content False")
    case (Ok s)
    then obtain c where c: "sshd_parse fs r content sshd_config_default = Ok c"
        "c\<lparr>sc_in_match := False\<rparr> = settle_config sshd_config_default s"
      using * by (cases "sshd_parse fs r content sshd_config_default") auto
    have "sc_values c = map_of (fst s)" "sc_match_blocks c = int (snd s)"
      using arg_cong [OF c(2), of sc_values] arg_cong [OF c(2), of sc_match_blocks]
      by (simp_all add: settle_config_def sshd_config_default_def)
    then show ?thesis using Ok c(1) by (cases s) simp
  next
    case (Err e)
    then show ?thesis using * by (cases "sshd_parse fs r content sshd_config_default") auto
  qed
qed

section \<open>Facts\<close>

definition SSHD_CATALOG :: "string list" where
  "SSHD_CATALOG = map ((@) ''sshd.'') SSHD_STRINGS @ map ((@) ''sshd.'') SSHD_INTS @ [''sshd.match_blocks'']"

lemma sshd_catalog_ok: "list_all catalog_ok SSHD_CATALOG"
  by (simp add: SSHD_CATALOG_def SSHD_STRINGS_def SSHD_INTS_def catalog_ok_def validate_identifier_def evals)

lemma concat_singletons: "concat (map (\<lambda>x. [f x]) xs) = map f xs"
  by (induction xs) simp_all

lemma emits_sshd_facts: "emits SSHD_CATALOG (sshd_facts config)"
proof -
  have ok: "catalog_ok (''sshd.'' @ key)" if "key \<in> set SSHD_STRINGS \<or> key \<in> set SSHD_INTS" for key
    using sshd_catalog_ok that by (auto simp: SSHD_CATALOG_def list_all_iff)
  have last: "catalog_ok ''sshd.match_blocks''" using sshd_catalog_ok by (simp add: SSHD_CATALOG_def)
  have "emits (concat (map (\<lambda>key. [''sshd.'' @ key]) SSHD_STRINGS))
      (out_each (\<lambda>key. out_string (''sshd.'' @ key) (or_empty (sc_values config key))) SSHD_STRINGS)"
    using ok by (intro emits_each emits_string) blast
  moreover have "emits (concat (map (\<lambda>key. [''sshd.'' @ key]) SSHD_INTS))
      (out_each (\<lambda>key. out_int (''sshd.'' @ key) (case sc_values config key of Some v \<Rightarrow> plain_int v | None \<Rightarrow> -1)) SSHD_INTS)"
    using ok by (intro emits_each emits_int) blast
  ultimately have "emits ((map ((@) ''sshd.'') SSHD_STRINGS @ map ((@) ''sshd.'') SSHD_INTS) @ [''sshd.match_blocks'']) (sshd_facts config)"
    unfolding sshd_facts_def [abs_def] concat_singletons by (intro emits_comp emits_int last)
  then show ?thesis by (simp add: SSHD_CATALOG_def)
qed

lemma emits_source_error:
  assumes "catalog_ok (HARDENING_SOURCE @ ''.'' @ src)"
  shows "emits a (out_error src code message)"
proof -
  have "identifier_new (HARDENING_SOURCE @ ''.'' @ src) = Ok (Identifier (HARDENING_SOURCE @ ''.'' @ src))"
    using assms unfolding catalog_ok_def identifier_new_def by (simp del: append_Cons append.simps)
  then show ?thesis by (rule emits_nothing [OF emits_error])
qed

lemma emits_sshd: "emits SSHD_CATALOG (sshd_collect fs)"
proof -
  have "catalog_ok (HARDENING_SOURCE @ ''.'' @ ''sshd'')"
    by (simp add: catalog_ok_def HARDENING_SOURCE_def validate_identifier_def evals)
  note err = emits_source_error [OF this]
  show ?thesis unfolding sshd_collect_def [abs_def] by (intro emits_case_result err emits_sshd_facts)
qed

lemma sshd_facts_values:
  "sc_values c = sc_values d \<Longrightarrow> sc_match_blocks c = sc_match_blocks d \<Longrightarrow> sshd_facts c = sshd_facts d"
  by (simp add: sshd_facts_def fun_eq_iff)

section \<open>Properties\<close>

text \<open>C35: The collector implements the reading of the configuration: its error is the first file
  that cannot be read or an inclusion that is too deep, and otherwise its facts are those of the
  first global value of each keyword in reading order, an included file read in the place of its
  \<open>Include\<close> and closing its own \<open>Match\<close> blocks, with the number of \<open>Match\<close> lines.\<close>

theorem sshd_refines_reading:
  "sshd_collect fs out =
     (case out_read fs CONFIG of
        Err code \<Rightarrow> out_error ''sshd'' code ''cannot read /etc/ssh/sshd_config'' out
      | Ok content \<Rightarrow>
          (case sshd_reading fs MAX_DEPTH content False of
             Err message \<Rightarrow> out_error ''sshd'' PermissionDenied message out
           | Ok (settings, n) \<Rightarrow>
               sshd_facts \<lparr>sc_values = map_of settings, sc_match_blocks = int n, sc_in_match = False\<rparr> out))"
proof (cases "out_read fs CONFIG")
  case (Ok content)
  show ?thesis
  proof (cases "sshd_parse fs MAX_DEPTH content sshd_config_default")
    case parsed: (Ok c)
    then obtain settings n where r: "sshd_reading fs MAX_DEPTH content False = Ok (settings, n)"
        "sc_values c = map_of settings" "sc_match_blocks c = int n"
      using sshd_parse_reading [of fs MAX_DEPTH content] by (cases "sshd_reading fs MAX_DEPTH content False") auto
    then have "sshd_facts c = sshd_facts \<lparr>sc_values = map_of settings, sc_match_blocks = int n, sc_in_match = False\<rparr>"
      by (intro sshd_facts_values) simp_all
    then show ?thesis using Ok parsed r(1) by (simp add: sshd_collect_def)
  next
    case (Err e)
    then have "sshd_reading fs MAX_DEPTH content False = Err e"
      using sshd_parse_reading [of fs MAX_DEPTH content] by (cases "sshd_reading fs MAX_DEPTH content False") auto
    then show ?thesis using Ok Err by (simp add: sshd_collect_def)
  qed
qed (simp add: sshd_collect_def)

text \<open>C36: The matcher of included file names always returns, and on a name without a star its
  answer is whether the pattern matches the name.\<close>

theorem glob_correct: "CHR ''*'' \<notin> set n \<Longrightarrow> glob p n = Some (pattern_matches p n)"
  by (rule glob_matches)

theorem glob_correct_witness:
  "glob ''*.co?f'' ''a.b.conf'' = Some True \<and> glob ''*.conf'' ''conf'' = Some False"
  using glob_correct [of "''a.b.conf''" "''*.co?f''"] glob_correct [of "''conf''" "''*.conf''"]
  by (simp add: pattern_matches.simps upt_rec)

text \<open>A star in the name is taken for the star of the pattern.\<close>

lemma glob_star_name: "glob ''*'' ''*x'' = Some False \<and> pattern_matches ''*'' ''*x''"
  by (simp add: glob_def glob_loop.simps pattern_matches.simps upt_rec)

end
