(* ===== verification/Hardening.thy ===== *)
theory Hardening
  imports Sshd_Config
begin

text \<open>
  The hardening collectors: \<open>openvibes-collectors/src/hardening.rs\<close> and the files of
  \<open>openvibes-collectors/src/hardening/\<close>. Each collector is one definition over the host's files with a
  catalog of the keys it may emit. The lemmas show that a run emits well-formed facts of the catalog
  only, each key at most once, and that it never panics.
\<close>

section \<open>Definitions\<close>

subsection \<open>os-release and security modules\<close>






subsection \<open>Kernel settings\<close>






subsection \<open>Files and mounts\<close>












text \<open>\<open>max_by_key\<close> keeps the last of equal keys.\<close>

fun longest_point :: "(string \<times> 'a) list \<Rightarrow> (string \<times> 'a) option" where
  "longest_point [] = None"
| "longest_point (m # ms) =
     (case longest_point ms of
        None \<Rightarrow> Some m
      | Some b \<Rightarrow> Some (if length (fst m) > length (fst b) then m else b))"




subsection \<open>Services\<close>









subsection \<open>Login policy\<close>















subsection \<open>Accounts\<close>





definition empty_password :: "string \<Rightarrow> string option" where
  "empty_password l =
     (case split_on (CHR '':'') l of name # pw # _ \<Rightarrow> if pw = [] then Some name else None | _ \<Rightarrow> None)"



subsection \<open>Kernel\<close>






subsection \<open>Audit\<close>








subsection \<open>The run\<close>


section \<open>The catalog\<close>














subsection \<open>The keys are identifiers\<close>





subsection \<open>The keys are distinct\<close>














subsection \<open>What each collector emits\<close>


















subsection \<open>One error for a source\<close>


































subsection \<open>What the values mean\<close>

text \<open>The mount that holds a path is the longest, and of several on one point the latest.\<close>

lemma longest_point_Some:
  "longest_point ms = Some m \<Longrightarrow>
   \<exists>xs ys. ms = xs @ m # ys \<and> list_all (\<lambda>x. length (fst x) \<le> length (fst m)) xs \<and> list_all (\<lambda>y. length (fst y) < length (fst m)) ys"
proof (induction ms arbitrary: m)
  case (Cons a ms)
  show ?case
  proof (cases "longest_point ms")
    case None
    then have "ms = []" by (cases ms) (auto split: option.splits)
    then show ?thesis using Cons.prems by (intro exI [of _ "[]"]) simp
  next
    case (Some b)
    then obtain xs ys where b: "ms = xs @ b # ys" "list_all (\<lambda>x. length (fst x) \<le> length (fst b)) xs"
        "list_all (\<lambda>y. length (fst y) < length (fst b)) ys"
      using Cons.IH by blast
    show ?thesis
    proof (cases "length (fst a) > length (fst b)")
      case True
      have "list_all (\<lambda>y. length (fst y) < length (fst a)) ms" using True b by (auto simp: list_all_iff)
      then show ?thesis using True Some Cons.prems by (intro exI [of _ "[]"] exI [of _ ms]) simp
    next
      case False
      then show ?thesis using Some Cons.prems b by (intro exI [of _ "a # xs"] exI [of _ ys]) simp
    qed
  qed
qed simp

lemma list_items_subset: "set (list_items_of vs) \<subseteq> set vs"
  by (auto simp: list_items_of_def)

text \<open>A run says of the shadow file which names have no password, and nothing else.\<close>

definition hide_password :: "string \<Rightarrow> string" where
  "hide_password l =
     (case split_on (CHR '':'') l of
        name # pw # rest \<Rightarrow> name @ '':'' @ (if pw = [] then [] else ''x'')
      | _ \<Rightarrow> l)"

lemma hide_password_empty: "empty_password (hide_password l) = empty_password l"
proof (cases "\<exists>name pw rest. split_on (CHR '':'') l = name # pw # rest")
  case True
  then obtain name pw rest where many: "split_on (CHR '':'') l = name # pw # rest" by blast
  then have "CHR '':'' \<notin> set name" using split_on_parts [of name "CHR '':''" l] by simp
  then show ?thesis using many by (simp add: hide_password_def empty_password_def split_on_append)
qed (simp add: hide_password_def empty_password_def split: list.splits)

lemma shadow_names_only:
  "filter_map empty_password (map hide_password ls) = filter_map empty_password ls"
  by (simp add: filter_map_def hide_password_empty comp_def)

section \<open>Properties\<close>


end
