(* ===== verification/Spec2Isabelle.thy ===== *)
theory Spec2Isabelle
  imports Evaluation Transitions Loader Rule_Store Finding_Queue Alarm_Engine Audit_Records Hardening
begin

text \<open>
  OpenVIBES agent: a verification development for \<open>openvibes-project/openvibes-agent\<close>.
\<close>

end
